(* ===== verification/Prelude.thy ===== *)
theory Prelude
  imports Main "HOL-Library.Word" "HOL-Library.Monad_Syntax"
begin

text \<open>
  Shared vocabulary of the development: the machine integers of the C sources
  (\<open>uint8_t\<close> \dots \<open>uint64_t\<close>) as words, a byte-addressed little-endian memory with
  multi-byte loads and stores, the counting \<open>for\<close> loop over an unsigned integer, and
  the generic facts on words and lists that the component theories use.
\<close>

unbundle bit_operations_syntax

type_synonym u8 = "8 word"
type_synonym u16 = "16 word"
type_synonym u32 = "32 word"
type_synonym u64 = "64 word"

type_synonym memory = "u64 \<Rightarrow> u8"

named_theorems frame_simps \<open>what an operation leaves unchanged\<close>
named_theorems addr_simps \<open>addresses and offsets read as natural numbers\<close>


section \<open>Words\<close>

lemma unat_of_nat_small: "n < 2 ^ LENGTH('a) \<Longrightarrow> unat (of_nat n :: 'a::len word) = n"
  by (simp add: unat_of_nat)

lemma unat_lt2p: "unat (w :: 'a::len word) < 2 ^ LENGTH('a)"
  by (rule unsigned_less)

lemma unat_add_small:
  "unat a + unat b < 2 ^ LENGTH('a) \<Longrightarrow> unat (a + b :: 'a::len word) = unat a + unat b"
  by (simp add: unat_add_lem)

lemma unat_add_of_nat:
  "unat a + n < 2 ^ LENGTH('a) \<Longrightarrow> unat (a + of_nat n :: 'a::len word) = unat a + n"
  by (simp add: unat_add_small unat_of_nat_small)

lemma unat_Suc_less: "unat (i + 1 :: 'a::len word) = Suc (unat i)" if "i < n"
proof -
  have "unat i < unat n" using that by (simp add: word_less_nat_alt)
  then have "unat i + unat (1 :: 'a word) < 2 ^ LENGTH('a)"
    using unat_lt2p [of n] by (simp only: unat_1)
  then show ?thesis by (simp add: unat_add_small)
qed

lemma unat_inc: "unat (i + 1 :: 'a::len word) = Suc (unat i)" if "unat i + 1 < 2 ^ LENGTH('a)"
  using that by (simp add: unat_add_small)

lemma unat_ucast: "unat (ucast (w :: 'a::len word) :: 'b::len word) = unat w mod 2 ^ LENGTH('b)"
  by (simp only: unsigned_ucast_eq take_bit_eq_mod)

lemma unat_ucast_up:
  "LENGTH('a) \<le> LENGTH('b) \<Longrightarrow> unat (ucast (w :: 'a::len word) :: 'b::len word) = unat w"
  unfolding unat_ucast using unat_lt2p [of w]
  by (meson le_trans mod_less order_less_le_trans power_increasing one_le_numeral)

lemma ucast_of_nat_small:
  "n < 2 ^ LENGTH('a) \<Longrightarrow> (ucast (of_nat n :: 'a::len word) :: 'b::len word) = of_nat n"
  by (simp add: word_unat_eq_iff unat_ucast unat_of_nat)

lemma of_nat_unat_add: "of_nat (unat a + n) = (a + of_nat n :: 'a::len word)"
  by simp

text \<open>Shifts and masks as division and remainder.\<close>

lemma unat_shiftr: "unat (drop_bit n w) = unat w div 2 ^ n" for w :: "'a::len word"
  by (subst unsigned_drop_bit_eq) (simp add: drop_bit_eq_div take_bit_nat_eq_self unat_lt2p)

lemma unat_and_mask: "unat (w AND mask n) = unat w mod 2 ^ n" for w :: "'a::len word"
  by (subst take_bit_eq_mask [symmetric], subst unsigned_take_bit_eq) (rule take_bit_eq_mod)

lemma unat_align_down: "unat (w AND NOT (mask n)) = unat w div 2 ^ n * 2 ^ n" for w :: "'a::len word"
proof -
  have "w AND NOT (mask n) = push_bit n (drop_bit n w)"
    by (rule bit_word_eqI) (auto simp: bit_simps)
  also have "\<dots> = of_nat (unat (drop_bit n w) * 2 ^ n)"
    by (simp add: push_bit_eq_mult)
  finally have "w AND NOT (mask n) = of_nat (unat w div 2 ^ n * 2 ^ n)" by (simp only: unat_shiftr)
  moreover have "unat w div 2 ^ n * 2 ^ n < 2 ^ LENGTH('a)"
    using unat_lt2p [of w] div_times_less_eq_dividend [of "unat w" "2 ^ n"] by linarith
  ultimately show ?thesis by (simp only: unat_of_nat_small)
qed

lemma round_up: "n \<le> (n + (k - 1)) div k * k" "(n + (k - 1)) div k * k \<le> n + (k - 1)" if "0 < k" for n k :: nat
proof -
  have e: "(n + (k - 1)) div k * k + (n + (k - 1)) mod k = n + (k - 1)" by (rule div_mult_mod_eq)
  moreover have "(n + (k - 1)) mod k < k" using that by simp
  ultimately show "n \<le> (n + (k - 1)) div k * k" "(n + (k - 1)) div k * k \<le> n + (k - 1)" by linarith+
qed


section \<open>Little-endian memory\<close>

text \<open>
  \<open>load_le n m a\<close> reads the \<open>n\<close> bytes at \<open>a\<close>, least significant first, and
  \<open>store_le n m a v\<close> writes them. Addresses wrap at \<open>2 ^ 64\<close>, as pointer
  arithmetic on \<open>uint8_t *\<close> does on this machine.
\<close>

fun load_le :: "nat \<Rightarrow> memory \<Rightarrow> u64 \<Rightarrow> 'a::len word" where
  "load_le 0 m a = 0"
| "load_le (Suc n) m a = ucast (m a) OR push_bit 8 (load_le n m (a + 1))"

definition store_le :: "nat \<Rightarrow> memory \<Rightarrow> u64 \<Rightarrow> 'a::len word \<Rightarrow> memory" where
  "store_le n m a v =
     (\<lambda>x. if x - a < of_nat n then ucast (drop_bit (8 * unat (x - a)) v) else m x)"

abbreviation load16 :: "memory \<Rightarrow> u64 \<Rightarrow> u16" where "load16 m a \<equiv> load_le 2 m a"
abbreviation load32 :: "memory \<Rightarrow> u64 \<Rightarrow> u32" where "load32 m a \<equiv> load_le 4 m a"
abbreviation load64 :: "memory \<Rightarrow> u64 \<Rightarrow> u64" where "load64 m a \<equiv> load_le 8 m a"
abbreviation store32 :: "memory \<Rightarrow> u64 \<Rightarrow> u32 \<Rightarrow> memory" where
  "store32 m a v \<equiv> store_le 4 m a v"
abbreviation store64 :: "memory \<Rightarrow> u64 \<Rightarrow> u64 \<Rightarrow> memory" where
  "store64 m a v \<equiv> store_le 8 m a v"

lemma load_le_numeral:
  "load_le (numeral k) m a = ucast (m a) OR push_bit 8 (load_le (pred_numeral k) m (a + 1))"
  by (simp add: numeral_eq_Suc)

lemma bit_load_le:
  "bit (load_le n m a :: 'a::len word) k \<longleftrightarrow>
     k < LENGTH('a) \<and> k < 8 * n \<and> bit (m (a + of_nat (k div 8))) (k mod 8)"
proof (induction n arbitrary: a k)
  case 0
  then show ?case by simp
next
  case (Suc n)
  show ?case
  proof (cases "k < 8")
    case True
    then show ?thesis by (auto simp: bit_simps)
  next
    case False
    then obtain j where k: "k = j + 8" by (metis add.commute le_Suc_ex not_less)
    have "(j + 8) div 8 = Suc (j div 8)" by simp
    then show ?thesis using Suc [of "a + 1" j]
      by (auto simp: bit_simps k algebra_simps dest: bit_imp_le_length)
  qed
qed

lemma store_le_apply:
  "n < 2 ^ 64 \<Longrightarrow> store_le n m a v x =
     (if unat (x - a) < n then ucast (drop_bit (8 * unat (x - a)) v) else m x)"
  by (simp add: store_le_def word_less_nat_alt unat_of_nat_small)

lemma load_store_same:
  assumes "LENGTH('a) \<le> 8 * n" "n < 2 ^ 64"
  shows "load_le n (store_le n m a v) a = (v :: 'a::len word)"
proof (rule bit_word_eqI)
  fix k assume k: "k < LENGTH('a)"
  with assms have "k div 8 < n" by auto
  with assms have u: "unat (of_nat (k div 8) :: u64) = k div 8"
    by (intro unat_of_nat_small) simp
  show "bit (load_le n (store_le n m a v) a :: 'a word) k = bit v k"
    using k assms \<open>k div 8 < n\<close> by (simp add: bit_load_le store_le_apply u bit_simps)
qed

lemma load64_store64_same [simp]: "load64 (store64 m a v) a = v"
  and load32_store32_same [simp]: "load32 (store32 m a w) a = w"
  by (simp_all add: load_store_same)

lemma load_le_cong:
  assumes "\<And>i. i < n \<Longrightarrow> m (a + of_nat i) = m' (a + of_nat i)"
  shows "load_le n m a = (load_le n m' a :: 'a::len word)"
proof (rule bit_word_eqI)
  fix k assume "k < LENGTH('a)"
  show "bit (load_le n m a :: 'a word) k = bit (load_le n m' a :: 'a word) k"
  proof (cases "k < 8 * n")
    case True
    then have "k div 8 < n" by auto
    then show ?thesis by (simp add: bit_load_le assms)
  qed (simp add: bit_load_le)
qed

text \<open>
  Two byte ranges \<open>[a, a + n)\<close> and \<open>[b, b + k)\<close> are apart when neither start lies in
  the other range; the ranges may wrap.
\<close>

definition apart :: "u64 \<Rightarrow> nat \<Rightarrow> u64 \<Rightarrow> nat \<Rightarrow> bool" where
  "apart a n b k \<longleftrightarrow> n \<le> unat (b - a) \<and> k \<le> unat (a - b)"

lemma unat_minus_swap: "a \<noteq> b \<Longrightarrow> unat (a - b) = 2 ^ 64 - unat (b - a :: u64)"
  using unat_lt2p [of a] unat_lt2p [of b]
  by (auto simp: unat_sub_if_size word_size word_unat_eq_iff)

lemma apart_byte:
  assumes "apart a n b k" "i < k"
  shows "n \<le> unat (b + of_nat i - a)"
proof (cases "a = b")
  case True
  with assms show ?thesis by (simp add: apart_def)
next
  case False
  then have "unat (a - b) = 2 ^ 64 - unat (b - a)" by (rule unat_minus_swap)
  with assms(1) have "k \<le> 2 ^ 64 - unat (b - a)" by (simp only: apart_def)
  with assms(2) have lt: "unat (b - a) + i < 2 ^ 64" by linarith
  have "unat (b + of_nat i - a) = unat ((b - a) + of_nat i)"
    by (simp add: algebra_simps)
  also have "\<dots> = unat (b - a) + i"
    using lt by (intro unat_add_of_nat) simp
  finally show ?thesis using assms by (simp add: apart_def)
qed

lemma apartI_nat:
  assumes "unat a + n \<le> unat b \<or> unat b + k \<le> unat a" "0 < n" "0 < k"
    and "unat a + n \<le> 2 ^ 64" "unat b + k \<le> 2 ^ 64"
  shows "apart a n b k"
proof -
  have *: "unat (y - x) \<ge> p \<and> unat (x - y) \<ge> q"
    if "unat x + p \<le> unat y" "0 < p" "unat y + q \<le> 2 ^ 64" for x y :: u64 and p q :: nat
  proof -
    have 1: "unat (y - x) = unat y - unat x"
      using that by (intro unat_sub) (simp add: word_le_nat_alt)
    then have "unat (x - y) = 2 ^ 64 - (unat y - unat x) \<or> x = y"
      using unat_minus_swap [of x y] by auto
    with 1 that show ?thesis by auto
  qed
  from assms(1) show ?thesis
  proof
    assume "unat a + n \<le> unat b"
    from * [OF this assms(2,5)] show ?thesis by (simp add: apart_def)
  next
    assume "unat b + k \<le> unat a"
    from * [OF this assms(3,4)] show ?thesis by (simp add: apart_def)
  qed
qed

lemma load_store_apart:
  assumes "apart a n b k" "n < 2 ^ 64"
  shows "load_le k (store_le n m a v) b = (load_le k m b :: 'b::len word)"
proof (rule load_le_cong)
  fix i assume "i < k"
  with assms have "n \<le> unat (b + of_nat i - a)" by (blast intro: apart_byte)
  with assms show "store_le n m a v (b + of_nat i) = m (b + of_nat i)"
    by (simp add: store_le_apply)
qed

lemma store_outside:
  assumes "n < 2 ^ 64" "n \<le> unat (x - a)"
  shows "store_le n m a v x = m x"
  using assms by (simp add: store_le_apply)

text \<open>A range stays clear of everything that lies below or above it.\<close>

lemma store_outside_nat:
  assumes "n < 2 ^ 64" "unat a + n \<le> 2 ^ 64" "unat x < unat a \<or> unat a + n \<le> unat x"
  shows "store_le n m a v x = m x"
proof (cases "n = 0")
  case False
  have "unat x + 1 \<le> 2 ^ 64" using unat_lt2p [of x] by simp
  with assms False have "apart a n x 1"
    by (intro apartI_nat) (auto simp: Suc_le_eq)
  with assms show ?thesis by (simp add: apart_def store_outside)
qed (simp add: store_le_apply)


section \<open>Counting loops\<close>

text \<open>
  \<open>for (T i = lo; i < n; i++) body\<close> over an unsigned type: the guard keeps the
  increment from wrapping, so the loop ends.
\<close>

function word_for :: "'a::len word \<Rightarrow> 'a word \<Rightarrow> ('a word \<Rightarrow> 's \<Rightarrow> 's) \<Rightarrow> 's \<Rightarrow> 's" where
  "word_for i n body s = (if i < n then word_for (i + 1) n body (body i s) else s)"
  by pat_completeness auto
termination
  by (relation "measure (\<lambda>(i, n, _, _). unat n - unat i)")
     (auto simp: unat_Suc_less word_less_nat_alt)

declare word_for.simps [simp del]

lemma word_for_done [simp]: "\<not> i < n \<Longrightarrow> word_for i n body s = s"
  by (subst word_for.simps) simp

lemma word_for_step: "i < n \<Longrightarrow> word_for i n body s = word_for (i + 1) n body (body i s)"
  by (subst word_for.simps) simp

text \<open>The loop rule: an invariant indexed by the number already done.\<close>

lemma word_for_invariant:
  assumes "P (unat i) s" and "unat i \<le> unat n"
    and "\<And>k s. unat i \<le> k \<Longrightarrow> k < unat n \<Longrightarrow> P k s \<Longrightarrow> P (Suc k) (body (of_nat k) s)"
  shows "P (unat n) (word_for i n body s)"
  using assms
proof (induction i n body s rule: word_for.induct)
  case (1 i n body s)
  show ?case
  proof (cases "i < n")
    case True
    then have i': "unat (i + 1) = Suc (unat i)" by (rule unat_Suc_less)
    have lt: "unat i < unat n" using True by (simp add: word_less_nat_alt)
    have "P (unat n) (word_for (i + 1) n body (body i s))"
    proof (rule "1.IH" [OF True])
      from "1.prems"(3) [OF order_refl lt "1.prems"(1)] show "P (unat (i + 1)) (body i s)"
        by (simp add: i')
      from lt show "unat (i + 1) \<le> unat n" by (simp only: i' Suc_le_eq)
      fix k s assume "unat (i + 1) \<le> k" "k < unat n" "P k s"
      then show "P (Suc k) (body (of_nat k) s)"
        using "1.prems"(3) [of k s] by (simp only: i' Suc_leD)
    qed
    then show ?thesis using True by (simp add: word_for_step)
  next
    case False
    with "1.prems"(1,2) show ?thesis by (simp add: word_less_nat_alt)
  qed
qed

lemma word_for_keeps:
  assumes "P s" and "\<And>i s. P s \<Longrightarrow> P (body i s)"
  shows "P (word_for i n body s)"
  using assms
proof (induction i n body s rule: word_for.induct)
  case (1 i n body s)
  show ?case
  proof (cases "i < n")
    case True
    from "1.IH" [OF True "1.prems"(2) [OF "1.prems"(1)] "1.prems"(2)]
    show ?thesis using True by (simp only: word_for_step)
  qed (simp add: "1.prems"(1))
qed

text \<open>The loop is a fold over the indices.\<close>

lemma word_for_fold: "word_for i n body s = fold (\<lambda>k. body (of_nat k)) [unat i..<unat n] s"
proof (induction i n body s rule: word_for.induct)
  case (1 i n body s)
  show ?case
  proof (cases "i < n")
    case True
    then have "[unat i..<unat n] = unat i # [unat (i + 1)..<unat n]"
      by (simp add: unat_Suc_less upt_conv_Cons word_less_nat_alt)
    with True "1.IH" [OF True] show ?thesis by (simp add: word_for_step)
  next
    case False
    then show ?thesis by (simp add: word_less_nat_alt)
  qed
qed

end
