(* ===== verification/Machine.thy ===== *)
theory Machine
  imports Prelude
begin

text \<open>
  The machine the kernel runs on, as far as the C code can see it: the memory that its
  pointers reach and the I/O ports of \<open>io.h\<close>. Every component extends this record with
  its own static variables.

  \<open>mem\<close> is indexed by the addresses the kernel dereferences. \<open>outs\<close> is the log of all
  \<open>outb\<close> instructions, oldest first. What an \<open>inb\<close> returns is the device's business:
  \<open>dev n p\<close> is the answer of port \<open>p\<close> to the \<open>n\<close>-th read, and \<open>now\<close> counts reads.
\<close>

record machine =
  mem :: memory
  outs :: "(u16 \<times> u8) list"
  dev :: "nat \<Rightarrow> u16 \<Rightarrow> u8"
  now :: nat

definition outb :: "u16 \<Rightarrow> u8 \<Rightarrow> 'a machine_scheme \<Rightarrow> 'a machine_scheme" where
  "outb port val s = s\<lparr>outs := outs s @ [(port, val)]\<rparr>"

definition inb :: "u16 \<Rightarrow> 'a machine_scheme \<Rightarrow> u8 \<times> 'a machine_scheme" where
  "inb port s = (dev s (now s) port, s\<lparr>now := Suc (now s)\<rparr>)"

text \<open>Stores through a \<open>uint64_t *\<close>, a \<open>uint32_t *\<close> and a \<open>uint8_t *\<close>.\<close>

definition put64 :: "u64 \<Rightarrow> u64 \<Rightarrow> 'a machine_scheme \<Rightarrow> 'a machine_scheme" where
  "put64 a v s = s\<lparr>mem := store64 (mem s) a v\<rparr>"

definition put32 :: "u64 \<Rightarrow> u32 \<Rightarrow> 'a machine_scheme \<Rightarrow> 'a machine_scheme" where
  "put32 a v s = s\<lparr>mem := store32 (mem s) a v\<rparr>"

definition put8 :: "u64 \<Rightarrow> u8 \<Rightarrow> 'a machine_scheme \<Rightarrow> 'a machine_scheme" where
  "put8 a v s = s\<lparr>mem := (mem s)(a := v)\<rparr>"

abbreviation get64 :: "'a machine_scheme \<Rightarrow> u64 \<Rightarrow> u64" where
  "get64 s a \<equiv> load64 (mem s) a"

abbreviation get32 :: "'a machine_scheme \<Rightarrow> u64 \<Rightarrow> u32" where
  "get32 s a \<equiv> load32 (mem s) a"

lemma outb_frame [frame_simps]:
  "mem (outb p v s) = mem s" "dev (outb p v s) = dev s" "now (outb p v s) = now s"
  by (simp_all add: outb_def)

lemma outs_outb [simp]: "outs (outb p v s) = outs s @ [(p, v)]"
  by (simp add: outb_def)

lemma put_frame [frame_simps]:
  "outs (put64 a v s) = outs s" "outs (put32 a w s) = outs s" "outs (put8 a b s) = outs s"
  by (simp_all add: put64_def put32_def put8_def)

lemma mem_put [simp]:
  "mem (put64 a v s) = store64 (mem s) a v"
  "mem (put32 a w s) = store32 (mem s) a w"
  "mem (put8 a b s) = (mem s)(a := b)"
  by (simp_all add: put64_def put32_def put8_def)

end
