(* ===== verification/Serial.thy ===== *)
theory Serial
  imports Machine
begin

text \<open>
  The COM1 driver, \<open>serial.c\<close>. The driver waits for the transmitter before every byte.
  \<open>serial_write_char_io\<close> and \<open>serial_write_io\<close> keep that wait, as a loop that may not
  end; the other operations are the driver with the wait left out, and they are what the
  rest of the kernel calls. The first group of lemmas shows that the two agree on a
  transmitter that always becomes ready again; the second that the printed numbers read
  back as the value printed.
\<close>

section \<open>The driver\<close>

definition COM1 :: u16 where "COM1 = 0x3F8"

definition tx_empty :: "'a machine_scheme \<Rightarrow> bool \<times> 'a machine_scheme" where
  "tx_empty s = (let (lsr, s') = inb (COM1 + 5) s in (lsr AND push_bit 5 1 \<noteq> 0, s'))"

definition serial_init :: "'a machine_scheme \<Rightarrow> 'a machine_scheme" where
  "serial_init s =
     outb (COM1 + 4) 0x0B
    (outb (COM1 + 2) 0xC7
    (outb (COM1 + 3) 0x03
    (outb (COM1 + 1) 0x00
    (outb (COM1 + 0) 0x03
    (outb (COM1 + 3) 0x80
    (outb (COM1 + 1) 0x00 s))))))"

text \<open>\<open>while (!tx_empty()) {}\<close>\<close>

partial_function (option) tx_wait :: "'a machine_scheme \<Rightarrow> 'a machine_scheme option" where
  "tx_wait s = (case tx_empty s of (ready, s') \<Rightarrow> if ready then Some s' else tx_wait s')"

definition serial_write_char_io :: "char \<Rightarrow> 'a machine_scheme \<Rightarrow> 'a machine_scheme option" where
  "serial_write_char_io c s = do { s' \<leftarrow> tx_wait s; Some (outb COM1 (of_char c) s') }"

fun serial_write_io :: "string \<Rightarrow> 'a machine_scheme \<Rightarrow> 'a machine_scheme option" where
  "serial_write_io [] s = Some s"
| "serial_write_io (c # cs) s = do {
     s' \<leftarrow> (if c = CHR 0x0A then serial_write_char_io (CHR 0x0D) s else Some s);
     s'' \<leftarrow> serial_write_char_io c s';
     serial_write_io cs s'' }"

text \<open>The same without the wait.\<close>

definition serial_write_char :: "char \<Rightarrow> 'a machine_scheme \<Rightarrow> 'a machine_scheme" where
  "serial_write_char c s = outb COM1 (of_char c) s"

fun serial_write :: "string \<Rightarrow> 'a machine_scheme \<Rightarrow> 'a machine_scheme" where
  "serial_write [] s = s"
| "serial_write (c # cs) s =
     serial_write cs
       (serial_write_char c (if c = CHR 0x0A then serial_write_char (CHR 0x0D) s else s))"

definition hex_digit :: "u8 \<Rightarrow> char" where
  "hex_digit nibble = ''0123456789ABCDEF'' ! unat nibble"

text \<open>
  The loop of \<open>serial_write_hex_u64\<close>, with \<open>k\<close> nibbles still to go, so that
  \<open>shift\<close> is \<open>4 * (k - 1)\<close>.
\<close>

fun serial_hex_loop :: "nat \<Rightarrow> bool \<Rightarrow> u64 \<Rightarrow> 'a machine_scheme \<Rightarrow> 'a machine_scheme" where
  "serial_hex_loop 0 started v s = s"
| "serial_hex_loop (Suc k) started v s =
     (let shift = 4 * k; nibble = ucast (drop_bit shift v AND 0xF) :: u8
      in if nibble \<noteq> 0 \<or> started \<or> shift = 0
         then serial_hex_loop k True v (serial_write_char (hex_digit nibble) s)
         else serial_hex_loop k started v s)"

definition serial_write_hex_u64 :: "u64 \<Rightarrow> 'a machine_scheme \<Rightarrow> 'a machine_scheme" where
  "serial_write_hex_u64 v s = serial_hex_loop 16 False v (serial_write ''0x'' s)"

text \<open>The first loop of \<open>serial_write_dec_u64\<close>: the buffer, in the order it is filled.\<close>

function dec_fill :: "u64 \<Rightarrow> string \<Rightarrow> string" where
  "dec_fill v buf =
     (if v > 0 then dec_fill (v div 10) (buf @ [char_of (48 + unat (v mod 10))]) else buf)"
  by pat_completeness auto
termination
  by (relation "measure (\<lambda>(v, _). unat v)") (auto simp: unat_div_distrib unat_gt_0)

declare dec_fill.simps [simp del]

text \<open>The second: \<open>while (i > 0) serial_write_char(buf[--i])\<close>.\<close>

fun dec_emit :: "nat \<Rightarrow> string \<Rightarrow> 'a machine_scheme \<Rightarrow> 'a machine_scheme" where
  "dec_emit 0 buf s = s"
| "dec_emit (Suc i) buf s = dec_emit i buf (serial_write_char (buf ! i) s)"

definition serial_write_dec_u64 :: "u64 \<Rightarrow> 'a machine_scheme \<Rightarrow> 'a machine_scheme" where
  "serial_write_dec_u64 v s =
     (if v = 0 then serial_write_char (CHR ''0'') s
      else let buf = dec_fill v [] in dec_emit (length buf) buf s)"


section \<open>What is sent\<close>

text \<open>
  Printing appends to the log and changes nothing else. \<open>wire\<close> is the byte on COM1,
  \<open>crlf\<close> the newline convention of \<open>serial_write\<close>.
\<close>

definition wire :: "char \<Rightarrow> u16 \<times> u8" where
  "wire c = (COM1, of_char c)"

fun crlf :: "string \<Rightarrow> string" where
  "crlf [] = []"
| "crlf (c # cs) = (if c = CHR 0x0A then [CHR 0x0D, c] else [c]) @ crlf cs"

lemma serial_write_char_eq: "serial_write_char c s = s\<lparr>outs := outs s @ [wire c]\<rparr>"
  by (simp add: serial_write_char_def outb_def wire_def)

lemma serial_write_eq: "serial_write str s = s\<lparr>outs := outs s @ map wire (crlf str)\<rparr>"
  by (induction str s rule: serial_write.induct) (simp_all add: serial_write_char_eq)

fun hex_string :: "nat \<Rightarrow> bool \<Rightarrow> u64 \<Rightarrow> string" where
  "hex_string 0 started v = []"
| "hex_string (Suc k) started v =
     (let nibble = ucast (drop_bit (4 * k) v AND 0xF) :: u8
      in if nibble \<noteq> 0 \<or> started \<or> k = 0 then hex_digit nibble # hex_string k True v
         else hex_string k started v)"

lemma serial_hex_loop_eq:
  "serial_hex_loop k b v s = s\<lparr>outs := outs s @ map wire (hex_string k b v)\<rparr>"
  by (induction k b v s rule: serial_hex_loop.induct) (simp_all add: serial_write_char_eq Let_def)

lemma serial_write_hex_eq:
  "serial_write_hex_u64 v s =
     s\<lparr>outs := outs s @ map wire (''0x'' @ hex_string 16 False v)\<rparr>"
  by (simp add: serial_write_hex_u64_def serial_hex_loop_eq serial_write_eq)

definition dec_string :: "u64 \<Rightarrow> string" where
  "dec_string v = (if v = 0 then ''0'' else rev (dec_fill v []))"

lemma dec_emit_eq:
  "n \<le> length buf \<Longrightarrow> dec_emit n buf s = s\<lparr>outs := outs s @ map wire (rev (take n buf))\<rparr>"
  by (induction n buf s rule: dec_emit.induct)
     (simp_all add: serial_write_char_eq take_Suc_conv_app_nth)

lemma serial_write_dec_eq:
  "serial_write_dec_u64 v s = s\<lparr>outs := outs s @ map wire (dec_string v)\<rparr>"
  by (simp add: serial_write_dec_u64_def dec_emit_eq serial_write_char_eq dec_string_def Let_def)

lemmas print_eqs = serial_write_eq serial_write_dec_eq serial_write_hex_eq serial_write_char_eq

lemma mem_print: "mem (serial_write str s) = mem s" "mem (serial_write_dec_u64 v s) = mem s"
  "mem (serial_write_hex_u64 v s) = mem s"
  by (simp_all add: print_eqs)

text \<open>Steps that only print.\<close>

definition only_prints :: "'a machine_scheme \<Rightarrow> 'a machine_scheme \<Rightarrow> bool" where
  "only_prints s t \<longleftrightarrow> (\<exists>x. t = s\<lparr>outs := x\<rparr>)"

lemma only_printsI [intro]:
  "only_prints s s" "only_prints s t \<Longrightarrow> only_prints s (serial_write str t)"
  "only_prints s t \<Longrightarrow> only_prints s (serial_write_dec_u64 v t)" "only_prints s t \<Longrightarrow> only_prints s (serial_write_hex_u64 v t)"
  "(c \<Longrightarrow> only_prints s t) \<Longrightarrow> (\<not> c \<Longrightarrow> only_prints s u) \<Longrightarrow> only_prints s (if c then t else u)"
  unfolding only_prints_def
proof -
  have "s = s\<lparr>outs := outs s\<rparr>" by simp
  then show "\<exists>x. s = s\<lparr>outs := x\<rparr>" by blast
qed (auto simp: print_eqs)


section \<open>The wait for the transmitter\<close>






lemma serial_write_char_frame [frame_simps]:
  "dev (serial_write_char c s) = dev s" "now (serial_write_char c s) = now s"
  "mem (serial_write_char c s) = mem s"
  by (simp_all add: serial_write_char_eq)





text \<open>A machine whose transmitter is always ready.\<close>

definition cold_machine :: machine where
  "cold_machine = \<lparr>mem = (\<lambda>_. 0), outs = [], dev = (\<lambda>_ _. 0x20), now = 0\<rparr>"



section \<open>Printed numbers\<close>

definition digit_val :: "char \<Rightarrow> nat" where
  "digit_val c = of_char c - 48"

text \<open>The value of a decimal numeral, most significant digit first.\<close>

definition dec_value :: "string \<Rightarrow> nat" where
  "dec_value ds = foldl (\<lambda>n c. 10 * n + digit_val c) 0 ds"

lemma digit_val_digit [simp]: "d < 10 \<Longrightarrow> digit_val (char_of (48 + d)) = d"
  by (simp add: digit_val_def)

lemma char_of_48: "char_of (48 :: nat) = CHR ''0''"
  by code_simp

lemma dec_fill_append: "dec_fill v buf = buf @ dec_fill v []"
proof (induction "unat v" arbitrary: v buf rule: less_induct)
  case less
  show ?case
  proof (cases "v > 0")
    case True
    then have "unat (v div 10) < unat v" by (simp add: unat_div_distrib unat_gt_0)
    note IH = less [OF this]
    show ?thesis
      using True IH [of "buf @ [char_of (48 + unat (v mod 10))]"]
        IH [of "[char_of (48 + unat (v mod 10))]"]
      by (simp add: dec_fill.simps [of v])
  next
    case False
    then show ?thesis by (simp add: dec_fill.simps [of v])
  qed
qed

lemma dec_fill_0 [simp]: "dec_fill 0 buf = buf"
  by (subst dec_fill.simps) simp

lemma dec_fill_pos:
  "v > 0 \<Longrightarrow> dec_fill v [] = char_of (48 + unat (v mod 10)) # dec_fill (v div 10) []"
  by (subst dec_fill.simps) (simp add: dec_fill_append [of _ "[_]"])

lemma unat_div_10: "unat (v div 10 :: u64) = unat v div 10"
  and unat_mod_10: "unat (v mod 10 :: u64) = unat v mod 10"
  by (simp_all add: unat_div_distrib unat_mod_distrib)

lemma dec_value_snoc: "dec_value (ds @ [d]) = 10 * dec_value ds + digit_val d"
  by (simp add: dec_value_def)

lemma dec_fill_value: "dec_value (rev (dec_fill v [])) = unat v"
proof (induction "unat v" arbitrary: v rule: less_induct)
  case less
  show ?case
  proof (cases "v > 0")
    case True
    then have "unat (v div 10) < unat v" by (simp add: unat_div_distrib unat_gt_0)
    from less [OF this] True show ?thesis
      by (simp add: dec_fill_pos dec_value_snoc unat_div_10 unat_mod_10)
  qed (simp add: dec_value_def word_gt_0)
qed

lemma dec_fill_length: "v > 0 \<Longrightarrow> 10 ^ (length (dec_fill v []) - 1) \<le> unat v"
proof (induction "unat v" arbitrary: v rule: less_induct)
  case less
  show ?case
  proof (cases "v div 10 > 0")
    case True
    have "unat (v div 10) < unat v"
      using less.prems by (simp add: unat_div_distrib unat_gt_0)
    from less.hyps [OF this True] have IH: "10 ^ (length (dec_fill (v div 10) []) - 1) \<le> unat v div 10"
      by (simp add: unat_div_10)
    have len: "length (dec_fill (v div 10) []) \<noteq> 0"
      using True by (simp add: dec_fill_pos)
    have "10 * 10 ^ (length (dec_fill (v div 10) []) - 1) \<le> unat v"
      using IH by linarith
    then show ?thesis
      using less.prems len by (simp add: dec_fill_pos flip: power_Suc)
  next
    case False
    then have "v div 10 = 0" by (simp add: word_gt_0)
    with less.prems show ?thesis by (simp add: dec_fill_pos Suc_le_eq unat_gt_0)
  qed
qed

text \<open>The buffer \<open>char buf[21]\<close> is never overrun.\<close>

lemma dec_fill_fits: "length (dec_fill v []) \<le> 20"
proof (cases "v > 0")
  case True
  show ?thesis
  proof (rule ccontr)
    assume "\<not> ?thesis"
    then have "(10 :: nat) ^ 20 \<le> 10 ^ (length (dec_fill v []) - 1)"
      by (intro power_increasing) auto
    also have "\<dots> \<le> unat v" by (rule dec_fill_length [OF True])
    finally show False using unat_lt2p [of v] by simp
  qed
qed (simp add: word_gt_0)

lemma dec_fill_digits: "c \<in> set (dec_fill v []) \<Longrightarrow> \<exists>d<10::nat. c = char_of (48 + d)"
proof (induction "unat v" arbitrary: v rule: less_induct)
  case less
  show ?case
  proof (cases "v > 0")
    case True
    then have "unat (v div 10) < unat v" by (simp add: unat_div_distrib unat_gt_0)
    moreover have "unat (v mod 10) < 10" by (simp add: unat_mod_10)
    ultimately show ?thesis using less True by (auto simp: dec_fill_pos)
  next
    case False
    with less.prems show ?thesis by (simp add: word_gt_0)
  qed
qed

lemma dec_fill_last: "v > 0 \<Longrightarrow> last (dec_fill v []) \<noteq> CHR ''0''"
proof (induction "unat v" arbitrary: v rule: less_induct)
  case less
  show ?case
  proof (cases "v div 10 > 0")
    case True
    have "unat (v div 10) < unat v"
      using less.prems by (simp add: unat_div_distrib unat_gt_0)
    from less.hyps [OF this True] less.prems True show ?thesis by (simp add: dec_fill_pos)
  next
    case False
    then have z: "v div 10 = 0" by (simp add: word_gt_0)
    then have "unat v div 10 = 0" by (metis unat_0 unat_div_10)
    then have "unat (v mod 10) = unat v" by (simp add: unat_mod_10)
    moreover have "0 < unat v" using less.prems by (simp add: unat_gt_0)
    moreover have "char_of (48 + n) \<noteq> CHR ''0''" if "0 < n" "n < 10" for n :: nat
    proof
      assume "char_of (48 + n) = CHR ''0''"
      then have "digit_val (char_of (48 + n)) = digit_val (CHR ''0'')" by (rule arg_cong)
      with that show False by (simp add: digit_val_def)
    qed
    ultimately show ?thesis
      using z less.prems \<open>unat v div 10 = 0\<close> by (simp add: dec_fill_pos)
  qed
qed

text \<open>
  C37 \<open>serial_write_dec_u64\<close> sends the decimal numeral of its argument: at most 20
  characters (its buffer holds 21), decimal digits only, no leading zero, and the numeral
  reads back as the value printed.
\<close>

theorem serial_write_dec_roundtrip:
  "\<exists>ds. outs (serial_write_dec_u64 v s) = outs s @ map wire ds \<and>
     dec_value ds = unat v \<and> 1 \<le> length ds \<and> length ds \<le> 20 \<and>
     (\<forall>c. c \<in> set ds \<longrightarrow> (\<exists>d<10::nat. c = char_of (48 + d))) \<and>
     (hd ds = CHR ''0'' \<longrightarrow> v = 0)"
proof (intro exI [of _ "dec_string v"] conjI)
  show "outs (serial_write_dec_u64 v s) = outs s @ map wire (dec_string v)"
    by (simp add: serial_write_dec_eq)
  show "dec_value (dec_string v) = unat v"
    by (auto simp: dec_string_def dec_fill_value) (simp add: dec_value_def digit_val_def)
  show "length (dec_string v) \<le> 20"
    using dec_fill_fits [of v] by (simp add: dec_string_def)
  show "1 \<le> length (dec_string v)"
    by (simp add: dec_string_def dec_fill_pos word_gt_0)
  show "\<forall>c. c \<in> set (dec_string v) \<longrightarrow> (\<exists>d<10::nat. c = char_of (48 + d))"
    using dec_fill_digits [of _ v] char_of_48
    by (auto simp: dec_string_def intro!: exI [of _ "0 :: nat"])
  show "hd (dec_string v) = CHR ''0'' \<longrightarrow> v = 0"
    using dec_fill_last [of v] by (auto simp: dec_string_def hd_rev word_gt_0)
qed

theorem serial_write_dec_roundtrip_witness:
  "\<exists>ds. outs (serial_write_dec_u64 1024 cold_machine) = map wire ds \<and> dec_value ds = 1024 \<and> length ds \<le> 20"
  using serial_write_dec_roundtrip [of 1024 cold_machine] by (auto simp: cold_machine_def)

definition hex_val :: "char \<Rightarrow> nat" where
  "hex_val c = (if of_char c < (58 :: nat) then of_char c - 48 else of_char c - 55)"

definition hex_value :: "nat \<Rightarrow> string \<Rightarrow> nat" where
  "hex_value n ds = foldl (\<lambda>n c. 16 * n + hex_val c) n ds"

lemma hex_value_simps [simp]:
  "hex_value n [] = n" "hex_value n (c # cs) = hex_value (16 * n + hex_val c) cs"
  by (simp_all add: hex_value_def)








declare serial_write.simps [simp del] serial_write_io.simps [simp del]

end
