(* ===== verification/Multiboot2.thy ===== *)
theory Multiboot2
  imports Serial
begin

text \<open>
  The Multiboot2 memory map, \<open>multiboot2.c\<close>: the parser of the tag list the boot loader
  leaves in memory, which fills the static array \<open>regions\<close>.
\<close>

section \<open>Data\<close>

record mmap_region =
  region_base :: u64
  region_length :: u64
  region_type :: u32

abbreviation (input) MULTIBOOT2_TAG_TYPE_END :: u32 where "MULTIBOOT2_TAG_TYPE_END \<equiv> 0"
abbreviation (input) MULTIBOOT2_TAG_TYPE_MMAP :: u32 where "MULTIBOOT2_TAG_TYPE_MMAP \<equiv> 6"
abbreviation (input) MULTIBOOT2_MMAP_TYPE_AVAILABLE :: u32 where
  "MULTIBOOT2_MMAP_TYPE_AVAILABLE \<equiv> 1"
abbreviation (input) MMAP_MAX_REGIONS :: u32 where "MMAP_MAX_REGIONS \<equiv> 32"

text \<open>The static variables: \<open>regions\<close> has \<open>MMAP_MAX_REGIONS\<close> elements.\<close>

record mb2_state = machine +
  regions :: "mmap_region list"
  region_count :: u32

text \<open>\<open>struct multiboot2_mmap_entry\<close>: base at 0, length at 8, type at 16.\<close>

definition mmap_entry :: "memory \<Rightarrow> u64 \<Rightarrow> mmap_region" where
  "mmap_entry m a =
     \<lparr>region_base = load64 m a, region_length = load64 m (a + 8), region_type = load32 m (a + 16)\<rparr>"

text \<open>\<open>ALIGN_UP(tag->size, 8)\<close>, in the 32 bits of \<open>size\<close>.\<close>

definition mb2_align_up :: "u32 \<Rightarrow> u32 \<Rightarrow> u32" where
  "mb2_align_up val align = (val + align - 1) AND NOT (align - 1)"


section \<open>Operations\<close>

text \<open>The inner loop of \<open>multiboot2_parse_mmap\<close>, over the entries of one map tag.\<close>

function mb2_entries :: "u32 \<Rightarrow> u64 \<Rightarrow> u64 \<Rightarrow> 'a mb2_state_scheme \<Rightarrow> 'a mb2_state_scheme" where
  "mb2_entries entry_size entries entries_end s =
     (if entries < entries_end \<and> region_count s < MMAP_MAX_REGIONS
      then mb2_entries entry_size (entries + ucast entry_size) entries_end
             (s\<lparr>regions := (regions s)[unat (region_count s) := mmap_entry (mem s) entries],
                region_count := region_count s + 1\<rparr>)
      else s)"
  by pat_completeness auto
termination
  by (relation "measure (\<lambda>(_, _, _, s). 32 - unat (region_count s))")
     (auto simp: unat_inc word_less_nat_alt)

declare mb2_entries.simps [simp del]

text \<open>The outer loop, over the tags; a tag of size 0 would make it run for ever.\<close>

partial_function (option) mb2_tags :: "u64 \<Rightarrow> 'a mb2_state_scheme \<Rightarrow> 'a mb2_state_scheme option" where
  "mb2_tags ptr s =
     (let type = get32 s ptr; size = get32 s (ptr + 4)
      in if type = MULTIBOOT2_TAG_TYPE_END then Some s
         else let s' = (if type = MULTIBOOT2_TAG_TYPE_MMAP
                        then mb2_entries (get32 s (ptr + 8)) (ptr + 16) (ptr + ucast size) s
                        else s)
              in mb2_tags (ptr + ucast (mb2_align_up size 8)) s')"

definition multiboot2_parse_mmap :: "u64 \<Rightarrow> 'a mb2_state_scheme \<Rightarrow> 'a mb2_state_scheme option" where
  "multiboot2_parse_mmap multiboot2_addr s = mb2_tags (multiboot2_addr + 8) (s\<lparr>region_count := 0\<rparr>)"

definition multiboot2_get_mmap :: "'a mb2_state_scheme \<Rightarrow> mmap_region list \<times> u32" where
  "multiboot2_get_mmap s = (regions s, region_count s)"

definition mmap_type_string :: "u32 \<Rightarrow> string" where
  "mmap_type_string type =
     (if type = 1 then ''available''
      else if type = 2 then ''reserved''
      else if type = 3 then ''ACPI reclaimable''
      else if type = 4 then ''ACPI NVS''
      else if type = 5 then ''bad memory''
      else ''unknown'')"

definition multiboot2_print_mmap :: "'a mb2_state_scheme \<Rightarrow> 'a mb2_state_scheme" where
  "multiboot2_print_mmap s =
     (let s = serial_write ''mmap: detected '' s;
          s = serial_write_dec_u64 (ucast (region_count s)) s;
          s = serial_write '' regions\<newline>'' s
      in word_for 0 (region_count s) (\<lambda>i s.
           let s = serial_write ''mmap: base='' s;
               s = serial_write_hex_u64 (region_base (regions s ! unat i)) s;
               s = serial_write '' length='' s;
               s = serial_write_hex_u64 (region_length (regions s ! unat i)) s;
               s = serial_write '' type='' s;
               s = serial_write (mmap_type_string (region_type (regions s ! unat i))) s
           in serial_write ''\<newline>'' s) s)"

end
