(* ===== verification/Pmm.thy ===== *)
theory Pmm
  imports Multiboot2
begin

text \<open>
  The physical page frame allocator, \<open>pmm.c\<close>: one bit per 4 KiB frame of the first
  128 MiB, set when the frame is in use.
\<close>

section \<open>Data\<close>

abbreviation (input) PMM_PAGE_SIZE :: u64 where "PMM_PAGE_SIZE \<equiv> 4096"
abbreviation (input) PMM_MAX_FRAMES :: u32 where "PMM_MAX_FRAMES \<equiv> 32768"

record pmm_state = mb2_state +
  bitmap :: "u8 list"
  total_frames :: u32
  used_frames :: u32


section \<open>Operations\<close>

definition bitmap_set :: "u32 \<Rightarrow> 'a pmm_state_scheme \<Rightarrow> 'a pmm_state_scheme" where
  "bitmap_set frame s =
     (let i = unat (frame div 8)
      in s\<lparr>bitmap := (bitmap s)[i := bitmap s ! i OR push_bit (unat (frame mod 8)) 1]\<rparr>)"

definition bitmap_clear :: "u32 \<Rightarrow> 'a pmm_state_scheme \<Rightarrow> 'a pmm_state_scheme" where
  "bitmap_clear frame s =
     (let i = unat (frame div 8)
      in s\<lparr>bitmap := (bitmap s)[i := bitmap s ! i AND NOT (push_bit (unat (frame mod 8)) 1)]\<rparr>)"

definition bitmap_test :: "u32 \<Rightarrow> 'a pmm_state_scheme \<Rightarrow> bool" where
  "bitmap_test frame s \<longleftrightarrow>
     bitmap s ! unat (frame div 8) AND push_bit (unat (frame mod 8)) 1 \<noteq> 0"

text \<open>The body of the loop over the regions in \<open>pmm_init\<close>.\<close>

definition pmm_add_region :: "mmap_region \<Rightarrow> 'a pmm_state_scheme \<Rightarrow> 'a pmm_state_scheme" where
  "pmm_add_region r s =
     (if region_type r \<noteq> MULTIBOOT2_MMAP_TYPE_AVAILABLE then s
      else let start = region_base r; stop = start + region_length r;
               frame_start = ucast ((start + PMM_PAGE_SIZE - 1) div PMM_PAGE_SIZE) :: u32;
               frame_end = ucast (stop div PMM_PAGE_SIZE) :: u32;
               frame_end = (if frame_end > PMM_MAX_FRAMES then PMM_MAX_FRAMES else frame_end)
           in word_for frame_start frame_end (\<lambda>f s.
                let s = bitmap_clear f s
                in s\<lparr>total_frames := total_frames s + 1, used_frames := used_frames s - 1\<rparr>) s)"

text \<open>The body of the two loops that take frames back.\<close>

definition pmm_mark_used :: "u32 \<Rightarrow> 'a pmm_state_scheme \<Rightarrow> 'a pmm_state_scheme" where
  "pmm_mark_used f s =
     (if \<not> bitmap_test f s
      then let s = bitmap_set f s in s\<lparr>used_frames := used_frames s + 1\<rparr>
      else s)"

text \<open>\<open>k_start\<close> and \<open>k_end\<close> are the linker symbols \<open>_kernel_start\<close> and \<open>_kernel_end\<close>.\<close>

definition pmm_init ::
  "u64 \<Rightarrow> u64 \<Rightarrow> mmap_region list \<Rightarrow> u32 \<Rightarrow> 'a pmm_state_scheme \<Rightarrow> 'a pmm_state_scheme" where
  "pmm_init k_start k_end rs count s =
     (let s = word_for 0 (PMM_MAX_FRAMES div 8) (\<lambda>i s. s\<lparr>bitmap := (bitmap s)[unat i := 0xFF]\<rparr>) s;
          s = s\<lparr>total_frames := 0, used_frames := PMM_MAX_FRAMES\<rparr>;
          s = word_for 0 count (\<lambda>i. pmm_add_region (rs ! unat i)) s;
          low_end = (1024 * 1024) div 4096;
          s = word_for 0 (min low_end PMM_MAX_FRAMES) pmm_mark_used s;
          kf_start = ucast (k_start div PMM_PAGE_SIZE) :: u32;
          kf_end = ucast ((k_end + PMM_PAGE_SIZE - 1) div PMM_PAGE_SIZE) :: u32;
          kf_end = (if kf_end > PMM_MAX_FRAMES then PMM_MAX_FRAMES else kf_end);
          s = word_for kf_start kf_end pmm_mark_used s;
          s = serial_write ''pmm: total frames='' s;
          s = serial_write_dec_u64 (ucast (total_frames s)) s;
          s = serial_write '' used='' s;
          s = serial_write_dec_u64 (ucast (used_frames s)) s;
          s = serial_write '' free='' s;
          s = serial_write_dec_u64 (ucast (total_frames s - used_frames s)) s
      in serial_write ''\<newline>'' s)"

text \<open>
  The inner loop of \<open>pmm_alloc_frame\<close>: \<open>Some\<close> is its \<open>return\<close>, \<open>None\<close> that it ran
  through all eight bits.
\<close>

function pmm_scan_bits :: "u32 \<Rightarrow> u8 \<Rightarrow> 'a pmm_state_scheme \<Rightarrow> (u64 \<times> 'a pmm_state_scheme) option" where
  "pmm_scan_bits i b s =
     (if b < 8
      then let frame = i * 8 + ucast b
           in if frame \<ge> PMM_MAX_FRAMES then Some (0, s)
              else if \<not> bitmap_test frame s
              then let s = bitmap_set frame s
                   in Some (ucast frame * PMM_PAGE_SIZE, s\<lparr>used_frames := used_frames s + 1\<rparr>)
              else pmm_scan_bits i (b + 1) s
      else None)"
  by pat_completeness auto
termination
  by (relation "measure (\<lambda>(_, b, _). 8 - unat b)") (auto simp: unat_inc word_less_nat_alt)

function pmm_scan :: "u32 \<Rightarrow> 'a pmm_state_scheme \<Rightarrow> u64 \<times> 'a pmm_state_scheme" where
  "pmm_scan i s =
     (if i < PMM_MAX_FRAMES div 8
      then if bitmap s ! unat i = 0xFF then pmm_scan (i + 1) s
           else case pmm_scan_bits i 0 s of
                  Some r \<Rightarrow> r
                | None \<Rightarrow> pmm_scan (i + 1) s
      else (0, s))"
  by pat_completeness auto
termination
  by (relation "measure (\<lambda>(i, _). 4096 - unat i)") (auto simp: unat_inc word_less_nat_alt)

declare pmm_scan_bits.simps [simp del] pmm_scan.simps [simp del]

definition pmm_alloc_frame :: "'a pmm_state_scheme \<Rightarrow> u64 \<times> 'a pmm_state_scheme" where
  "pmm_alloc_frame s = pmm_scan 0 s"

definition pmm_free_frame :: "u64 \<Rightarrow> 'a pmm_state_scheme \<Rightarrow> 'a pmm_state_scheme" where
  "pmm_free_frame addr s =
     (let frame = ucast (addr div PMM_PAGE_SIZE) :: u32
      in if frame \<ge> PMM_MAX_FRAMES then s
         else if bitmap_test frame s
         then let s = bitmap_clear frame s in s\<lparr>used_frames := used_frames s - 1\<rparr>
         else s)"


definition pmm_get_total_count :: "'a pmm_state_scheme \<Rightarrow> u32" where
  "pmm_get_total_count s = total_frames s"


section \<open>Frames as a set\<close>

text \<open>
  \<open>frame_used s f\<close> reads the bit of frame number \<open>f\<close>; \<open>free_frames\<close> is the abstract
  state, the set of frame numbers that may be handed out. \<open>pmm_wf\<close> is the type
  invariant of the bitmap and \<open>pmm_inv\<close> what the allocator relies on: the counter agrees
  with the bits and frame 0, whose address means failure, is never free.
\<close>

definition frame_used :: "'a pmm_state_scheme \<Rightarrow> nat \<Rightarrow> bool" where
  "frame_used s f \<longleftrightarrow> bit (bitmap s ! (f div 8)) (f mod 8)"

definition free_frames :: "'a pmm_state_scheme \<Rightarrow> nat set" where
  "free_frames s = {f. f < 32768 \<and> \<not> frame_used s f}"

definition pmm_wf :: "'a pmm_state_scheme \<Rightarrow> bool" where
  "pmm_wf s \<longleftrightarrow> length (bitmap s) = 4096"

definition pmm_inv :: "'a pmm_state_scheme \<Rightarrow> bool" where
  "pmm_inv s \<longleftrightarrow> pmm_wf s \<and> frame_used s 0 \<and>
     unat (used_frames s) + card (free_frames s) = 32768"

lemma finite_free_frames [simp]: "finite (free_frames s)"
  by (rule finite_subset [of _ "{..<32768}"]) (auto simp: free_frames_def)

lemma free_frames_bound: "f \<in> free_frames s \<Longrightarrow> f < 32768"
  by (simp add: free_frames_def)

lemma unat_div_8: "unat (f div 8 :: 'a::len word) = unat f div 8"
  and unat_mod_8: "unat (f mod 8 :: 'a::len word) = unat f mod 8"
  if "3 < LENGTH('a)"
proof -
  have "(8 :: nat) = 2 ^ 3" by simp
  also have "\<dots> < 2 ^ LENGTH('a)" using that by (intro power_strict_increasing) auto
  finally have "unat (8 :: 'a word) = 8"
    by (metis of_nat_numeral unat_of_nat_small)
  then show "unat (f div 8 :: 'a word) = unat f div 8" "unat (f mod 8 :: 'a word) = unat f mod 8"
    by (simp_all add: unat_div_distrib unat_mod_distrib)
qed

lemma bitmap_test_iff: "bitmap_test f s \<longleftrightarrow> frame_used s (unat f)"
  by (simp add: bitmap_test_def frame_used_def unat_div_8 unat_mod_8 bit_iff_and_push_bit_not_eq_0)

lemma frame_used_set:
  assumes "pmm_wf s" "unat f < 32768"
  shows "frame_used (bitmap_set f s) g \<longleftrightarrow> g = unat f \<or> frame_used s g"
proof -
  have "unat f div 8 < length (bitmap s)" using assms by (simp add: pmm_wf_def)
  moreover have "g = unat f" if "g div 8 = unat f div 8" "g mod 8 = unat f mod 8"
    using that by (metis div_mult_mod_eq)
  ultimately show ?thesis
    by (cases "g div 8 = unat f div 8")
       (auto simp: frame_used_def bitmap_set_def Let_def unat_div_8 unat_mod_8 bit_simps)
qed

lemma frame_used_clear:
  assumes "pmm_wf s" "unat f < 32768"
  shows "frame_used (bitmap_clear f s) g \<longleftrightarrow> g \<noteq> unat f \<and> frame_used s g"
proof -
  have "unat f div 8 < length (bitmap s)" using assms by (simp add: pmm_wf_def)
  moreover have "g = unat f" if "g div 8 = unat f div 8" "g mod 8 = unat f mod 8"
    using that by (metis div_mult_mod_eq)
  ultimately show ?thesis
    by (cases "g div 8 = unat f div 8")
       (auto simp: frame_used_def bitmap_clear_def Let_def unat_div_8 unat_mod_8 bit_simps)
qed

lemma pmm_wf_upd [simp]:
  "pmm_wf (bitmap_set f s) = pmm_wf s" "pmm_wf (bitmap_clear f s) = pmm_wf s"
  "pmm_wf (s\<lparr>used_frames := n\<rparr>) = pmm_wf s" "pmm_wf (s\<lparr>total_frames := n\<rparr>) = pmm_wf s"
  by (simp_all add: pmm_wf_def bitmap_set_def bitmap_clear_def Let_def)

lemma frame_used_upd [simp]:
  "frame_used (s\<lparr>used_frames := n\<rparr>) = frame_used s"
  "frame_used (s\<lparr>total_frames := n\<rparr>) = frame_used s"
  "free_frames (s\<lparr>used_frames := n\<rparr>) = free_frames s"
  "free_frames (s\<lparr>total_frames := n\<rparr>) = free_frames s"
  by (simp_all add: fun_eq_iff frame_used_def free_frames_def)

lemma free_frames_set:
  "pmm_wf s \<Longrightarrow> unat f < 32768 \<Longrightarrow> free_frames (bitmap_set f s) = free_frames s - {unat f}"
  by (auto simp: free_frames_def frame_used_set)

lemma free_frames_clear:
  "pmm_wf s \<Longrightarrow> unat f < 32768 \<Longrightarrow> free_frames (bitmap_clear f s) = insert (unat f) (free_frames s)"
  by (auto simp: free_frames_def frame_used_clear)

lemma bitmap_upd_counters [simp]:
  "used_frames (bitmap_set f s) = used_frames s" "total_frames (bitmap_set f s) = total_frames s"
  "used_frames (bitmap_clear f s) = used_frames s" "total_frames (bitmap_clear f s) = total_frames s"
  by (simp_all add: bitmap_set_def bitmap_clear_def Let_def)


section \<open>Allocation\<close>

text \<open>What handing out frame \<open>f\<close> does, and what freeing it does.\<close>

definition frame_addr :: "nat \<Rightarrow> u64" where
  "frame_addr f = of_nat f * 4096"

definition take_frame :: "nat \<Rightarrow> 'a pmm_state_scheme \<Rightarrow> 'a pmm_state_scheme" where
  "take_frame f s = (bitmap_set (of_nat f) s)\<lparr>used_frames := used_frames s + 1\<rparr>"

definition drop_frame :: "nat \<Rightarrow> 'a pmm_state_scheme \<Rightarrow> 'a pmm_state_scheme" where
  "drop_frame f s = (bitmap_clear (of_nat f) s)\<lparr>used_frames := used_frames s - 1\<rparr>"

lemma unat_frame_addr: "f < 32768 \<Longrightarrow> unat (frame_addr f) = f * 4096"
proof -
  assume "f < 32768"
  then have "frame_addr f = of_nat (f * 4096)" by (simp add: frame_addr_def)
  then show ?thesis using \<open>f < 32768\<close> by (simp add: unat_of_nat_small del: of_nat_mult)
qed

lemma frame_addr_eq_0: "f < 32768 \<Longrightarrow> frame_addr f = 0 \<longleftrightarrow> f = 0"
  using unat_frame_addr [of f] by (auto simp: unat_eq_zero frame_addr_def)

lemma frame_addr_inj: "f < 32768 \<Longrightarrow> g < 32768 \<Longrightarrow> frame_addr f = frame_addr g \<longleftrightarrow> f = g"
  by (metis mult_cancel_right unat_frame_addr zero_neq_numeral)

lemma Min_free_eq:
  assumes "f \<in> free_frames s" "\<And>g. g < f \<Longrightarrow> frame_used s g"
  shows "Min (free_frames s) = f"
  using assms by (intro Min_eqI) (auto simp: free_frames_def not_less [symmetric])

lemma all_used_upto:
  "(\<forall>f<Suc n. frame_used s f) \<longleftrightarrow> (\<forall>f<n. frame_used s f) \<and> frame_used s n"
  by (auto simp: less_Suc_eq)

lemma pmm_scan_bits_eq:
  assumes "pmm_wf s" "unat i < 4096" "unat b \<le> 8" "\<forall>f < 8 * unat i + unat b. frame_used s f"
  shows "pmm_scan_bits i b s =
     (if \<forall>f < 8 * unat i + 8. frame_used s f then None
      else Some (frame_addr (Min (free_frames s)), take_frame (Min (free_frames s)) s))"
  using assms
proof (induction i b s rule: pmm_scan_bits.induct)
  case (1 i b s)
  show ?case
  proof (cases "b < 8")
    case True
    then have b: "unat b < 8" by (simp add: word_less_nat_alt)
    let ?frame = "i * 8 + ucast b :: u32"
    have frame: "unat ?frame = 8 * unat i + unat b"
      using b "1.prems"(2) by (simp add: unat_word_ariths unat_ucast_up)
    then have lt: "unat ?frame < 32768" using b "1.prems"(2) by simp
    then have nlt: "\<not> ?frame \<ge> 32768" by (simp add: word_le_nat_alt)
    have fr: "?frame = of_nat (8 * unat i + unat b)"
      by (simp only: frame [symmetric]) simp
    have cast: "ucast (of_nat (8 * unat i + unat b) :: u32) = (of_nat (8 * unat i + unat b) :: u64)"
      using frame lt by (intro ucast_of_nat_small) simp
    show ?thesis
    proof (cases "frame_used s (unat ?frame)")
      case used: True
      have b1: "unat (b + 1) = Suc (unat b)" using b by (simp add: unat_inc)
      have "\<forall>f < 8 * unat i + unat (b + 1). frame_used s f"
        using "1.prems"(4) used unfolding frame b1 by (simp add: all_used_upto)
      moreover have "pmm_scan_bits i b s = pmm_scan_bits i (b + 1) s"
        using True nlt used by (subst pmm_scan_bits.simps) (simp add: bitmap_test_iff)
      ultimately show ?thesis
        using "1.IH" [OF True refl nlt] used "1.prems"(1,2) b b1
        by (simp add: bitmap_test_iff)
    next
      case unused: False
      have min: "Min (free_frames s) = 8 * unat i + unat b"
        using unused lt "1.prems"(4) unfolding frame
        by (intro Min_free_eq) (auto simp: free_frames_def)
      have "pmm_scan_bits i b s = Some (frame_addr (8 * unat i + unat b), take_frame (8 * unat i + unat b) s)"
        using True nlt unused cast
        by (subst pmm_scan_bits.simps)
           (simp only: bitmap_test_iff Let_def take_frame_def frame_addr_def if_True if_False
              not_False_eq_True fr bitmap_upd_counters)
      moreover have "\<not> (\<forall>f < 8 * unat i + 8. frame_used s f)"
        using unused b unfolding frame by (auto intro!: exI [of _ "8 * unat i + unat b"])
      ultimately show ?thesis by (simp only: min if_False)
    qed
  next
    case False
    then have "unat b = 8" using "1.prems"(3) by (simp add: word_less_nat_alt)
    with False "1.prems"(4) show ?thesis by (subst pmm_scan_bits.simps) simp
  qed
qed

lemma byte_full: "w = 0xFF \<longleftrightarrow> (\<forall>b<8. bit w b)" for w :: u8
proof
  assume "\<forall>b<8. bit w b"
  then have "w = -1" by (intro bit_word_eqI) simp
  then show "w = 0xFF" by simp
next
  assume "w = 0xFF"
  then have "w = -1" by simp
  then show "\<forall>b<8. bit w b" by (simp only: bit_minus_1_iff) simp
qed

lemma byte_full_frames: "bitmap s ! i = 0xFF \<longleftrightarrow> (\<forall>f. 8 * i \<le> f \<and> f < 8 * i + 8 \<longrightarrow> frame_used s f)"
proof -
  have "f div 8 = i" if "8 * i \<le> f" "f < 8 * i + 8" for f using that by simp
  moreover have "8 * i \<le> 8 * i + b \<and> 8 * i + b < 8 * i + 8 \<and> (8 * i + b) div 8 = i \<and> (8 * i + b) mod 8 = b"
    if "b < 8" for b using that by simp
  ultimately show ?thesis unfolding byte_full frame_used_def
    by (metis mod_less_divisor zero_less_numeral)
qed

lemma pmm_scan_eq:
  assumes "pmm_wf s" "unat i \<le> 4096" "\<forall>f < 8 * unat i. frame_used s f"
  shows "pmm_scan i s =
     (if free_frames s = {} then (0, s)
      else (frame_addr (Min (free_frames s)), take_frame (Min (free_frames s)) s))"
  using assms
proof (induction i s rule: pmm_scan.induct)
  case (1 i s)
  show ?case
  proof (cases "i < 32768 div 8")
    case True
    then have i: "unat i < 4096" by (simp add: word_less_nat_alt)
    then have i1: "unat (i + 1) = Suc (unat i)" by (simp add: unat_inc)
    show ?thesis
    proof (cases "\<forall>f < 8 * unat i + 8. frame_used s f")
      case full: True
      then have "\<forall>f < 8 * unat (i + 1). frame_used s f" by (simp add: i1)
      moreover have "bitmap s ! unat i = 0xFF" using full by (simp add: byte_full_frames)
      ultimately show ?thesis
        using "1.IH"(1) [OF True] "1.prems"(1) True i i1 by (subst pmm_scan.simps) simp
    next
      case False
      have "bitmap s ! unat i \<noteq> 0xFF"
        using False "1.prems"(3) unfolding byte_full_frames by (meson not_less)
      moreover have "pmm_scan_bits i 0 s =
          Some (frame_addr (Min (free_frames s)), take_frame (Min (free_frames s)) s)"
        using False "1.prems" i by (subst pmm_scan_bits_eq) auto
      moreover obtain f where "f < 8 * unat i + 8" "\<not> frame_used s f" using False by blast
      then have "f \<in> free_frames s" using i by (simp add: free_frames_def)
      then have "free_frames s \<noteq> {}" by blast
      ultimately show ?thesis using True by (subst pmm_scan.simps) simp
    qed
  next
    case False
    then have "unat i = 4096" using "1.prems"(2) by (simp add: word_less_nat_alt)
    with "1.prems"(3) have "free_frames s = {}" by (auto simp: free_frames_def)
    with False show ?thesis by (subst pmm_scan.simps) simp
  qed
qed

lemma pmm_alloc_frame_eq:
  "pmm_wf s \<Longrightarrow> pmm_alloc_frame s =
     (if free_frames s = {} then (0, s)
      else (frame_addr (Min (free_frames s)), take_frame (Min (free_frames s)) s))"
  unfolding pmm_alloc_frame_def by (rule pmm_scan_eq) auto

lemma free_frames_take:
  "pmm_wf s \<Longrightarrow> f < 32768 \<Longrightarrow> free_frames (take_frame f s) = free_frames s - {f}"
  by (simp add: take_frame_def free_frames_set unat_of_nat_small)

lemma frame_used_take:
  "pmm_wf s \<Longrightarrow> f < 32768 \<Longrightarrow> frame_used (take_frame f s) g \<longleftrightarrow> g = f \<or> frame_used s g"
  by (simp add: take_frame_def frame_used_set unat_of_nat_small)

lemma pmm_wf_take [simp]: "pmm_wf (take_frame f s) = pmm_wf s"
  by (simp add: take_frame_def)

lemma pmm_inv_take:
  assumes "pmm_inv s" "f \<in> free_frames s"
  shows "pmm_inv (take_frame f s)"
proof -
  have f: "f < 32768" using assms(2) by (rule free_frames_bound)
  have wf: "pmm_wf s" and sum: "unat (used_frames s) + card (free_frames s) = 32768"
    using assms(1) by (simp_all add: pmm_inv_def)
  have c: "card (free_frames s) = Suc (card (free_frames s - {f}))"
    by (rule card.remove [OF finite_free_frames assms(2)])
  have "unat (used_frames s) < 32768" using sum c by linarith
  then have "unat (used_frames (take_frame f s)) = Suc (unat (used_frames s))"
    by (simp add: unat_inc take_frame_def)
  then have "unat (used_frames (take_frame f s)) + card (free_frames (take_frame f s)) = 32768"
    unfolding free_frames_take [OF wf f] using sum c by linarith
  then show ?thesis
    using assms(1) f by (simp add: pmm_inv_def frame_used_take)
qed

lemma pmm_wf_drop [simp]: "pmm_wf (drop_frame f s) = pmm_wf s"
  by (simp add: drop_frame_def)

lemma free_frames_drop:
  "pmm_wf s \<Longrightarrow> f < 32768 \<Longrightarrow> free_frames (drop_frame f s) = insert f (free_frames s)"
  by (simp add: drop_frame_def free_frames_clear unat_of_nat_small)

lemma frame_used_drop:
  "pmm_wf s \<Longrightarrow> f < 32768 \<Longrightarrow> frame_used (drop_frame f s) g \<longleftrightarrow> g \<noteq> f \<and> frame_used s g"
  by (simp add: drop_frame_def frame_used_clear unat_of_nat_small)

lemma pmm_inv_drop:
  assumes "pmm_inv s" "f < 32768" "f \<noteq> 0" "f \<notin> free_frames s"
  shows "pmm_inv (drop_frame f s)"
proof -
  have wf: "pmm_wf s" and sum: "unat (used_frames s) + card (free_frames s) = 32768"
    using assms(1) by (simp_all add: pmm_inv_def)
  have c: "card (insert f (free_frames s)) = Suc (card (free_frames s))"
    using assms(4) by simp
  have "card (insert f (free_frames s)) \<le> card {0..<32768 :: nat}"
    by (intro card_mono) (auto simp: free_frames_def assms(2))
  then have pos: "unat (used_frames s) \<noteq> 0" using sum c by simp
  then have "used_frames s \<noteq> 0" by auto
  then have "unat (used_frames (drop_frame f s)) = unat (used_frames s) - 1"
    by (simp add: drop_frame_def unat_minus_one)
  then have "unat (used_frames (drop_frame f s)) + card (free_frames (drop_frame f s)) = 32768"
    unfolding free_frames_drop [OF wf assms(2)] using sum c pos by linarith
  then show ?thesis
    using assms by (simp add: pmm_inv_def frame_used_drop)
qed

lemma pmm_free_frame_eq:
  assumes "unat addr div 4096 < 32768"
  shows "pmm_free_frame addr s =
     (if frame_used s (unat addr div 4096) then drop_frame (unat addr div 4096) s else s)"
proof -
  let ?f = "ucast (addr div 4096) :: u32"
  have u: "unat ?f = unat addr div 4096"
    using assms by (simp add: unat_ucast unat_div_distrib)
  have "?f = of_nat (unat ?f)" by simp
  then have f: "?f = of_nat (unat addr div 4096)" by (simp only: u)
  have "\<not> ?f \<ge> 32768" using assms u by (simp add: word_le_nat_alt)
  then show ?thesis
    using u unfolding pmm_free_frame_def Let_def bitmap_test_iff drop_frame_def f by simp
qed

lemma drop_take_frame:
  assumes "pmm_wf s" "f < 32768" "\<not> frame_used s f"
  shows "drop_frame f (take_frame f s) = s"
proof -
  let ?i = "f div 8"
  let ?w = "push_bit (f mod 8) 1 :: u8"
  have i: "unat ((of_nat f :: u32) div 8) = ?i" and b: "unat ((of_nat f :: u32) mod 8) = f mod 8"
    using assms(2) by (simp_all add: unat_div_8 unat_mod_8 unat_of_nat_small)
  have len: "?i < length (bitmap s)" using assms by (simp add: pmm_wf_def)
  have "(bitmap s ! ?i OR ?w) AND NOT ?w = bitmap s ! ?i"
    using assms(3) by (intro bit_eqI) (auto simp: bit_simps frame_used_def)
  then have "(bitmap s)[?i := (bitmap s ! ?i OR ?w) AND NOT ?w] = bitmap s" by simp
  then show ?thesis
    using len by (simp add: drop_frame_def take_frame_def bitmap_set_def bitmap_clear_def Let_def i b)
qed


section \<open>The interface of the allocator\<close>

text \<open>
  What the page tables, the heap and the program loader rely on. \<open>avail\<close> is the
  abstract state; an allocation takes some frame out of it, and a release puts a frame
  back.
\<close>

fun alloc_many :: "('s \<Rightarrow> u64 \<times> 's) \<Rightarrow> nat \<Rightarrow> 's \<Rightarrow> u64 list \<times> 's" where
  "alloc_many alloc 0 s = ([], s)"
| "alloc_many alloc (Suc n) s =
     (let (a, s') = alloc s; (as, s'') = alloc_many alloc n s' in (a # as, s''))"

locale frame_allocator =
  fixes alloc :: "'s \<Rightarrow> u64 \<times> 's"
    and release :: "u64 \<Rightarrow> 's \<Rightarrow> 's"
    and avail :: "'s \<Rightarrow> nat set"
    and inv :: "'s \<Rightarrow> bool"
  assumes avail_range: "inv s \<Longrightarrow> avail s \<subseteq> {1..<32768}"
    and alloc_none: "inv s \<Longrightarrow> avail s = {} \<Longrightarrow> alloc s = (0, s)"
    and alloc_some: "inv s \<Longrightarrow> avail s \<noteq> {} \<Longrightarrow> alloc s = (a, s') \<Longrightarrow>
      \<exists>f\<in>avail s. a = frame_addr f \<and> avail s' = avail s - {f} \<and> inv s'"
    and release_law: "inv s \<Longrightarrow> f \<in> {1..<32768} \<Longrightarrow> f \<notin> avail s \<Longrightarrow>
      inv (release (frame_addr f) s) \<and> avail (release (frame_addr f) s) = insert f (avail s)"
begin

lemma avail_finite: "inv s \<Longrightarrow> finite (avail s)"
  using avail_range finite_subset by blast

lemma alloc_cases:
  assumes "inv s" "alloc s = (a, s')"
  obtains "a = 0" "s' = s" "avail s = {}"
  | f where "f \<in> avail s" "a = frame_addr f" "a \<noteq> 0" "f < 32768" "avail s' = avail s - {f}" "inv s'"
proof (cases "avail s = {}")
  case True
  with alloc_none [OF assms(1)] assms(2) have "a = 0" "s' = s" by simp_all
  from that(1) [OF this True] show ?thesis .
next
  case False
  from alloc_some [OF assms(1) False assms(2)] obtain f where
    f: "f \<in> avail s" "a = frame_addr f" "avail s' = avail s - {f}" "inv s'" by blast
  with avail_range [OF assms(1)] have "0 < f" "f < 32768" by auto
  then have "a \<noteq> 0" unfolding f(2) by (simp add: frame_addr_eq_0)
  from that(2) [OF f(1,2) this \<open>f < 32768\<close> f(3,4)] show ?thesis .
qed

lemma alloc_facts:
  assumes "inv s"
  shows alloc_zero_iff: "fst (alloc s) = 0 \<longleftrightarrow> avail s = {}"
    and inv_alloc: "inv (snd (alloc s))"
    and avail_alloc_subset: "avail (snd (alloc s)) \<subseteq> avail s"
proof -
  obtain a s' where a: "alloc s = (a, s')" by (cases "alloc s")
  from assms a have "(a = 0 \<longleftrightarrow> avail s = {}) \<and> inv s' \<and> avail s' \<subseteq> avail s"
  proof (cases rule: alloc_cases)
    case 1
    with assms show ?thesis by simp
  next
    case (2 f)
    then have "avail s \<noteq> {}" "avail s' \<subseteq> avail s" by blast+
    with 2(3,6) show ?thesis by simp
  qed
  then show "fst (alloc s) = 0 \<longleftrightarrow> avail s = {}" "inv (snd (alloc s))"
    "avail (snd (alloc s)) \<subseteq> avail s" using a by simp_all
qed

lemma alloc_many_ok:
  assumes "inv s" "n \<le> card (avail s)" "alloc_many alloc n s = (as, s')"
  shows "\<exists>fs. as = map frame_addr fs \<and> length fs = n \<and> distinct fs \<and> set fs \<subseteq> avail s \<and>
    avail s' = avail s - set fs \<and> inv s'"
  using assms
proof (induction n arbitrary: s as)
  case 0
  then show ?case by simp
next
  case (Suc n)
  obtain a t where a: "alloc s = (a, t)" by (cases "alloc s")
  obtain bs where bs: "alloc_many alloc n t = (bs, s')" "as = a # bs"
    using Suc.prems(3) a by (auto split: prod.splits)
  from Suc.prems(1) a show ?case
  proof (cases rule: alloc_cases)
    case 1
    with Suc.prems(2) show ?thesis by simp
  next
    case (2 f)
    have "n \<le> card (avail t)"
      using Suc.prems 2 by (simp add: card_Diff_singleton)
    from Suc.IH [OF 2(6) this bs(1)] obtain fs where
      "bs = map frame_addr fs" "length fs = n" "distinct fs" "set fs \<subseteq> avail t"
      "avail s' = avail t - set fs" "inv s'" by blast
    with 2 bs(2) show ?thesis by (intro exI [of _ "f # fs"]) auto
  qed
qed

end

interpretation pmm: frame_allocator pmm_alloc_frame pmm_free_frame free_frames pmm_inv
proof unfold_locales
  fix s :: "'a pmm_state_scheme"
  assume inv: "pmm_inv s"
  then have wf: "pmm_wf s" and used0: "frame_used s 0" by (simp_all add: pmm_inv_def)
  show "free_frames s \<subseteq> {1..<32768}"
    using used0 by (auto simp: free_frames_def Suc_le_eq intro: gr0I)
  show "free_frames s = {} \<Longrightarrow> pmm_alloc_frame s = (0, s)"
    using wf by (simp add: pmm_alloc_frame_eq)
  show "\<exists>f\<in>free_frames s. a = frame_addr f \<and> free_frames s' = free_frames s - {f} \<and> pmm_inv s'"
    if "free_frames s \<noteq> {}" "pmm_alloc_frame s = (a, s')" for a s'
  proof (intro bexI [of _ "Min (free_frames s)"] conjI)
    show min: "Min (free_frames s) \<in> free_frames s" using that(1) by simp
    have s': "s' = take_frame (Min (free_frames s)) s"
      using that wf by (simp add: pmm_alloc_frame_eq)
    show "free_frames s' = free_frames s - {Min (free_frames s)}"
      unfolding s' by (rule free_frames_take [OF wf free_frames_bound [OF min]])
    show "pmm_inv s'" unfolding s' by (rule pmm_inv_take [OF inv min])
    show "a = frame_addr (Min (free_frames s))"
      using that wf by (simp add: pmm_alloc_frame_eq)
  qed
  show "pmm_inv (pmm_free_frame (frame_addr f) s) \<and>
      free_frames (pmm_free_frame (frame_addr f) s) = insert f (free_frames s)"
    if "f \<in> {1..<32768}" "f \<notin> free_frames s" for f
  proof -
    have "frame_used s f" using that by (simp add: free_frames_def)
    then have "pmm_free_frame (frame_addr f) s = drop_frame f s"
      using that(1) by (subst pmm_free_frame_eq) (simp_all add: unat_frame_addr)
    then show ?thesis
      using inv that wf by (simp add: pmm_inv_drop free_frames_drop)
  qed
qed


section \<open>Initialisation\<close>

text \<open>
  The frames that lie wholly inside an available region, and the frames that touch the
  kernel image.
\<close>

definition region_frames :: "mmap_region \<Rightarrow> nat set" where
  "region_frames r = {f. f < 32768 \<and> region_type r = 1 \<and>
     unat (region_base r) \<le> f * 4096 \<and> f * 4096 + 4096 \<le> unat (region_base r) + unat (region_length r)}"

definition kernel_frames :: "u64 \<Rightarrow> u64 \<Rightarrow> nat set" where
  "kernel_frames k_start k_end =
     {f. f < 32768 \<and> unat k_start < f * 4096 + 4096 \<and> f * 4096 < unat k_end}"

text \<open>No region reaches \<open>2 ^ 44\<close>, where a frame number no longer fits \<open>uint32_t\<close>.\<close>

definition region_ok :: "mmap_region \<Rightarrow> bool" where
  "region_ok r \<longleftrightarrow> unat (region_base r) + unat (region_length r) + 4096 \<le> 2 ^ 44"

lemma clear_range:
  fixes s :: "'a pmm_state_scheme" and a b :: u32
  defines "body \<equiv> \<lambda>f (s :: 'a pmm_state_scheme). let s = bitmap_clear f s
     in s\<lparr>total_frames := total_frames s + 1, used_frames := used_frames s - 1\<rparr>"
  defines "t \<equiv> word_for a b body s"
  assumes "pmm_wf s" "unat b \<le> 32768" "unat a \<le> unat b"
  shows "pmm_wf t \<and> (\<forall>g. frame_used t g \<longleftrightarrow> frame_used s g \<and> g \<notin> {unat a..<unat b}) \<and>
     total_frames t = total_frames s + of_nat (unat b - unat a) \<and>
     used_frames t = used_frames s - of_nat (unat b - unat a)"
  unfolding t_def
proof (rule word_for_invariant [where P = "\<lambda>k t. pmm_wf t \<and>
     (\<forall>g. frame_used t g \<longleftrightarrow> frame_used s g \<and> g \<notin> {unat a..<k}) \<and>
     total_frames t = total_frames s + of_nat (k - unat a) \<and>
     used_frames t = used_frames s - of_nat (k - unat a)"])
  show "unat a \<le> unat b" by fact
  fix k and t :: "'a pmm_state_scheme"
  assume k: "unat a \<le> k" "k < unat b" and
    IH: "pmm_wf t \<and> (\<forall>g. frame_used t g \<longleftrightarrow> frame_used s g \<and> g \<notin> {unat a..<k}) \<and>
     total_frames t = total_frames s + of_nat (k - unat a) \<and>
     used_frames t = used_frames s - of_nat (k - unat a)"
  have uk: "unat (of_nat k :: u32) = k" "k < 32768" using k assms by (simp_all add: unat_of_nat_small)
  have "frame_used (body (of_nat k) t) g \<longleftrightarrow> g \<noteq> k \<and> frame_used t g" for g
    using IH uk by (simp add: body_def Let_def frame_used_clear)
  then show "pmm_wf (body (of_nat k) t) \<and>
     (\<forall>g. frame_used (body (of_nat k) t) g \<longleftrightarrow> frame_used s g \<and> g \<notin> {unat a..<Suc k}) \<and>
     total_frames (body (of_nat k) t) = total_frames s + of_nat (Suc k - unat a) \<and>
     used_frames (body (of_nat k) t) = used_frames s - of_nat (Suc k - unat a)"
    using IH k by (auto simp: body_def Let_def Suc_diff_le less_Suc_eq algebra_simps)
qed (use assms in auto)

lemma mark_range:
  fixes s :: "'a pmm_state_scheme" and a b :: u32
  defines "t \<equiv> word_for a b pmm_mark_used s"
  assumes "pmm_wf s" "unat b \<le> 32768" "unat a \<le> unat b"
  shows "pmm_wf t \<and> (\<forall>g. frame_used t g \<longleftrightarrow> frame_used s g \<or> g \<in> {unat a..<unat b}) \<and>
     total_frames t = total_frames s \<and>
     used_frames t + of_nat (card (free_frames t)) = used_frames s + of_nat (card (free_frames s))"
  unfolding t_def
proof (rule word_for_invariant [where P = "\<lambda>k t. pmm_wf t \<and>
     (\<forall>g. frame_used t g \<longleftrightarrow> frame_used s g \<or> g \<in> {unat a..<k}) \<and> total_frames t = total_frames s \<and>
     used_frames t + of_nat (card (free_frames t)) = used_frames s + of_nat (card (free_frames s))"])
  show "unat a \<le> unat b" by fact
  fix k and t :: "'a pmm_state_scheme"
  assume k: "unat a \<le> k" "k < unat b" and
    IH: "pmm_wf t \<and> (\<forall>g. frame_used t g \<longleftrightarrow> frame_used s g \<or> g \<in> {unat a..<k}) \<and>
     total_frames t = total_frames s \<and>
     used_frames t + of_nat (card (free_frames t)) = used_frames s + of_nat (card (free_frames s))"
  have uk: "unat (of_nat k :: u32) = k" "k < 32768" using k assms by (simp_all add: unat_of_nat_small)
  let ?u = "pmm_mark_used (of_nat k) t"
  have ff: "frame_used ?u g \<longleftrightarrow> g = k \<or> frame_used t g" for g
    using IH uk by (auto simp: pmm_mark_used_def Let_def frame_used_set bitmap_test_iff)
  have "used_frames ?u + of_nat (card (free_frames ?u)) = used_frames t + of_nat (card (free_frames t))"
  proof (cases "frame_used t k")
    case True
    then show ?thesis by (simp add: pmm_mark_used_def bitmap_test_iff uk)
  next
    case False
    then have "card (free_frames t) = Suc (card (free_frames t - {k}))"
      using uk by (intro card.remove) (auto simp: free_frames_def)
    with False IH uk show ?thesis
      by (simp add: pmm_mark_used_def bitmap_test_iff Let_def free_frames_set add.assoc)
  qed
  moreover have "pmm_wf ?u" "total_frames ?u = total_frames t"
    using IH by (simp_all add: pmm_mark_used_def Let_def)
  ultimately show "pmm_wf ?u \<and>
     (\<forall>g. frame_used ?u g \<longleftrightarrow> frame_used s g \<or> g \<in> {unat a..<Suc k}) \<and> total_frames ?u = total_frames s \<and>
     used_frames ?u + of_nat (card (free_frames ?u)) = used_frames s + of_nat (card (free_frames s))"
    using IH k by (auto simp: ff less_Suc_eq)
qed (use assms in auto)

lemma ceil_div_le: "(b + 4095) div 4096 \<le> f \<longleftrightarrow> b \<le> f * 4096" for b f :: nat
  by auto

lemma floor_div_less: "f < e div 4096 \<longleftrightarrow> f * 4096 + 4096 \<le> e" for e f :: nat
  by auto

lemma region_frames_range:
  "region_frames r = (if region_type r = 1
     then {(unat (region_base r) + 4095) div 4096 ..<
           min 32768 ((unat (region_base r) + unat (region_length r)) div 4096)} else {})"
  by (auto simp: region_frames_def ceil_div_le floor_div_less)

lemma pmm_add_region_eq:
  assumes "pmm_wf s" "region_ok r"
  defines "t \<equiv> pmm_add_region r s"
  shows "pmm_wf t \<and> (\<forall>g. frame_used t g \<longleftrightarrow> frame_used s g \<and> g \<notin> region_frames r) \<and>
     total_frames t = total_frames s + of_nat (card (region_frames r)) \<and>
     used_frames t = used_frames s - of_nat (card (region_frames r))"
proof (cases "region_type r = 1")
  case False
  then show ?thesis using assms by (simp add: pmm_add_region_def region_frames_range)
next
  case True
  let ?b = "unat (region_base r)" and ?e = "unat (region_base r) + unat (region_length r)"
  let ?fs = "ucast ((region_base r + 4096 - 1) div 4096) :: u32"
  let ?fe = "ucast ((region_base r + region_length r) div 4096) :: u32"
  let ?fe' = "if ?fe > 32768 then 32768 else ?fe"
  have ok: "?e + 4096 \<le> 2 ^ 44" using assms(2) by (simp add: region_ok_def)
  have "unat (region_base r + 4096 - 1) = ?b + 4095"
    using ok by (simp add: unat_word_ariths)
  moreover have "(?b + 4095) div 4096 < 2 ^ 32" using ok by (simp add: less_mult_imp_div_less)
  ultimately have fs: "unat ?fs = (?b + 4095) div 4096"
    by (simp add: unat_ucast unat_div_distrib)
  have "unat (region_base r + region_length r) = ?e"
    using ok by (simp add: unat_add_small)
  moreover have "?e div 4096 < 2 ^ 32" using ok by (simp add: less_mult_imp_div_less)
  ultimately have "unat ?fe = ?e div 4096"
    by (simp add: unat_ucast unat_div_distrib)
  then have fe: "unat ?fe' = min 32768 (?e div 4096)"
    by (auto simp: word_less_nat_alt min_def)
  have rf: "region_frames r = {unat ?fs..<unat ?fe'}"
    using True unfolding region_frames_range fs fe by simp
  have t: "t = word_for ?fs ?fe' (\<lambda>f s. let s = bitmap_clear f s
     in s\<lparr>total_frames := total_frames s + 1, used_frames := used_frames s - 1\<rparr>) s"
    using True by (simp add: t_def pmm_add_region_def Let_def)
  show ?thesis
  proof (cases "unat ?fs \<le> unat ?fe'")
    case le: True
    have "unat ?fe' \<le> 32768" unfolding fe by simp
    from clear_range [OF assms(1) this le] show ?thesis
      unfolding t rf by simp
  next
    case False
    then have "\<not> ?fs < ?fe'" by (simp add: word_less_nat_alt)
    with False assms(1) show ?thesis unfolding t rf by simp
  qed
qed

lemma pmm_add_regions_eq:
  fixes s :: "'a pmm_state_scheme" and count :: u32 and rs :: "mmap_region list"
  defines "t \<equiv> word_for 0 count (\<lambda>i. pmm_add_region (rs ! unat i)) s"
  assumes "pmm_wf s" "\<And>i. i < unat count \<Longrightarrow> region_ok (rs ! i)"
  shows "pmm_wf t \<and> (\<forall>g. frame_used t g \<longleftrightarrow> frame_used s g \<and> g \<notin> (\<Union>i<unat count. region_frames (rs ! i))) \<and>
     total_frames t = total_frames s + of_nat (\<Sum>i<unat count. card (region_frames (rs ! i))) \<and>
     used_frames t = used_frames s - of_nat (\<Sum>i<unat count. card (region_frames (rs ! i)))"
  unfolding t_def
proof (rule word_for_invariant [where P = "\<lambda>k t. pmm_wf t \<and>
     (\<forall>g. frame_used t g \<longleftrightarrow> frame_used s g \<and> g \<notin> (\<Union>i<k. region_frames (rs ! i))) \<and>
     total_frames t = total_frames s + of_nat (\<Sum>i<k. card (region_frames (rs ! i))) \<and>
     used_frames t = used_frames s - of_nat (\<Sum>i<k. card (region_frames (rs ! i)))"])
  fix k and t :: "'a pmm_state_scheme"
  assume k: "k < unat count" and
    IH: "pmm_wf t \<and>
     (\<forall>g. frame_used t g \<longleftrightarrow> frame_used s g \<and> g \<notin> (\<Union>i<k. region_frames (rs ! i))) \<and>
     total_frames t = total_frames s + of_nat (\<Sum>i<k. card (region_frames (rs ! i))) \<and>
     used_frames t = used_frames s - of_nat (\<Sum>i<k. card (region_frames (rs ! i)))"
  have "unat (of_nat k :: u32) = k"
    using k unat_lt2p [of count] by (intro unat_of_nat_small) simp
  then show "pmm_wf (pmm_add_region (rs ! unat (of_nat k :: u32)) t) \<and>
     (\<forall>g. frame_used (pmm_add_region (rs ! unat (of_nat k :: u32)) t) g \<longleftrightarrow>
        frame_used s g \<and> g \<notin> (\<Union>i<Suc k. region_frames (rs ! i))) \<and>
     total_frames (pmm_add_region (rs ! unat (of_nat k :: u32)) t) =
        total_frames s + of_nat (\<Sum>i<Suc k. card (region_frames (rs ! i))) \<and>
     used_frames (pmm_add_region (rs ! unat (of_nat k :: u32)) t) =
        used_frames s - of_nat (\<Sum>i<Suc k. card (region_frames (rs ! i)))"
    using pmm_add_region_eq [of t "rs ! k"] IH assms(3) [OF k]
    by (auto simp: less_Suc_eq algebra_simps)
qed (use assms in auto)

lemma fill_bitmap:
  fixes s :: "'a pmm_state_scheme"
  assumes "pmm_wf s"
  shows "(word_for 0 (PMM_MAX_FRAMES div 8) (\<lambda>i s. s\<lparr>bitmap := (bitmap s)[unat i := 0xFF]\<rparr>) s) =
     s\<lparr>bitmap := replicate 4096 0xFF\<rparr>"
proof -
  let ?body = "\<lambda>(i :: u32) (s :: 'a pmm_state_scheme). s\<lparr>bitmap := (bitmap s)[unat i := 0xFF]\<rparr>"
  have "\<exists>xs. word_for 0 4096 ?body s = s\<lparr>bitmap := xs\<rparr> \<and> length xs = 4096 \<and>
      (\<forall>j<unat (4096 :: u32). xs ! j = 0xFF)"
  proof (rule word_for_invariant [where P = "\<lambda>k t. \<exists>xs. t = s\<lparr>bitmap := xs\<rparr> \<and> length xs = 4096 \<and>
      (\<forall>j<k. xs ! j = 0xFF)"])
    show "\<exists>xs. s = s\<lparr>bitmap := xs\<rparr> \<and> length xs = 4096 \<and> (\<forall>j<unat (0 :: u32). xs ! j = 0xFF)"
      using assms by (intro exI [of _ "bitmap s"]) (simp add: pmm_wf_def)
  next
    fix k and t :: "'a pmm_state_scheme"
    assume "k < unat (4096 :: u32)" "\<exists>xs. t = s\<lparr>bitmap := xs\<rparr> \<and> length xs = 4096 \<and> (\<forall>j<k. xs ! j = 0xFF)"
    then obtain xs where "k < 4096" "t = s\<lparr>bitmap := xs\<rparr>" "length xs = 4096" "\<forall>j<k. xs ! j = 0xFF"
      by auto
    then show "\<exists>xs. ?body (of_nat k) t = s\<lparr>bitmap := xs\<rparr> \<and> length xs = 4096 \<and> (\<forall>j<Suc k. xs ! j = 0xFF)"
      by (intro exI [of _ "xs[k := 0xFF]"]) (auto simp: unat_of_nat_small nth_list_update less_Suc_eq)
  qed simp
  then obtain xs where "word_for 0 4096 ?body s = s\<lparr>bitmap := xs\<rparr>" "length xs = 4096"
    "\<forall>j<4096. xs ! j = 0xFF" by auto
  moreover from this(2,3) have "xs = replicate 4096 0xFF"
    by (intro nth_equalityI) auto
  ultimately show ?thesis by simp
qed

lemma frame_used_filled:
  assumes "f < 32768"
  shows "frame_used (s\<lparr>bitmap := replicate 4096 0xFF\<rparr>) f"
proof -
  have "f div 8 < 4096" using assms by simp
  moreover have "bit (0xFF :: u8) (f mod 8)"
    using byte_full [of "0xFF"] by simp
  ultimately show ?thesis by (simp add: frame_used_def)
qed

lemma kernel_frames_range:
  "kernel_frames k_start k_end = {unat k_start div 4096 ..< min 32768 ((unat k_end + 4095) div 4096)}"
proof -
  have 1: "f < (e + 4095) div 4096 \<longleftrightarrow> f * 4096 < e" for e f :: nat by auto
  have 2: "a div 4096 \<le> f \<longleftrightarrow> a < f * 4096 + 4096" for a f :: nat by auto
  show ?thesis by (auto simp: kernel_frames_def 1 2)
qed

lemma free_frames_less:
  assumes "\<And>g. frame_used t g \<longleftrightarrow> frame_used s g \<or> g \<in> A"
  shows "free_frames t = free_frames s - A"
  unfolding free_frames_def assms by blast

lemma mark_range_any:
  fixes s :: "'a pmm_state_scheme" and a b :: u32
  assumes "pmm_wf s" "unat b \<le> 32768"
  shows "pmm_wf (word_for a b pmm_mark_used s)"
    "free_frames (word_for a b pmm_mark_used s) = free_frames s - {unat a..<unat b}"
    "total_frames (word_for a b pmm_mark_used s) = total_frames s"
    "used_frames (word_for a b pmm_mark_used s) + of_nat (card (free_frames s - {unat a..<unat b})) =
       used_frames s + of_nat (card (free_frames s))"
proof -
  let ?t = "word_for a b pmm_mark_used s"
  have *: "pmm_wf ?t \<and> (\<forall>g. frame_used ?t g \<longleftrightarrow> frame_used s g \<or> g \<in> {unat a..<unat b}) \<and>
     total_frames ?t = total_frames s \<and>
     used_frames ?t + of_nat (card (free_frames ?t)) = used_frames s + of_nat (card (free_frames s))"
  proof (cases "unat a \<le> unat b")
    case True
    from mark_range [OF assms this] show ?thesis .
  next
    case False
    then have "\<not> a < b" by (simp add: word_less_nat_alt)
    then have t: "?t = s" by (rule word_for_done)
    have "{unat a..<unat b} = {}" using False by simp
    then show ?thesis unfolding t using assms(1) by blast
  qed
  note c = conjunct1 [OF *] conjunct1 [OF conjunct2 [OF *]] conjunct2 [OF conjunct2 [OF *]]
  show ff: "free_frames ?t = free_frames s - {unat a..<unat b}"
    by (rule free_frames_less) (rule c(2) [rule_format])
  show "pmm_wf ?t" by (rule c(1))
  show "total_frames ?t = total_frames s" by (rule conjunct1 [OF c(3)])
  show "used_frames ?t + of_nat (card (free_frames s - {unat a..<unat b})) =
       used_frames s + of_nat (card (free_frames s))"
    using conjunct2 [OF c(3)] by (simp only: ff)
qed

lemma print_pmm [simp]:
  "pmm_wf (serial_write str s) = pmm_wf s" "pmm_wf (serial_write_dec_u64 v s) = pmm_wf s"
  "pmm_wf (serial_write_hex_u64 v s) = pmm_wf s"
  "frame_used (serial_write str s) = frame_used s" "frame_used (serial_write_dec_u64 v s) = frame_used s"
  "frame_used (serial_write_hex_u64 v s) = frame_used s"
  "free_frames (serial_write str s) = free_frames s"
  "free_frames (serial_write_dec_u64 v s) = free_frames s"
  "free_frames (serial_write_hex_u64 v s) = free_frames s"
  "pmm_inv (serial_write str s) = pmm_inv s" "pmm_inv (serial_write_dec_u64 v s) = pmm_inv s"
  "pmm_inv (serial_write_hex_u64 v s) = pmm_inv s"
  by (simp_all add: print_eqs pmm_wf_def frame_used_def free_frames_def pmm_inv_def fun_eq_iff)

lemma print_counters [simp]:
  "total_frames (serial_write str s) = total_frames s"
  "total_frames (serial_write_dec_u64 v s) = total_frames s"
  "used_frames (serial_write str s) = used_frames s"
  "used_frames (serial_write_dec_u64 v s) = used_frames s"
  by (simp_all add: print_eqs)

lemma pmm_init_facts:
  fixes s :: "'a pmm_state_scheme"
  assumes wf: "pmm_wf s" and ok: "\<And>i. i < unat count \<Longrightarrow> region_ok (rs ! i)"
    and k: "unat k_start \<le> unat k_end" "unat k_end + 4096 \<le> 2 ^ 44"
  defines "t \<equiv> pmm_init k_start k_end rs count s"
    and "A \<equiv> (\<Union>i<unat count. region_frames (rs ! i))"
    and "n \<equiv> (\<Sum>i<unat count. card (region_frames (rs ! i)))"
  shows "pmm_wf t" "free_frames t = A - {..<256} - kernel_frames k_start k_end"
    "total_frames t = of_nat n"
    "used_frames t + of_nat (card (free_frames t)) = 32768 - of_nat n + of_nat (card A)"
proof -
  define s1 where "s1 = s\<lparr>bitmap := replicate 4096 0xFF, total_frames := 0, used_frames := 32768\<rparr>"
  define s2 where "s2 = word_for 0 count (\<lambda>i. pmm_add_region (rs ! unat i)) s1"
  define s3 where "s3 = word_for 0 256 pmm_mark_used s2"
  define ks where "ks = (ucast (k_start div 4096) :: u32)"
  define ke where "ke = (ucast ((k_end + 4096 - 1) div 4096) :: u32)"
  define ke' where "ke' = (if ke > 32768 then 32768 else ke)"
  define s4 where "s4 = word_for ks ke' pmm_mark_used s3"
  have wf1: "pmm_wf s1" by (simp add: s1_def pmm_wf_def)
  have 2: "pmm_wf s2" "\<And>g. frame_used s2 g \<longleftrightarrow> frame_used s1 g \<and> g \<notin> A"
    "total_frames s2 = of_nat n" "used_frames s2 = 32768 - of_nat n"
    using pmm_add_regions_eq [OF wf1 ok]
    by (simp_all add: s2_def A_def n_def s1_def)
  have "frame_used s1 g" if "g < 32768" for g
    using frame_used_filled [OF that] by (simp add: s1_def)
  then have free2: "free_frames s2 = A"
    by (auto simp: free_frames_def 2 A_def region_frames_def)
  have "unat ke = (unat k_end + 4095) div 4096"
  proof -
    have "unat (k_end + 4096 - 1) = unat k_end + 4095"
      using k by (simp add: unat_word_ariths)
    moreover have "(unat k_end + 4095) div 4096 < 2 ^ 32" using k by (simp add: less_mult_imp_div_less)
    ultimately show ?thesis unfolding ke_def by (simp add: unat_ucast unat_div_distrib)
  qed
  then have ke': "unat ke' = min 32768 ((unat k_end + 4095) div 4096)"
    by (auto simp: ke'_def word_less_nat_alt min_def)
  have ks: "unat ks = unat k_start div 4096"
  proof -
    have "unat k_start div 4096 < 2 ^ 32" using k by (simp add: less_mult_imp_div_less)
    then show ?thesis unfolding ks_def by (simp add: unat_ucast unat_div_distrib)
  qed
  have range: "{unat ks..<unat ke'} = kernel_frames k_start k_end"
    unfolding ks ke' kernel_frames_range ..
  have "unat (256 :: u32) \<le> 32768" by simp
  note 3 = mark_range_any [OF 2(1) this, of 0, folded s3_def]
  have "unat ke' \<le> 32768" unfolding ke' by simp
  note 4 = mark_range_any [OF 3(1) this, of ks, folded s4_def]
  have free4: "free_frames s4 = A - {..<256} - kernel_frames k_start k_end"
    unfolding 4(2) 3(2) free2 range by (auto simp: lessThan_atLeast0)
  have t: "pmm_wf t = pmm_wf s4" "free_frames t = free_frames s4" "total_frames t = total_frames s4"
    "used_frames t = used_frames s4"
    unfolding t_def pmm_init_def Let_def fill_bitmap [OF wf]
    by (simp_all add: s1_def s2_def s3_def s4_def ks_def ke_def ke'_def min_def cong: if_cong)
  show "pmm_wf t" unfolding t by (rule 4(1))
  show "free_frames t = A - {..<256} - kernel_frames k_start k_end" unfolding t by (rule free4)
  show "total_frames t = of_nat n" unfolding t 4(3) 3(3) 2(3) ..
  have "used_frames s4 + of_nat (card (free_frames s4)) = used_frames s2 + of_nat (card (free_frames s2))"
    using 3(4) 4(4) unfolding 3(2) 4(2) by simp
  then show "used_frames t + of_nat (card (free_frames t)) = 32768 - of_nat n + of_nat (card A)"
    unfolding t 2(4) free2 .
qed


lemma take_frame_frame [frame_simps]:
  "mem (take_frame f s) = mem s" "outs (take_frame f s) = outs s" "dev (take_frame f s) = dev s"
  "now (take_frame f s) = now s" "total_frames (take_frame f s) = total_frames s"
  by (simp_all add: take_frame_def bitmap_set_def Let_def)

lemma used_plus_free:
  assumes "u + of_nat n = (32768 :: u32)" "n \<le> 32768"
  shows "unat u + n = 32768"
proof -
  have "u = of_nat (32768 - n)" using assms by (simp add: of_nat_diff algebra_simps)
  moreover have "unat (of_nat (32768 - n) :: u32) = 32768 - n"
    by (rule unat_of_nat_small) simp
  ultimately show ?thesis using assms(2) by simp
qed

lemma card_free_frames_le: "card (free_frames s) \<le> 32768"
proof -
  have "card (free_frames s) \<le> card {..<32768 :: nat}"
    by (intro card_mono) (auto simp: free_frames_def)
  then show ?thesis by simp
qed

lemma pmm_init_inv_lemma:
  assumes "pmm_wf s" "\<And>i. i < unat count \<Longrightarrow> region_ok (rs ! i)"
    and "unat k_start \<le> unat k_end" "unat k_end + 4096 \<le> 2 ^ 44"
    and disj: "\<And>i j. i < j \<Longrightarrow> j < unat count \<Longrightarrow> region_frames (rs ! i) \<inter> region_frames (rs ! j) = {}"
  shows "pmm_inv (pmm_init k_start k_end rs count s)"
proof -
  let ?t = "pmm_init k_start k_end rs count s"
  note facts = pmm_init_facts [OF assms(1-4)]
  have fin: "finite (region_frames r)" for r
    by (rule finite_subset [of _ "{..<32768}"]) (auto simp: region_frames_def)
  have "card (\<Union>i<unat count. region_frames (rs ! i)) = (\<Sum>i<unat count. card (region_frames (rs ! i)))"
  proof (rule card_UN_disjoint)
    show "\<forall>i\<in>{..<unat count}. \<forall>j\<in>{..<unat count}. i \<noteq> j \<longrightarrow>
        region_frames (rs ! i) \<inter> region_frames (rs ! j) = {}"
      using disj by (metis Int_commute lessThan_iff linorder_neqE_nat)
  qed (simp_all add: fin)
  with facts(4) have "used_frames ?t + of_nat (card (free_frames ?t)) = 32768" by simp
  then have "unat (used_frames ?t) + card (free_frames ?t) = 32768"
    by (rule used_plus_free) (rule card_free_frames_le)
  moreover have "0 \<notin> free_frames ?t" using facts(2) by simp
  ultimately show ?thesis
    using facts(1) by (simp add: pmm_inv_def free_frames_def)
qed


section \<open>A concrete machine\<close>

text \<open>
  A machine with 128 MiB of memory and the kernel image from 1 MiB to 1 MiB + 192 KiB, on
  which the hypotheses of the theorems hold.
\<close>

definition boot_region :: mmap_region where
  "boot_region = \<lparr>region_base = 0, region_length = 128 * 1024 * 1024, region_type = 1\<rparr>"

definition boot_pmm :: "'a pmm_state_scheme \<Rightarrow> 'a pmm_state_scheme" where
  "boot_pmm s = pmm_init 0x100000 0x130000 [boot_region] 1 s"

definition cold_pmm :: pmm_state where
  "cold_pmm = \<lparr>mem = (\<lambda>_. 0), outs = [], dev = (\<lambda>_ _. 0x20), now = 0, regions = replicate 32 boot_region,
     region_count = 0, bitmap = replicate 4096 0, total_frames = 0, used_frames = 0\<rparr>"

lemma region_ok_boot: "region_ok boot_region"
  by (simp add: region_ok_def boot_region_def)

lemma region_frames_boot: "region_frames boot_region = {..<32768}"
  by (auto simp: region_frames_def boot_region_def)

lemma pmm_wf_cold: "pmm_wf cold_pmm"
  by (simp add: pmm_wf_def cold_pmm_def)

lemma kernel_frames_boot: "kernel_frames 0x100000 0x130000 = {256..<304}"
  by (auto simp: kernel_frames_def)

lemma boot_pmm_facts:
  assumes "pmm_wf s"
  shows "pmm_inv (boot_pmm s)" "free_frames (boot_pmm s) = {304..<32768}" "total_frames (boot_pmm s) = 32768"
proof -
  have ok: "region_ok ([boot_region] ! i)" if "i < unat (1 :: u32)" for i
    using that region_ok_boot by simp
  have *: "unat (0x100000 :: u64) \<le> unat (0x130000 :: u64)" "unat (0x130000 :: u64) + 4096 \<le> 2 ^ 44"
    by simp_all
  have "free_frames (boot_pmm s) =
      (\<Union>i<unat (1 :: u32). region_frames ([boot_region] ! i)) - {..<256} - kernel_frames 0x100000 0x130000"
    unfolding boot_pmm_def by (rule pmm_init_facts(2) [OF assms ok *])
  also have "\<dots> = {304..<32768}"
    unfolding kernel_frames_boot by (auto simp: lessThan_Suc region_frames_boot)
  finally show "free_frames (boot_pmm s) = {304..<32768}" .
  show "pmm_inv (boot_pmm s)"
    unfolding boot_pmm_def by (rule pmm_init_inv_lemma [OF assms ok *]) simp_all
  have "total_frames (boot_pmm s) = of_nat (\<Sum>i<unat (1 :: u32). card (region_frames ([boot_region] ! i)))"
    unfolding boot_pmm_def by (rule pmm_init_facts(3) [OF assms ok *])
  then show "total_frames (boot_pmm s) = 32768" by (simp add: lessThan_Suc region_frames_boot)
qed

lemmas boot_cold = boot_pmm_facts [OF pmm_wf_cold]

lemma Min_boot: "Min {304..<32768} = (304 :: nat)"
  by (rule Min_eqI) auto


section \<open>Properties of the allocator\<close>

text \<open>
  C7 \<open>pmm_alloc_frame\<close> implements the abstract allocator: it fails (returns 0) exactly
  when no frame is free, and then changes nothing; otherwise it takes the lowest free frame
  out of the set of free frames, returns its address, which is not 0, leaves memory alone
  and keeps the invariant of the bitmap and its counter.
\<close>

theorem pmm_alloc_frame_refines:
  assumes "pmm_inv s"
  shows "(free_frames s = {} \<longrightarrow> pmm_alloc_frame s = (0, s)) \<and>
    (free_frames s \<noteq> {} \<longrightarrow>
       fst (pmm_alloc_frame s) = frame_addr (Min (free_frames s)) \<and> fst (pmm_alloc_frame s) \<noteq> 0 \<and>
       free_frames (snd (pmm_alloc_frame s)) = free_frames s - {Min (free_frames s)} \<and>
       mem (snd (pmm_alloc_frame s)) = mem s \<and> pmm_inv (snd (pmm_alloc_frame s)))"
proof (cases "free_frames s = {}")
  case True
  then show ?thesis using assms by (simp add: pmm_alloc_frame_eq pmm_inv_def)
next
  case False
  then have m: "Min (free_frames s) \<in> free_frames s" by simp
  have wf: "pmm_wf s" using assms by (simp add: pmm_inv_def)
  have "fst (pmm_alloc_frame s) \<noteq> 0" using pmm.alloc_zero_iff [OF assms] False by simp
  moreover have "pmm_inv (snd (pmm_alloc_frame s))" by (rule pmm.inv_alloc [OF assms])
  ultimately show ?thesis
    using False wf free_frames_bound [OF m]
    by (simp add: pmm_alloc_frame_eq free_frames_take frame_simps)
qed

theorem pmm_alloc_frame_refines_witness:
  "fst (pmm_alloc_frame (boot_pmm cold_pmm)) = 304 * 4096"
  using pmm_alloc_frame_refines [OF boot_cold(1)]
  by (simp add: boot_cold(2) Min_boot frame_addr_def)

text \<open>
  C32 Freeing the frame just allocated restores the allocator's state exactly.
\<close>

theorem pmm_alloc_free_roundtrip:
  assumes "pmm_inv s" "free_frames s \<noteq> {}"
  shows "pmm_free_frame (fst (pmm_alloc_frame s)) (snd (pmm_alloc_frame s)) = s"
proof -
  let ?f = "Min (free_frames s)"
  have m: "?f \<in> free_frames s" using assms(2) by simp
  have wf: "pmm_wf s" using assms(1) by (simp add: pmm_inv_def)
  have f: "?f < 32768" "\<not> frame_used s ?f" using m by (simp_all add: free_frames_def)
  have "pmm_free_frame (frame_addr ?f) (take_frame ?f s) = drop_frame ?f (take_frame ?f s)"
    using f wf by (subst pmm_free_frame_eq) (simp_all add: unat_frame_addr frame_used_take)
  then show ?thesis
    using assms wf f by (simp add: pmm_alloc_frame_eq drop_take_frame)
qed

theorem pmm_alloc_free_roundtrip_witness:
  "pmm_free_frame (fst (pmm_alloc_frame (boot_pmm cold_pmm))) (snd (pmm_alloc_frame (boot_pmm cold_pmm))) =
     boot_pmm cold_pmm"
  by (rule pmm_alloc_free_roundtrip [OF boot_cold(1)]) (simp add: boot_cold(2))

text \<open>
  C18 No frame is handed out twice: as long as frames are left, any number of allocations
  in a row return pairwise different, non-zero, page-aligned addresses below 128 MiB.
\<close>

theorem pmm_no_double_allocation:
  assumes "pmm_inv s" "n \<le> card (free_frames s)"
  shows "distinct (fst (alloc_many pmm_alloc_frame n s)) \<and>
    (\<forall>a. a \<in> set (fst (alloc_many pmm_alloc_frame n s)) \<longrightarrow>
       a \<noteq> 0 \<and> unat a mod 4096 = 0 \<and> unat a < 128 * 1024 * 1024)"
proof -
  obtain as s' where as: "alloc_many pmm_alloc_frame n s = (as, s')"
    by (cases "alloc_many pmm_alloc_frame n s")
  from pmm.alloc_many_ok [OF assms as] obtain fs where fs:
    "as = map frame_addr fs" "distinct fs" "set fs \<subseteq> free_frames s" by blast
  have range: "f \<noteq> 0 \<and> f < 32768" if "f \<in> set fs" for f
    using that fs(3) pmm.avail_range [OF assms(1)] by (metis Suc_le_eq atLeastLessThan_iff less_numeral_extra(3) One_nat_def subsetD)
  then have "inj_on frame_addr (set fs)"
    by (intro inj_onI) (metis frame_addr_inj)
  then have "distinct as" using fs by (simp add: distinct_map)
  moreover have "frame_addr f \<noteq> 0 \<and> unat (frame_addr f) mod 4096 = 0 \<and>
      unat (frame_addr f) < 128 * 1024 * 1024" if "f \<in> set fs" for f
    using range [OF that] by (simp add: frame_addr_eq_0 unat_frame_addr)
  ultimately show ?thesis using as fs(1) by auto
qed

theorem pmm_no_double_allocation_witness:
  "distinct (fst (alloc_many pmm_alloc_frame 1000 (boot_pmm cold_pmm)))"
  using pmm_no_double_allocation [OF boot_cold(1), of 1000] by (simp add: boot_cold(2))



text \<open>
  C19 After \<open>pmm_init\<close> the free frames are exactly the frames that lie wholly inside an
  available region, are not below 1 MiB and do not touch the kernel image.
\<close>

theorem pmm_init_free_frames:
  assumes "pmm_wf s" "\<And>i. i < unat count \<Longrightarrow> region_ok (rs ! i)"
    and "unat k_start \<le> unat k_end" "unat k_end + 4096 \<le> 2 ^ 44"
  shows "free_frames (pmm_init k_start k_end rs count s) =
    (\<Union>i<unat count. region_frames (rs ! i)) - {..<256} - kernel_frames k_start k_end"
  using assms by (rule pmm_init_facts(2))

theorem pmm_init_free_frames_witness:
  "free_frames (pmm_init 0x100000 0x130000 [boot_region] 1 cold_pmm) =
     region_frames boot_region - {..<256} - kernel_frames 0x100000 0x130000"
proof -
  have "free_frames (pmm_init 0x100000 0x130000 [boot_region] 1 cold_pmm) =
      (\<Union>i<unat (1 :: u32). region_frames ([boot_region] ! i)) - {..<256} - kernel_frames 0x100000 0x130000"
    by (rule pmm_init_free_frames [OF pmm_wf_cold]) (simp_all add: region_ok_boot)
  then show ?thesis by (simp add: lessThan_Suc)
qed

text \<open>
  C26 When the available regions do not overlap, \<open>pmm_init\<close> establishes the invariant of
  the allocator.
\<close>

theorem pmm_init_establishes_inv:
  assumes "pmm_wf s" "\<And>i. i < unat count \<Longrightarrow> region_ok (rs ! i)"
    and "unat k_start \<le> unat k_end" "unat k_end + 4096 \<le> 2 ^ 44"
    and "\<And>i j. i < j \<Longrightarrow> j < unat count \<Longrightarrow> region_frames (rs ! i) \<inter> region_frames (rs ! j) = {}"
  shows "pmm_inv (pmm_init k_start k_end rs count s)"
  using assms by (rule pmm_init_inv_lemma)

theorem pmm_init_establishes_inv_witness:
  "pmm_inv (pmm_init 0x100000 0x130000 [boot_region] 1 cold_pmm)"
  by (rule pmm_init_establishes_inv [OF pmm_wf_cold]) (simp_all add: region_ok_boot)



end
