(* ===== verification/Vmm.thy ===== *)
theory Vmm
  imports Pmm
begin


text \<open>
  The page tables, \<open>vmm.c\<close>: four levels of 512 eight-byte entries, in frames of the frame
  allocator, which the kernel reaches at their physical address.
\<close>

section \<open>Data\<close>

abbreviation (input) VMM_PAGE_SIZE :: u64 where "VMM_PAGE_SIZE \<equiv> 4096"
abbreviation (input) VMM_FLAG_PRESENT :: u32 where "VMM_FLAG_PRESENT \<equiv> 1"
abbreviation (input) VMM_FLAG_WRITE :: u32 where "VMM_FLAG_WRITE \<equiv> 2"
abbreviation (input) VMM_FLAG_USER :: u32 where "VMM_FLAG_USER \<equiv> 4"

definition PML4_INDEX :: "u64 \<Rightarrow> u64" where "PML4_INDEX addr = drop_bit 39 addr AND 0x1FF"
definition PDPT_INDEX :: "u64 \<Rightarrow> u64" where "PDPT_INDEX addr = drop_bit 30 addr AND 0x1FF"
definition PD_INDEX :: "u64 \<Rightarrow> u64" where "PD_INDEX addr = drop_bit 21 addr AND 0x1FF"
definition PT_INDEX :: "u64 \<Rightarrow> u64" where "PT_INDEX addr = drop_bit 12 addr AND 0x1FF"

definition PAGE_MASK :: u64 where "PAGE_MASK = NOT 0xFFF"

text \<open>
  The static variable \<open>pml4\<close>, and the two pieces of processor state the code sets: the
  register \<open>CR3\<close> and the log of \<open>invlpg\<close> instructions, newest first.
\<close>

record vmm_state = pmm_state +
  pml4 :: u64
  cr3 :: u64
  invlpgs :: "u64 list"


section \<open>Operations\<close>

definition alloc_table :: "'a vmm_state_scheme \<Rightarrow> u64 \<times> 'a vmm_state_scheme" where
  "alloc_table s =
     (let (frame, s) = pmm_alloc_frame s
      in if frame = 0 then (0, s)
         else (frame, word_for (0 :: u32) 512 (\<lambda>i. put64 (frame + 8 * ucast i) 0) s))"

text \<open>
  One step down the tree, the block that \<open>vmm_map_page\<close> has three times (PML4 to PDPT,
  PDPT to PD, PD to PT): follow a present entry and add the flags, or allocate a table and
  link it. \<open>None\<close> is the \<open>return\<close> when no frame is left.
\<close>

definition vmm_descend :: "u64 \<Rightarrow> u64 \<Rightarrow> u64 \<Rightarrow> 'a vmm_state_scheme \<Rightarrow> u64 option \<times> 'a vmm_state_scheme" where
  "vmm_descend table idx intermediate_flags s =
     (let e = get64 s (table + 8 * idx)
      in if e AND 1 \<noteq> 0
         then (Some (e AND PAGE_MASK), put64 (table + 8 * idx) (e OR intermediate_flags) s)
         else let (t, s) = alloc_table s
              in if t = 0 then (None, s)
                 else (Some t, put64 (table + 8 * idx) (t OR intermediate_flags) s))"

definition vmm_map_page :: "u64 \<Rightarrow> u64 \<Rightarrow> u32 \<Rightarrow> 'a vmm_state_scheme \<Rightarrow> 'a vmm_state_scheme" where
  "vmm_map_page virt phys flags s =
     (let intermediate_flags = 1 OR 2 OR (if flags AND VMM_FLAG_USER \<noteq> 0 then 4 else 0)
      in case vmm_descend (pml4 s) (PML4_INDEX virt) intermediate_flags s of
           (None, s) \<Rightarrow> s
         | (Some pdpt, s) \<Rightarrow>
           (case vmm_descend pdpt (PDPT_INDEX virt) intermediate_flags s of
              (None, s) \<Rightarrow> s
            | (Some pd, s) \<Rightarrow>
              (case vmm_descend pd (PD_INDEX virt) intermediate_flags s of
                 (None, s) \<Rightarrow> s
               | (Some pt, s) \<Rightarrow>
                 put64 (pt + 8 * PT_INDEX virt) ((phys AND PAGE_MASK) OR ucast flags) s)))"

definition vmm_unmap_page :: "u64 \<Rightarrow> 'a vmm_state_scheme \<Rightarrow> 'a vmm_state_scheme" where
  "vmm_unmap_page virt s =
     (let e4 = get64 s (pml4 s + 8 * PML4_INDEX virt)
      in if e4 AND 1 = 0 then s
         else let pdpt = e4 AND PAGE_MASK; e3 = get64 s (pdpt + 8 * PDPT_INDEX virt)
              in if e3 AND 1 = 0 then s
                 else let pd = e3 AND PAGE_MASK; e2 = get64 s (pd + 8 * PD_INDEX virt)
                      in if e2 AND 1 = 0 then s
                         else let pt = e2 AND PAGE_MASK;
                                  s = put64 (pt + 8 * PT_INDEX virt) 0 s
                              in s\<lparr>invlpgs := virt # invlpgs s\<rparr>)"

text \<open>
  The loop of \<open>vmm_init\<close>, with the number of pages mapped so far. The counter is a
  natural number: \<open>map_end\<close> is 4 MiB, so the 64-bit counter of the code does not wrap.
\<close>

function vmm_identity_map :: "nat \<Rightarrow> nat \<Rightarrow> u32 \<Rightarrow> 'a vmm_state_scheme \<Rightarrow> u32 \<times> 'a vmm_state_scheme" where
  "vmm_identity_map addr map_end pages_mapped s =
     (if addr < map_end
      then vmm_identity_map (addr + 4096) map_end (pages_mapped + 1)
             (vmm_map_page (of_nat addr) (of_nat addr) (VMM_FLAG_PRESENT OR VMM_FLAG_WRITE) s)
      else (pages_mapped, s))"
  by pat_completeness auto
termination
  by (relation "measure (\<lambda>(addr, map_end, _). map_end - addr)") auto

declare vmm_identity_map.simps [simp del]

definition vmm_init :: "'a vmm_state_scheme \<Rightarrow> 'a vmm_state_scheme" where
  "vmm_init s =
     (let (root, s) = alloc_table s; s = s\<lparr>pml4 := root\<rparr>
      in if root = 0 then serial_write ''vmm: failed to allocate PML4\<newline>'' s
         else let map_end = 4 * 1024 * 1024 :: u64;
                  s = serial_write ''vmm: identity-mapping 0x0 to '' s;
                  s = serial_write_hex_u64 map_end s;
                  s = serial_write ''\<newline>'' s;
                  (pages_mapped, s) = vmm_identity_map 0 (unat map_end) 0 s;
                  s = serial_write ''vmm: mapped '' s;
                  s = serial_write_dec_u64 (ucast pages_mapped) s;
                  s = serial_write '' pages\<newline>'' s;
                  s = serial_write ''vmm: loading CR3\<newline>'' s;
                  s = s\<lparr>cr3 := pml4 s\<rparr>
              in serial_write ''vmm: page tables active\<newline>'' s)"


section \<open>The tree of tables\<close>

text \<open>
  \<open>pt_entry m t i\<close> is entry \<open>i\<close> of the table at \<open>t\<close>; \<open>table_at m root p\<close> follows the
  indices \<open>p\<close> from the root through present entries.
\<close>

definition pt_entry :: "memory \<Rightarrow> u64 \<Rightarrow> u64 \<Rightarrow> u64" where
  "pt_entry m t i = load64 m (t + 8 * i)"

definition present :: "u64 \<Rightarrow> bool" where
  "present e \<longleftrightarrow> e AND 1 \<noteq> 0"

definition entry_addr :: "u64 \<Rightarrow> u64" where
  "entry_addr e = e AND PAGE_MASK"

fun table_at :: "memory \<Rightarrow> u64 \<Rightarrow> u64 list \<Rightarrow> u64 option" where
  "table_at m t [] = Some t"
| "table_at m t (i # p) =
     (if present (pt_entry m t i) then table_at m (entry_addr (pt_entry m t i)) p else None)"

definition valid_path :: "u64 list \<Rightarrow> bool" where
  "valid_path p \<longleftrightarrow> length p \<le> 3 \<and> (\<forall>i\<in>set p. i < 512)"

lemma table_at_snoc:
  "table_at m t (p @ [i]) = (case table_at m t p of None \<Rightarrow> None
     | Some u \<Rightarrow> if present (pt_entry m u i) then Some (entry_addr (pt_entry m u i)) else None)"
  by (induction m t p rule: table_at.induct) auto

lemma valid_path_snoc: "valid_path (p @ [i]) \<longleftrightarrow> valid_path p \<and> length p < 3 \<and> i < 512"
  by (auto simp: valid_path_def)

lemma valid_path_Nil [simp]: "valid_path []"
  by (simp add: valid_path_def)

text \<open>Table frames: page-aligned addresses of frames that are in use.\<close>

definition table_frame :: "'a pmm_state_scheme \<Rightarrow> u64 \<Rightarrow> bool" where
  "table_frame s t \<longleftrightarrow> (\<exists>f. 0 < f \<and> f < 32768 \<and> frame_used s f \<and> t = frame_addr f)"

definition is_frame :: "u64 \<Rightarrow> bool" where
  "is_frame t \<longleftrightarrow> (\<exists>f. 0 < f \<and> f < 32768 \<and> t = frame_addr f)"

lemma table_frame_is_frame: "table_frame s t \<Longrightarrow> is_frame t"
  by (auto simp: table_frame_def is_frame_def)

lemma is_frame_unat:
  assumes "is_frame t"
  shows "unat t mod 4096 = 0" "unat t + 4096 \<le> 2 ^ 27" "t \<noteq> 0"
proof -
  from assms obtain f where f: "0 < f" "f < 32768" "t = frame_addr f" by (auto simp: is_frame_def)
  then have "unat t = f * 4096" by (simp add: unat_frame_addr)
  with f show "unat t mod 4096 = 0" "unat t + 4096 \<le> 2 ^ 27" "t \<noteq> 0" by auto
qed

lemma unat_entry_addr:
  assumes "is_frame t" "i < 512"
  shows "unat (t + 8 * i) = unat t + 8 * unat i"
proof -
  have i: "unat i < 512" using assms(2) by (simp add: word_less_nat_alt)
  then have "unat (8 * i) = 8 * unat i" by (simp add: unat_word_ariths)
  moreover have "unat t + 8 * unat i < 2 ^ 64" using is_frame_unat [OF assms(1)] i by simp
  ultimately show ?thesis by (simp add: unat_add_small)
qed

lemma eight_step: "8 * p \<noteq> 8 * q \<Longrightarrow> 8 * p + 8 \<le> 8 * q \<or> 8 * q + 8 \<le> 8 * p" for p q :: nat
  by auto

lemma entry_slot_eq:
  fixes a b x y :: nat
  assumes "a mod 4096 = 0" "b mod 4096 = 0" "x < 512" "y < 512"
  shows "a + 8 * x = b + 8 * y \<longleftrightarrow> a = b \<and> x = y"
    and "a + 8 * x \<noteq> b + 8 * y \<Longrightarrow> a + 8 * x + 8 \<le> b + 8 * y \<or> b + 8 * y + 8 \<le> a + 8 * x"
proof -
  obtain c d where cd: "a = c * 4096" "b = d * 4096" using assms by (metis mod_0_imp_dvd dvdE mult.commute)
  have "x = y" if "c * 512 + x = d * 512 + y"
  proof -
    have "(c * 512 + x) mod 512 = (d * 512 + y) mod 512" using that by simp
    then show ?thesis using assms by simp
  qed
  moreover have eq: "a + 8 * x = 8 * (c * 512 + x)" "b + 8 * y = 8 * (d * 512 + y)" using cd by simp_all
  ultimately show "a + 8 * x = b + 8 * y \<longleftrightarrow> a = b \<and> x = y" by auto
  show "a + 8 * x + 8 \<le> b + 8 * y \<or> b + 8 * y + 8 \<le> a + 8 * x" if "a + 8 * x \<noteq> b + 8 * y"
    using that unfolding eq by (rule eight_step)
qed

lemma pt_entry_store:
  assumes "is_frame t" "is_frame u" "i < 512" "j < 512"
  shows "pt_entry (store64 m (t + 8 * i) v) u j = (if u = t \<and> j = i then v else pt_entry m u j)"
proof (cases "u = t \<and> j = i")
  case True
  then show ?thesis by (simp add: pt_entry_def)
next
  case False
  have ij: "unat i < 512" "unat j < 512" using assms by (simp_all add: word_less_nat_alt)
  have "unat t + 8 * unat i \<noteq> unat u + 8 * unat j"
    using False entry_slot_eq(1) [OF is_frame_unat(1) [OF assms(1)] is_frame_unat(1) [OF assms(2)] ij]
    by (auto simp: word_unat_eq_iff)
  from entry_slot_eq(2) [OF is_frame_unat(1) [OF assms(1)] is_frame_unat(1) [OF assms(2)] ij this]
  have "apart (t + 8 * i) 8 (u + 8 * j) 8"
    using is_frame_unat(2) [OF assms(1)] is_frame_unat(2) [OF assms(2)] ij assms
    by (intro apartI_nat) (simp_all add: unat_entry_addr)
  then show ?thesis using False by (auto simp: pt_entry_def load_store_apart)
qed

lemma store_entry_outside:
  assumes "is_frame t" "i < 512" "unat x div 4096 \<noteq> unat t div 4096"
  shows "store64 m (t + 8 * i) v x = m x"
proof -
  have i: "unat i < 512" using assms by (simp add: word_less_nat_alt)
  obtain f where f: "unat t = f * 4096" using is_frame_unat(1) [OF assms(1)]
    by (metis mod_0_imp_dvd dvdE mult.commute)
  with assms(3) have "unat x < f * 4096 \<or> f * 4096 + 4096 \<le> unat x" by auto
  then show ?thesis
    using i f is_frame_unat(2) [OF assms(1)] assms
    by (intro store_outside_nat) (auto simp: unat_entry_addr)
qed


section \<open>The invariant\<close>

text \<open>
  Every table that can be reached is a frame in use, and no table is reached by two
  different paths: the tables form a tree.
\<close>

definition vmm_tree :: "'a vmm_state_scheme \<Rightarrow> bool" where
  "vmm_tree s \<longleftrightarrow>
     (\<forall>p t. valid_path p \<longrightarrow> table_at (mem s) (pml4 s) p = Some t \<longrightarrow> table_frame s t) \<and>
     (\<forall>p q t. valid_path p \<longrightarrow> valid_path q \<longrightarrow>
        table_at (mem s) (pml4 s) p = Some t \<longrightarrow> table_at (mem s) (pml4 s) q = Some t \<longrightarrow> p = q)"

definition vmm_inv :: "'a vmm_state_scheme \<Rightarrow> bool" where
  "vmm_inv s \<longleftrightarrow> pmm_inv s \<and> vmm_tree s"

lemma vmm_tree_frame:
  "vmm_tree s \<Longrightarrow> valid_path p \<Longrightarrow> table_at (mem s) (pml4 s) p = Some t \<Longrightarrow> table_frame s t"
  unfolding vmm_tree_def by blast

lemma vmm_tree_inj:
  "vmm_tree s \<Longrightarrow> valid_path p \<Longrightarrow> valid_path q \<Longrightarrow>
     table_at (mem s) (pml4 s) p = Some t \<Longrightarrow> table_at (mem s) (pml4 s) q = Some t \<Longrightarrow> p = q"
  unfolding vmm_tree_def by blast

lemma vmm_tree_is_frame:
  "vmm_tree s \<Longrightarrow> valid_path p \<Longrightarrow> table_at (mem s) (pml4 s) p = Some t \<Longrightarrow> is_frame t"
  by (blast intro: vmm_tree_frame table_frame_is_frame)

text \<open>
  A path is unaffected by a change of memory that keeps, in every table on the way, the
  address and the present bit of the entry followed.
\<close>

lemma table_at_cong:
  assumes "\<And>q i t. \<exists>r. p = q @ i # r \<Longrightarrow> table_at m root q = Some t \<Longrightarrow>
     present (pt_entry m' t i) = present (pt_entry m t i) \<and>
     (present (pt_entry m t i) \<longrightarrow> entry_addr (pt_entry m' t i) = entry_addr (pt_entry m t i))"
  shows "table_at m' root p = table_at m root p"
  using assms
proof (induction p rule: rev_induct)
  case Nil
  then show ?case by simp
next
  case (snoc i p)
  have "table_at m' root p = table_at m root p"
  proof (rule snoc.IH)
    fix q j t assume "\<exists>r. p = q @ j # r" "table_at m root q = Some t"
    then show "present (pt_entry m' t j) = present (pt_entry m t j) \<and>
       (present (pt_entry m t j) \<longrightarrow> entry_addr (pt_entry m' t j) = entry_addr (pt_entry m t j))"
      by (intro snoc.prems) auto
  qed
  moreover have "present (pt_entry m' t i) = present (pt_entry m t i) \<and>
       (present (pt_entry m t i) \<longrightarrow> entry_addr (pt_entry m' t i) = entry_addr (pt_entry m t i))"
    if "table_at m root p = Some t" for t
    using that by (intro snoc.prems [of p]) auto
  ultimately show ?case by (auto simp: table_at_snoc split: option.splits)
qed

lemma valid_path_prefix: "valid_path (q @ r) \<Longrightarrow> valid_path q"
  by (auto simp: valid_path_def)

lemma valid_path_mid: "valid_path (q @ i # r) \<Longrightarrow> valid_path q \<and> length q < 3 \<and> i < 512"
  by (auto simp: valid_path_def)

text \<open>The flags added on the way down keep the address and the present bit.\<close>

lemma entry_addr_or:
  assumes "fl AND PAGE_MASK = 0"
  shows "entry_addr (e OR fl) = entry_addr e"
  using assms by (simp add: entry_addr_def bit.conj_disj_distrib2)

lemma present_or: "present e \<Longrightarrow> present (e OR fl)"
  by (simp add: present_def bit.conj_disj_distrib2 or_eq_0_iff)


section \<open>A fresh table\<close>

lemma is_frameI: "0 < f \<Longrightarrow> f < 32768 \<Longrightarrow> is_frame (frame_addr f)"
  by (auto simp: is_frame_def)

lemma bit_PAGE_MASK: "bit PAGE_MASK n \<longleftrightarrow> 12 \<le> n \<and> n < 64"
proof -
  have m: "(0xFFF :: u64) = mask 12" by (simp add: mask_eq_exp_minus_1)
  show ?thesis unfolding PAGE_MASK_def m by (auto simp: bit_simps)
qed

lemma entry_addr_frame: "entry_addr (frame_addr f) = frame_addr f"
proof (rule bit_word_eqI)
  fix n assume "n < LENGTH(64)"
  have "frame_addr f = push_bit 12 (of_nat f)"
    by (simp add: frame_addr_def push_bit_eq_mult)
  then show "bit (entry_addr (frame_addr f)) n = bit (frame_addr f) n"
    by (auto simp: entry_addr_def bit_simps bit_PAGE_MASK)
qed

lemma zero_table:
  fixes s :: "'a vmm_state_scheme"
  assumes "is_frame t"
  shows "\<exists>m'. word_for (0 :: u32) 512 (\<lambda>i. put64 (t + 8 * ucast i) 0) s = s\<lparr>mem := m'\<rparr> \<and>
     (\<forall>j<512. pt_entry m' t (of_nat j) = 0) \<and> (\<forall>x. unat x div 4096 \<noteq> unat t div 4096 \<longrightarrow> m' x = mem s x)"
proof -
  have "\<exists>m'. word_for (0 :: u32) 512 (\<lambda>i. put64 (t + 8 * ucast i) 0) s = s\<lparr>mem := m'\<rparr> \<and>
     (\<forall>j<unat (512 :: u32). pt_entry m' t (of_nat j) = 0) \<and>
     (\<forall>x. unat x div 4096 \<noteq> unat t div 4096 \<longrightarrow> m' x = mem s x)"
  proof (rule word_for_invariant [where P = "\<lambda>k u. \<exists>m'. u = s\<lparr>mem := m'\<rparr> \<and>
      (\<forall>j<k. pt_entry m' t (of_nat j) = 0) \<and> (\<forall>x. unat x div 4096 \<noteq> unat t div 4096 \<longrightarrow> m' x = mem s x)"])
    show "\<exists>m'. s = s\<lparr>mem := m'\<rparr> \<and> (\<forall>j<unat (0 :: u32). pt_entry m' t (of_nat j) = 0) \<and>
        (\<forall>x. unat x div 4096 \<noteq> unat t div 4096 \<longrightarrow> m' x = mem s x)"
      by (intro exI [of _ "mem s"]) simp
  next
    fix k and u :: "'a vmm_state_scheme"
    assume k: "k < unat (512 :: u32)" and "\<exists>m'. u = s\<lparr>mem := m'\<rparr> \<and>
      (\<forall>j<k. pt_entry m' t (of_nat j) = 0) \<and> (\<forall>x. unat x div 4096 \<noteq> unat t div 4096 \<longrightarrow> m' x = mem s x)"
    then obtain m' where m': "u = s\<lparr>mem := m'\<rparr>" "\<forall>j<k. pt_entry m' t (of_nat j) = 0"
      "\<forall>x. unat x div 4096 \<noteq> unat t div 4096 \<longrightarrow> m' x = mem s x" by blast
    let ?m = "store64 m' (t + 8 * of_nat k) 0"
    have k': "k < 512" using k by simp
    have lt: "(of_nat j :: u64) < 512" if "j < 512" for j
      using that by (simp add: word_less_nat_alt unat_of_nat_small)
    have "put64 (t + 8 * ucast (of_nat k :: u32)) 0 u = s\<lparr>mem := ?m\<rparr>"
      using k' by (simp add: m'(1) put64_def ucast_of_nat_small)
    moreover have "\<forall>j<Suc k. pt_entry ?m t (of_nat j) = 0"
      using m'(2) k' assms by (auto simp: pt_entry_store lt less_Suc_eq)
    moreover have "\<forall>x. unat x div 4096 \<noteq> unat t div 4096 \<longrightarrow> ?m x = mem s x"
      using m'(3) assms lt [OF k'] by (simp add: store_entry_outside)
    ultimately show "\<exists>m'. put64 (t + 8 * ucast (of_nat k :: u32)) 0 u = s\<lparr>mem := m'\<rparr> \<and>
      (\<forall>j<Suc k. pt_entry m' t (of_nat j) = 0) \<and> (\<forall>x. unat x div 4096 \<noteq> unat t div 4096 \<longrightarrow> m' x = mem s x)"
      by blast
  qed simp
  then show ?thesis by simp
qed

lemma pmm_inv_mem [simp]: "pmm_inv (s\<lparr>mem := m\<rparr>) = pmm_inv s"
  "free_frames (s\<lparr>mem := m\<rparr>) = free_frames s" "frame_used (s\<lparr>mem := m\<rparr>) = frame_used s"
  "table_frame (s\<lparr>mem := m\<rparr>) = table_frame s"
  by (simp_all add: pmm_inv_def pmm_wf_def free_frames_def frame_used_def table_frame_def fun_eq_iff)

text \<open>\<open>alloc_table\<close> takes a free frame and fills it with empty entries, or fails.\<close>

lemma alloc_table_cases:
  assumes "pmm_inv s" "alloc_table s = (t, s')"
  obtains "t = 0" "s' = s" "free_frames s = {}"
  | f m' where "f \<in> free_frames s" "0 < f" "f < 32768" "t = frame_addr f" "t \<noteq> 0"
      "\<forall>g\<in>free_frames s. f \<le> g"
      "s' = (take_frame f s)\<lparr>mem := m'\<rparr>" "\<And>j. j < 512 \<Longrightarrow> pt_entry m' t j = 0"
      "\<And>x. unat x div 4096 \<noteq> f \<Longrightarrow> m' x = mem s x"
proof (cases "free_frames s = {}")
  case True
  then have "pmm_alloc_frame s = (0, s)" using pmm.alloc_none [OF assms(1)] by blast
  with assms(2) have "t = 0" "s' = s" by (simp_all add: alloc_table_def)
  from that(1) [OF this True] show ?thesis .
next
  case False
  define f where "f = Min (free_frames s)"
  have f: "f \<in> free_frames s" using False by (simp add: f_def)
  then have range: "0 < f" "f < 32768" using pmm.avail_range [OF assms(1)] by auto
  have wf: "pmm_wf s" using assms(1) by (simp add: pmm_inv_def)
  have a: "pmm_alloc_frame s = (frame_addr f, take_frame f s)"
    using False wf by (simp add: pmm_alloc_frame_eq f_def)
  have nz: "frame_addr f \<noteq> 0" using range by (simp add: frame_addr_eq_0)
  from zero_table [OF is_frameI [OF range], of "take_frame f s"] obtain m' where
    m': "word_for (0 :: u32) 512 (\<lambda>i. put64 (frame_addr f + 8 * ucast i) 0) (take_frame f s) = (take_frame f s)\<lparr>mem := m'\<rparr>"
      "\<forall>j<512. pt_entry m' (frame_addr f) (of_nat j) = 0"
      "\<forall>x. unat x div 4096 \<noteq> unat (frame_addr f) div 4096 \<longrightarrow> m' x = mem (take_frame f s) x" by blast
  have "t = frame_addr f" "s' = (take_frame f s)\<lparr>mem := m'\<rparr>"
    using assms(2) nz by (simp_all add: alloc_table_def a m'(1))
  moreover have "pt_entry m' t j = 0" if "j < 512" for j
  proof -
    have "unat j < 512" using that by (simp add: word_less_nat_alt)
    with m'(2) have "pt_entry m' (frame_addr f) (of_nat (unat j)) = 0" by blast
    then show ?thesis using \<open>t = frame_addr f\<close> by simp
  qed
  moreover have "m' x = mem s x" if "unat x div 4096 \<noteq> f" for x
    using that m'(3) range by (simp add: unat_frame_addr frame_simps)
  moreover have "\<forall>g\<in>free_frames s. f \<le> g" by (simp add: f_def)
  ultimately show ?thesis using f range nz that(2) by blast
qed


section \<open>One step down\<close>

lemma table_at_append:
  "table_at m t (p @ q) = (case table_at m t p of None \<Rightarrow> None | Some u \<Rightarrow> table_at m u q)"
  by (induction m t p rule: table_at.induct) auto

text \<open>
  \<open>grows s s'\<close>: the page tables of \<open>s'\<close> extend those of \<open>s\<close>. Tables stay where they
  are, the entries of the last level do not change and new tables of the last level are
  empty, present entries above it lose no bit, free frames are used up from the lowest, and no
  memory outside the tables and the frames used up is written.
\<close>

definition table_frames :: "'a vmm_state_scheme \<Rightarrow> nat set" where
  "table_frames s = {f. f < 32768 \<and> (\<exists>p. valid_path p \<and> table_at (mem s) (pml4 s) p = Some (frame_addr f))}"

definition grows :: "'a vmm_state_scheme \<Rightarrow> 'a vmm_state_scheme \<Rightarrow> bool" where
  "grows s s' \<longleftrightarrow>
     pml4 s' = pml4 s \<and> vmm_inv s' \<and> free_frames s' \<subseteq> free_frames s \<and>
     (\<forall>p t. valid_path p \<longrightarrow> table_at (mem s) (pml4 s) p = Some t \<longrightarrow>
        table_at (mem s') (pml4 s) p = Some t) \<and>
     (\<forall>p t j. valid_path p \<longrightarrow> length p = 3 \<longrightarrow> j < 512 \<longrightarrow> table_at (mem s') (pml4 s) p = Some t \<longrightarrow>
        pt_entry (mem s') t j =
          (if table_at (mem s) (pml4 s) p = Some t then pt_entry (mem s) t j else 0)) \<and>
     (\<forall>p t j. valid_path p \<longrightarrow> length p < 3 \<longrightarrow> j < 512 \<longrightarrow> table_at (mem s) (pml4 s) p = Some t \<longrightarrow>
        present (pt_entry (mem s) t j) \<longrightarrow> pt_entry (mem s) t j AND pt_entry (mem s') t j = pt_entry (mem s) t j) \<and>
     table_frames s' \<subseteq> table_frames s \<union> (free_frames s - free_frames s') \<and>
     (\<forall>f\<in>free_frames s - free_frames s'. \<forall>g\<in>free_frames s'. f < g) \<and>
     (\<forall>x. unat x div 4096 \<notin> table_frames s \<union> (free_frames s - free_frames s') \<longrightarrow> mem s' x = mem s x)"

lemma vmm_tree_cong:
  assumes "\<And>p. valid_path p \<Longrightarrow> table_at (mem s') (pml4 s') p = table_at (mem s) (pml4 s) p"
    and "\<And>f. frame_used s f \<Longrightarrow> frame_used s' f" and "vmm_tree s"
  shows "vmm_tree s'"
  unfolding vmm_tree_def
proof (intro conjI allI impI)
  fix p t assume "valid_path p" "table_at (mem s') (pml4 s') p = Some t"
  with assms(1,3) have "table_frame s t" by (metis vmm_tree_frame)
  with assms(2) show "table_frame s' t" by (auto simp: table_frame_def)
next
  fix p q t assume "valid_path p" "valid_path q" "table_at (mem s') (pml4 s') p = Some t"
    "table_at (mem s') (pml4 s') q = Some t"
  with assms(1,3) show "p = q" by (metis vmm_tree_inj)
qed

lemma table_frames_cong:
  assumes "\<And>p. valid_path p \<Longrightarrow> table_at (mem s') (pml4 s') p = table_at (mem s) (pml4 s) p"
  shows "table_frames s' = table_frames s"
  unfolding table_frames_def using assms by auto

lemma table_frames_div:
  assumes "vmm_tree s" "valid_path p" "table_at (mem s) (pml4 s) p = Some t"
  shows "unat t div 4096 \<in> table_frames s"
proof -
  from vmm_tree_frame [OF assms] obtain f where f: "0 < f" "f < 32768" "t = frame_addr f"
    by (auto simp: table_frame_def)
  with assms show ?thesis by (auto simp: table_frames_def unat_frame_addr)
qed

text \<open>A present entry: only flags are added.\<close>

lemma descend_present:
  assumes inv: "vmm_inv s" and p: "valid_path p" "length p < 3" "table_at (mem s) (pml4 s) p = Some t"
    and i: "i < 512" and fl: "fl AND PAGE_MASK = 0" and e: "present (pt_entry (mem s) t i)"
  defines "s' \<equiv> put64 (t + 8 * i) (pt_entry (mem s) t i OR fl) s"
  shows "grows s s'" "pt_entry (mem s') t i = pt_entry (mem s) t i OR fl"
    "\<And>q. valid_path q \<Longrightarrow> table_at (mem s') (pml4 s) q = table_at (mem s) (pml4 s) q"
    "free_frames s' = free_frames s"
proof -
  have tree: "vmm_tree s" and pinv: "pmm_inv s" using inv by (simp_all add: vmm_inv_def)
  have t: "is_frame t" using vmm_tree_is_frame [OF tree p(1,3)] .
  have m': "mem s' = store64 (mem s) (t + 8 * i) (pt_entry (mem s) t i OR fl)" by (simp add: s'_def)
  show new: "pt_entry (mem s') t i = pt_entry (mem s) t i OR fl"
    using t i by (simp add: m' pt_entry_store)
  have other: "pt_entry (mem s') u j = pt_entry (mem s) u j"
    if "is_frame u" "j < 512" "(u, j) \<noteq> (t, i)" for u j
    using that t i by (auto simp: m' pt_entry_store)
  show same: "table_at (mem s') (pml4 s) q = table_at (mem s) (pml4 s) q" if q: "valid_path q" for q
  proof (rule table_at_cong)
    fix q' j u assume "\<exists>r. q = q' @ j # r" and u: "table_at (mem s) (pml4 s) q' = Some u"
    then have q': "valid_path q'" "j < 512" using q valid_path_mid by blast+
    have "is_frame u" using vmm_tree_is_frame [OF tree q'(1) u] .
    then show "present (pt_entry (mem s') u j) = present (pt_entry (mem s) u j) \<and>
       (present (pt_entry (mem s) u j) \<longrightarrow> entry_addr (pt_entry (mem s') u j) = entry_addr (pt_entry (mem s) u j))"
      using other [of u j] q'(2) new e fl
      by (cases "(u, j) = (t, i)") (auto simp: present_or entry_addr_or)
  qed
  have pm: "pml4 s' = pml4 s" "frame_used s' = frame_used s" and ff: "free_frames s' = free_frames s"
    and pinv': "pmm_inv s'"
    using pinv by (simp_all add: s'_def put64_def)
  show "free_frames s' = free_frames s" by (rule ff)
  have tree': "vmm_tree s'"
    by (rule vmm_tree_cong [OF _ _ tree]) (simp_all add: same pm)
  have tf: "table_frames s' = table_frames s"
    by (rule table_frames_cong) (simp add: same pm)
  have leaf: "pt_entry (mem s') u j = pt_entry (mem s) u j"
    if "valid_path q" "length q = 3" "j < 512" "table_at (mem s) (pml4 s) q = Some u" for q u j
  proof (rule other)
    show "is_frame u" using vmm_tree_is_frame [OF tree that(1,4)] .
    show "(u, j) \<noteq> (t, i)" using vmm_tree_inj [OF tree that(1) p(1) that(4)] p that(2) by auto
  qed (rule that(3))
  have "mem s' x = mem s x" if "unat x div 4096 \<notin> table_frames s" for x
  proof -
    have "unat x div 4096 \<noteq> unat t div 4096"
      using that table_frames_div [OF tree p(1,3)] by auto
    then show ?thesis using t i by (simp add: m' store_entry_outside)
  qed
  moreover have "pt_entry (mem s) u j AND pt_entry (mem s') u j = pt_entry (mem s) u j"
    if "valid_path q" "j < 512" "table_at (mem s) (pml4 s) q = Some u" for q u j
    using other [OF vmm_tree_is_frame [OF tree that(1,3)] that(2)] new
    by (cases "(u, j) = (t, i)") auto
  ultimately show "grows s s'"
    unfolding grows_def vmm_inv_def
    using pm(1) ff tf pinv' tree' leaf by (simp add: same)
qed


text \<open>An absent entry: a fresh empty table is linked.\<close>

lemma pt_entry_cong:
  assumes "is_frame u" "j < 512" "\<And>x. unat x div 4096 = unat u div 4096 \<Longrightarrow> m' x = m x"
  shows "pt_entry m' u j = pt_entry m u j"
  unfolding pt_entry_def
proof (rule load_le_cong)
  fix k :: nat assume k: "k < 8"
  have j: "unat j < 512" using assms(2) by (simp add: word_less_nat_alt)
  have a: "unat (u + 8 * j) = unat u + 8 * unat j" by (rule unat_entry_addr [OF assms(1,2)])
  have "unat (u + 8 * j) + k < 2 ^ 64" unfolding a using is_frame_unat(2) [OF assms(1)] j k by simp
  then have "unat (u + 8 * j + of_nat k) = unat u + (8 * unat j + k)"
    using a by (simp add: unat_add_of_nat)
  moreover have "(unat u + (8 * unat j + k)) div 4096 = unat u div 4096"
  proof -
    obtain f where "unat u = f * 4096" using is_frame_unat(1) [OF assms(1)]
      by (metis mod_0_imp_dvd dvdE mult.commute)
    then show ?thesis using j k by simp
  qed
  ultimately have "unat (u + 8 * j + of_nat k) div 4096 = unat u div 4096" by (simp only:)
  then show "m' (u + 8 * j + of_nat k) = m (u + 8 * j + of_nat k)" by (rule assms(3))
qed

lemma free_not_table:
  assumes "vmm_inv s" "valid_path p" "table_at (mem s) (pml4 s) p = Some t" "f \<in> free_frames s"
  shows "t \<noteq> frame_addr f"
proof
  assume t: "t = frame_addr f"
  have "vmm_tree s" using assms(1) by (simp add: vmm_inv_def)
  from vmm_tree_frame [OF this assms(2,3)] obtain g where "g < 32768" "frame_used s g" "t = frame_addr g"
    by (auto simp: table_frame_def)
  with t assms(4) show False by (auto simp: free_frames_def frame_addr_inj)
qed

lemma table_at_link:
  assumes inv: "vmm_inv s" and f: "f \<in> free_frames s"
    and p: "valid_path p" "length p < 3" "table_at (mem s) (pml4 s) p = Some t"
    and i: "i < 512" and fl: "fl AND PAGE_MASK = 0" "present fl" and e: "\<not> present (pt_entry (mem s) t i)"
    and upd: "\<And>u j. is_frame u \<Longrightarrow> j < 512 \<Longrightarrow> pt_entry m' u j =
      (if u = t \<and> j = i then frame_addr f OR fl else if u = frame_addr f then 0 else pt_entry (mem s) u j)"
    and q: "valid_path q"
  shows "table_at m' (pml4 s) q = (if q = p @ [i] then Some (frame_addr f) else table_at (mem s) (pml4 s) q)"
  using q
proof (induction q rule: rev_induct)
  case Nil
  show ?case by simp
next
  case (snoc j q)
  have tree: "vmm_tree s" and pinv: "pmm_inv s" using inv by (simp_all add: vmm_inv_def)
  from snoc.prems have q: "valid_path q" "length q < 3" and j: "j < 512" by (simp_all add: valid_path_snoc)
  have IH: "table_at m' (pml4 s) q = (if q = p @ [i] then Some (frame_addr f) else table_at (mem s) (pml4 s) q)"
    using snoc.IH q by blast
  have frame: "is_frame (frame_addr f)"
    using f pmm.avail_range [OF pinv] free_frames_bound by (intro is_frameI) auto
  show ?case
  proof (cases "q = p @ [i]")
    case True
    have "frame_addr f \<noteq> t" using free_not_table [OF inv p(1,3) f] by blast
    then have "pt_entry m' (frame_addr f) j = 0" using upd [OF frame j] by simp
    moreover have "table_at m' (pml4 s) q = Some (frame_addr f)" using True IH by simp
    moreover have "table_at (mem s) (pml4 s) q = None" using True p e by (simp add: table_at_snoc)
    moreover have "q @ [j] \<noteq> p @ [i]" using True by simp
    ultimately show ?thesis by (simp only: table_at_snoc) (simp add: present_def)
  next
    case False
    show ?thesis
    proof (cases "table_at (mem s) (pml4 s) q")
      case None
      then have "q \<noteq> p" using p by auto
      then show ?thesis using None IH False by (simp add: table_at_snoc)
    next
      case (Some u)
      have u: "is_frame u" "u \<noteq> frame_addr f"
        using vmm_tree_is_frame [OF tree q(1) Some] free_not_table [OF inv q(1) Some f] by auto
      have "u = t \<longleftrightarrow> q = p" using vmm_tree_inj [OF tree q(1) p(1) Some] p Some by auto
      then have ent: "pt_entry m' u j = (if q = p \<and> j = i then frame_addr f OR fl else pt_entry (mem s) u j)"
        using upd [OF u(1) j] u(2) by simp
      have "present (frame_addr f OR fl)" using present_or [OF fl(2), of "frame_addr f"] by (simp add: or.commute)
      then show ?thesis using IH False Some ent fl by (auto simp: table_at_snoc entry_addr_or entry_addr_frame)
    qed
  qed
qed

lemma descend_absent:
  assumes inv: "vmm_inv s" and f: "f \<in> free_frames s" and low: "\<forall>g\<in>free_frames s. f \<le> g"
    and p: "valid_path p" "length p < 3" "table_at (mem s) (pml4 s) p = Some t"
    and i: "i < 512" and fl: "fl AND PAGE_MASK = 0" "present fl" and e: "\<not> present (pt_entry (mem s) t i)"
    and z: "\<forall>j<512. pt_entry m1 (frame_addr f) j = 0"
      "\<forall>x. unat x div 4096 \<noteq> f \<longrightarrow> m1 x = mem s x"
  defines "s' \<equiv> put64 (t + 8 * i) (frame_addr f OR fl) ((take_frame f s)\<lparr>mem := m1\<rparr>)"
  shows "grows s s'" "pt_entry (mem s') t i = frame_addr f OR fl"
    "\<And>q. valid_path q \<Longrightarrow> table_at (mem s') (pml4 s) q =
       (if q = p @ [i] then Some (frame_addr f) else table_at (mem s) (pml4 s) q)"
    "free_frames s' = free_frames s - {f}"
proof -
  have tree: "vmm_tree s" and pinv: "pmm_inv s" and wf: "pmm_wf s"
    using inv by (simp_all add: vmm_inv_def pmm_inv_def)
  have t: "is_frame t" "t \<noteq> frame_addr f"
    using vmm_tree_is_frame [OF tree p(1,3)] free_not_table [OF inv p(1,3) f] by auto
  have fb: "f < 32768" "0 < f" using f pmm.avail_range [OF pinv] free_frames_bound by auto
  have m': "mem s' = store64 m1 (t + 8 * i) (frame_addr f OR fl)" by (simp add: s'_def)
  have upd: "pt_entry (mem s') u j =
      (if u = t \<and> j = i then frame_addr f OR fl else if u = frame_addr f then 0 else pt_entry (mem s) u j)"
    if u: "is_frame u" "j < 512" for u j
  proof (cases "u = frame_addr f")
    case True
    then show ?thesis using u t i z(1) by (auto simp: m' pt_entry_store)
  next
    case False
    have "unat u div 4096 \<noteq> f"
    proof
      assume "unat u div 4096 = f"
      then have "unat u = unat (frame_addr f)"
        using is_frame_unat(1) [OF u(1)] fb by (auto simp: unat_frame_addr)
      with False show False by (simp add: word_unat_eq_iff)
    qed
    then have "pt_entry m1 u j = pt_entry (mem s) u j"
      using z(2) by (intro pt_entry_cong [OF u]) simp
    then show ?thesis using False u t i by (auto simp: m' pt_entry_store)
  qed
  show path: "table_at (mem s') (pml4 s) q = (if q = p @ [i] then Some (frame_addr f) else table_at (mem s) (pml4 s) q)"
    if "valid_path q" for q
    by (rule table_at_link [OF inv f p i fl e upd that])
  show "pt_entry (mem s') t i = frame_addr f OR fl" using upd [OF t(1) i] by simp
  show ff: "free_frames s' = free_frames s - {f}"
    using free_frames_take [OF wf fb(1)] by (simp add: s'_def put64_def)
  have pm: "pml4 s' = pml4 s" by (simp add: s'_def put64_def take_frame_def bitmap_set_def Let_def)
  have used: "frame_used s' g \<longleftrightarrow> g = f \<or> frame_used s g" for g
    using frame_used_take [OF wf fb(1)] by (simp add: s'_def put64_def)
  have pinv': "pmm_inv s'" using pmm_inv_take [OF pinv f] by (simp add: s'_def put64_def)
  have old: "table_at (mem s) (pml4 s) (p @ [i]) = None" using p e by (simp add: table_at_snoc)
  have tree': "vmm_tree s'"
    unfolding vmm_tree_def pm
  proof (intro conjI allI impI)
    fix q u assume q: "valid_path q" "table_at (mem s') (pml4 s) q = Some u"
    show "table_frame s' u"
    proof (cases "q = p @ [i]")
      case True
      then show ?thesis using q path fb used by (auto simp: table_frame_def)
    next
      case False
      then have "table_frame s u" using q path vmm_tree_frame [OF tree q(1)] by simp
      then show ?thesis using used by (auto simp: table_frame_def)
    qed
  next
    fix q r u assume q: "valid_path q" "valid_path r"
      "table_at (mem s') (pml4 s) q = Some u" "table_at (mem s') (pml4 s) r = Some u"
    show "q = r"
    proof (cases "q = p @ [i] \<or> r = p @ [i]")
      case True
      then show ?thesis
        using q path [OF q(1)] path [OF q(2)] free_not_table [OF inv _ _ f] by (auto split: if_splits)
    next
      case False
      then show ?thesis using q path [OF q(1)] path [OF q(2)] vmm_tree_inj [OF tree q(1,2)] by simp
    qed
  qed
  have leaf: "pt_entry (mem s') u j = (if table_at (mem s) (pml4 s) q = Some u then pt_entry (mem s) u j else 0)"
    if q: "valid_path q" "length q = 3" "j < 512" "table_at (mem s') (pml4 s) q = Some u" for q u j
  proof (cases "q = p @ [i]")
    case True
    then have "u = frame_addr f" using path [OF q(1)] q(4) by simp
    then show ?thesis using True old upd [OF is_frameI [OF fb(2,1)] q(3)] t by simp
  next
    case False
    then have u: "table_at (mem s) (pml4 s) q = Some u" using path [OF q(1)] q(4) by simp
    have "u \<noteq> t" using vmm_tree_inj [OF tree q(1) p(1) u] p q(2) by auto
    then show ?thesis
      using u upd [OF vmm_tree_is_frame [OF tree q(1) u] q(3)] free_not_table [OF inv q(1) u f] by simp
  qed
  have frames: "table_frames s' \<subseteq> table_frames s \<union> {f}"
  proof
    fix g assume "g \<in> table_frames s'"
    then obtain q where g: "g < 32768" and q: "valid_path q" "table_at (mem s') (pml4 s) q = Some (frame_addr g)"
      by (auto simp: table_frames_def pm)
    show "g \<in> table_frames s \<union> {f}"
    proof (cases "q = p @ [i]")
      case True
      then show ?thesis using path [OF q(1)] q(2) f g fb by (simp add: frame_addr_inj)
    next
      case False
      then show ?thesis using path [OF q(1)] q g by (auto simp: table_frames_def)
    qed
  qed
  have "mem s' x = mem s x" if "unat x div 4096 \<notin> table_frames s \<union> {f}" for x
  proof -
    have "unat x div 4096 \<noteq> unat t div 4096" "unat x div 4096 \<noteq> f"
      using that table_frames_div [OF tree p(1,3)] f by auto
    then show ?thesis using t i z(2) by (simp add: m' store_entry_outside)
  qed
  moreover have "table_at (mem s') (pml4 s) q = Some u" if "valid_path q" "table_at (mem s) (pml4 s) q = Some u" for q u
    using path [OF that(1)] that(2) old by auto
  moreover have "pt_entry (mem s) u j AND pt_entry (mem s') u j = pt_entry (mem s) u j"
    if q: "valid_path q" "j < 512" "table_at (mem s) (pml4 s) q = Some u" "present (pt_entry (mem s) u j)" for q u j
    using upd [OF vmm_tree_is_frame [OF tree q(1,3)] q(2)] free_not_table [OF inv q(1,3) f] q(4) e by auto
  moreover have taken: "free_frames s - free_frames s' = {f}" using ff f by blast
  moreover have "g \<in> free_frames s' \<Longrightarrow> f < g" for g using low ff by (metis DiffD1 DiffD2 le_neq_implies_less singletonI)
  moreover have "free_frames s' \<subseteq> free_frames s" using ff by blast
  ultimately show "grows s s'"
    unfolding grows_def vmm_inv_def taken using pm frames pinv' tree' leaf by (intro conjI) blast+
qed


text \<open>The part of the state the page-table code works on.\<close>

definition same_but_tables :: "'a vmm_state_scheme \<Rightarrow> 'a vmm_state_scheme \<Rightarrow> bool" where
  "same_but_tables s s' \<longleftrightarrow> s' = s\<lparr>mem := mem s', bitmap := bitmap s', used_frames := used_frames s'\<rparr>"

lemma same_but_tables_refl [simp]: "same_but_tables s s"
  by (simp add: same_but_tables_def)

lemma same_but_tables_trans:
  assumes "same_but_tables s s'" "same_but_tables s' s''"
  shows "same_but_tables s s''"
proof -
  obtain m b u where 1: "s' = s\<lparr>mem := m, bitmap := b, used_frames := u\<rparr>"
    using assms(1) unfolding same_but_tables_def by blast
  obtain m' b' u' where 2: "s'' = s'\<lparr>mem := m', bitmap := b', used_frames := u'\<rparr>"
    using assms(2) unfolding same_but_tables_def by blast
  show ?thesis unfolding same_but_tables_def 2 1 by simp
qed

lemma same_but_tables_put64 [simp]: "same_but_tables s (put64 a v s)"
  by (simp add: same_but_tables_def put64_def)

lemma same_but_tables_take [simp]: "same_but_tables s ((take_frame f s)\<lparr>mem := m\<rparr>)"
  by (simp add: same_but_tables_def take_frame_def bitmap_set_def Let_def)

lemma or_and_absorb: "(a OR b) AND b = b" for a b :: "'a::len word"
  by (rule bit_word_eqI) (auto simp: bit_simps)

text \<open>What one step down the tree does, in both cases.\<close>

lemma vmm_descend_cases:
  assumes inv: "vmm_inv s" and p: "valid_path p" "length p < 3" "table_at (mem s) (pml4 s) p = Some t"
    and i: "i < 512" and fl: "fl AND PAGE_MASK = 0" "present fl" and r: "vmm_descend t i fl s = (r, s')"
  obtains (out_of_frames) "r = None" "s' = s" "free_frames s = {}" "table_at (mem s) (pml4 s) (p @ [i]) = None"
  | (stepped) t1 where "r = Some t1" "grows s s'" "same_but_tables s s'"
      "pt_entry (mem s') t i AND fl = fl"
      "\<And>q. valid_path q \<Longrightarrow> table_at (mem s') (pml4 s) q =
         (if q = p @ [i] then Some t1 else table_at (mem s) (pml4 s) q)"
      "card (free_frames s) = card (free_frames s') + (if table_at (mem s) (pml4 s) (p @ [i]) = None then 1 else 0)"
proof (cases "present (pt_entry (mem s) t i)")
  case True
  note D = descend_present [OF inv p i fl(1) True]
  have r': "r = Some (entry_addr (pt_entry (mem s) t i))" "s' = put64 (t + 8 * i) (pt_entry (mem s) t i OR fl) s"
    using r True by (simp_all add: vmm_descend_def present_def pt_entry_def entry_addr_def Let_def)
  have old: "table_at (mem s) (pml4 s) (p @ [i]) = Some (entry_addr (pt_entry (mem s) t i))"
    using p True by (simp add: table_at_snoc)
  show thesis
  proof (rule stepped [OF r'(1)])
    show "pt_entry (mem s') t i AND fl = fl"
      unfolding r'(2) D(2) by (rule or_and_absorb)
    show "grows s s'" unfolding r'(2) by (rule D(1))
    show "same_but_tables s s'" unfolding r'(2) by (rule same_but_tables_put64)
    show "table_at (mem s') (pml4 s) q =
        (if q = p @ [i] then Some (entry_addr (pt_entry (mem s) t i)) else table_at (mem s) (pml4 s) q)"
      if "valid_path q" for q
      unfolding r'(2) D(3) [OF that] using old by simp
    show "card (free_frames s) = card (free_frames s') + (if table_at (mem s) (pml4 s) (p @ [i]) = None then 1 else 0)"
      unfolding r'(2) D(4) old by simp
  qed
next
  case False
  obtain t1 s1 where a: "alloc_table s = (t1, s1)" by fastforce
  have pinv: "pmm_inv s" using inv by (simp add: vmm_inv_def)
  have old: "table_at (mem s) (pml4 s) (p @ [i]) = None" using p False by (simp add: table_at_snoc)
  have step: "vmm_descend t i fl s =
      (if t1 = 0 then (None, s1) else (Some t1, put64 (t + 8 * i) (t1 OR fl) s1))"
    using False a by (simp add: vmm_descend_def present_def pt_entry_def Let_def)
  from pinv a show thesis
  proof (cases rule: alloc_table_cases)
    case 1
    then show thesis using out_of_frames r step old by simp
  next
    case (2 f m')
    have z: "\<forall>j<512. pt_entry m' (frame_addr f) j = 0" "\<forall>x. unat x div 4096 \<noteq> f \<longrightarrow> m' x = mem s x"
      using 2(4,8,9) by blast+
    note D = descend_absent [OF inv 2(1,6) p i fl False z]
    have r': "r = Some (frame_addr f)" "s' = put64 (t + 8 * i) (frame_addr f OR fl) ((take_frame f s)\<lparr>mem := m'\<rparr>)"
      using r step 2(4,5,7) by auto
    show thesis
    proof (rule stepped [OF r'(1)])
      show "pt_entry (mem s') t i AND fl = fl"
        unfolding r'(2) D(2) by (rule or_and_absorb)
      show "same_but_tables s s'"
        unfolding r'(2) by (rule same_but_tables_trans [OF same_but_tables_take same_but_tables_put64])
      show "card (free_frames s) = card (free_frames s') + (if table_at (mem s) (pml4 s) (p @ [i]) = None then 1 else 0)"
        unfolding r'(2) D(4) old using card_Suc_Diff1 [OF finite_free_frames 2(1)] by simp
      show "grows s s'" unfolding r'(2) by (rule D(1))
      show "table_at (mem s') (pml4 s) q = (if q = p @ [i] then Some (frame_addr f) else table_at (mem s) (pml4 s) q)"
        if "valid_path q" for q
        unfolding r'(2) by (rule D(3) [OF that])
    qed
  qed
qed


section \<open>Mapping a page\<close>

lemma grows_refl: "vmm_inv s \<Longrightarrow> grows s s"
  by (auto simp: grows_def)

lemma grows_inv: "grows s s' \<Longrightarrow> vmm_inv s'"
  and grows_pml4: "grows s s' \<Longrightarrow> pml4 s' = pml4 s"
  and grows_free: "grows s s' \<Longrightarrow> free_frames s' \<subseteq> free_frames s"
  and grows_table: "grows s s' \<Longrightarrow> valid_path p \<Longrightarrow> table_at (mem s) (pml4 s) p = Some t \<Longrightarrow>
    table_at (mem s') (pml4 s) p = Some t"
  and grows_leaf: "grows s s' \<Longrightarrow> valid_path p \<Longrightarrow> length p = 3 \<Longrightarrow> j < 512 \<Longrightarrow>
    table_at (mem s') (pml4 s) p = Some t \<Longrightarrow>
    pt_entry (mem s') t j = (if table_at (mem s) (pml4 s) p = Some t then pt_entry (mem s) t j else 0)"
  and grows_entry: "grows s s' \<Longrightarrow> valid_path p \<Longrightarrow> length p < 3 \<Longrightarrow> j < 512 \<Longrightarrow>
    table_at (mem s) (pml4 s) p = Some t \<Longrightarrow> present (pt_entry (mem s) t j) \<Longrightarrow>
    pt_entry (mem s) t j AND pt_entry (mem s') t j = pt_entry (mem s) t j"
  and grows_frames: "grows s s' \<Longrightarrow> table_frames s' \<subseteq> table_frames s \<union> (free_frames s - free_frames s')"
  and grows_lowest: "grows s s' \<Longrightarrow> f \<in> free_frames s - free_frames s' \<Longrightarrow> g \<in> free_frames s' \<Longrightarrow> f < g"
  and grows_mem: "grows s s' \<Longrightarrow> unat x div 4096 \<notin> table_frames s \<union> (free_frames s - free_frames s') \<Longrightarrow> mem s' x = mem s x"
  unfolding grows_def by (elim conjE; blast)+

lemma and_subset_trans: "a AND b = a \<Longrightarrow> b AND c = b \<Longrightarrow> a AND c = a" for a b c :: "'a::len word"
  by (metis and.assoc)

lemma present_bit: "present e \<longleftrightarrow> bit e 0"
  by (simp add: present_def and_one_eq bit_0 odd_iff_mod_2_eq_one)

lemma present_subset: "present a \<Longrightarrow> a AND b = a \<Longrightarrow> present b"
  by (metis bit_and_iff present_bit)

lemma grows_trans:
  assumes 1: "grows s s'" and 2: "grows s' s''"
  shows "grows s s''"
proof -
  have pm: "pml4 s' = pml4 s" "pml4 s'' = pml4 s" using grows_pml4 [OF 1] grows_pml4 [OF 2] by simp_all
  have "table_at (mem s'') (pml4 s) p = Some t" if "valid_path p" "table_at (mem s) (pml4 s) p = Some t" for p t
    using grows_table [OF 1 that] grows_table [OF 2 that(1)] pm by simp
  moreover have "pt_entry (mem s'') t j = (if table_at (mem s) (pml4 s) p = Some t then pt_entry (mem s) t j else 0)"
    if p: "valid_path p" "length p = 3" "j < 512" "table_at (mem s'') (pml4 s) p = Some t" for p t j
    using grows_leaf [OF 2 p(1,2,3)] grows_leaf [OF 1 p(1,2,3)] grows_table [OF 1 p(1)] p(4) pm by auto
  moreover have "pt_entry (mem s) t j AND pt_entry (mem s'') t j = pt_entry (mem s) t j"
    if p: "valid_path p" "length p < 3" "j < 512" "table_at (mem s) (pml4 s) p = Some t"
      "present (pt_entry (mem s) t j)" for p t j
  proof -
    note a = grows_entry [OF 1 p]
    have "pt_entry (mem s') t j AND pt_entry (mem s'') t j = pt_entry (mem s') t j"
      using grows_entry [OF 2 p(1,2,3)] grows_table [OF 1 p(1,4)] present_subset [OF p(5) a] pm by simp
    with a show ?thesis by (rule and_subset_trans)
  qed
  moreover have "table_frames s'' \<subseteq> table_frames s \<union> (free_frames s - free_frames s'')"
    using grows_frames [OF 1] grows_frames [OF 2] grows_free [OF 1] grows_free [OF 2] by blast
  moreover have "mem s'' x = mem s x" if "unat x div 4096 \<notin> table_frames s \<union> (free_frames s - free_frames s'')" for x
  proof -
    have "unat x div 4096 \<notin> table_frames s' \<union> (free_frames s' - free_frames s'')"
      "unat x div 4096 \<notin> table_frames s \<union> (free_frames s - free_frames s')"
      using that grows_frames [OF 1] grows_free [OF 1] grows_free [OF 2] by blast+
    with grows_mem [OF 2] grows_mem [OF 1] show ?thesis by simp
  qed
  moreover have "f < g" if "f \<in> free_frames s - free_frames s''" "g \<in> free_frames s''" for f g
    using that grows_lowest [OF 1] grows_lowest [OF 2] grows_free [OF 2] by blast
  moreover have "free_frames s'' \<subseteq> free_frames s" using grows_free [OF 1] grows_free [OF 2] by blast
  ultimately show ?thesis
    unfolding grows_def using pm grows_inv [OF 2] by (intro conjI) blast+
qed

text \<open>
  The path of a page, the number of its tables that do not exist yet, and its entry at
  the last level (zero without a table).
\<close>

definition page_path :: "u64 \<Rightarrow> u64 list" where
  "page_path virt = [PML4_INDEX virt, PDPT_INDEX virt, PD_INDEX virt]"

definition missing_tables :: "u64 \<Rightarrow> 'a vmm_state_scheme \<Rightarrow> nat" where
  "missing_tables virt s =
     (if table_at (mem s) (pml4 s) [PML4_INDEX virt] = None then 1 else 0) +
     (if table_at (mem s) (pml4 s) [PML4_INDEX virt, PDPT_INDEX virt] = None then 1 else 0) +
     (if table_at (mem s) (pml4 s) (page_path virt) = None then 1 else 0)"

definition vmm_leaf :: "'a vmm_state_scheme \<Rightarrow> u64 \<Rightarrow> u64" where
  "vmm_leaf s virt =
     (case table_at (mem s) (pml4 s) (page_path virt) of
        None \<Rightarrow> 0
      | Some pt \<Rightarrow> pt_entry (mem s) pt (PT_INDEX virt))"

lemma index_less [simp]:
  "PML4_INDEX virt < 512" "PDPT_INDEX virt < 512" "PD_INDEX virt < 512" "PT_INDEX virt < 512"
proof -
  have "x AND 0x1FF < 512" for x :: u64
    using unat_and_mask [of x 9] by (simp add: word_less_nat_alt mask_eq_exp_minus_1)
  then show "PML4_INDEX virt < 512" "PDPT_INDEX virt < 512" "PD_INDEX virt < 512" "PT_INDEX virt < 512"
    by (simp_all add: PML4_INDEX_def PDPT_INDEX_def PD_INDEX_def PT_INDEX_def)
qed

lemma valid_page_path [simp]: "valid_path (page_path virt)" "length (page_path virt) = 3"
  by (simp_all add: page_path_def valid_path_def)

lemma table_at_None_ext: "table_at m t p = None \<Longrightarrow> table_at m t (p @ q) = None"
  by (simp add: table_at_append)

definition table_flags :: "u32 \<Rightarrow> u64" where
  "table_flags flags = 1 OR 2 OR (if flags AND VMM_FLAG_USER \<noteq> 0 then 4 else 0)"

lemma table_flags_mask: "table_flags flags AND PAGE_MASK = 0" and table_flags_present: "present (table_flags flags)"
  by (simp_all add: table_flags_def PAGE_MASK_def present_def)


text \<open>The three steps of \<open>vmm_map_page\<close> together.\<close>

lemma vmm_map_page_eq:
  "vmm_map_page virt phys flags s =
     (case vmm_descend (pml4 s) (PML4_INDEX virt) (table_flags flags) s of
        (None, s) \<Rightarrow> s
      | (Some pdpt, s) \<Rightarrow>
        (case vmm_descend pdpt (PDPT_INDEX virt) (table_flags flags) s of
           (None, s) \<Rightarrow> s
         | (Some pd, s) \<Rightarrow>
           (case vmm_descend pd (PD_INDEX virt) (table_flags flags) s of
              (None, s) \<Rightarrow> s
            | (Some pt, s) \<Rightarrow>
              put64 (pt + 8 * PT_INDEX virt) ((phys AND PAGE_MASK) OR ucast flags) s)))"
  unfolding vmm_map_page_def table_flags_def Let_def ..

lemma flags_kept:
  assumes "grows s s'" "valid_path p" "length p < 3" "j < 512" "table_at (mem s) (pml4 s) p = Some t"
    and "pt_entry (mem s) t j AND fl = fl" "present fl"
  shows "pt_entry (mem s') t j AND fl = fl"
proof -
  have "fl AND pt_entry (mem s) t j = fl" using assms(6) by (simp add: and.commute)
  then have "present (pt_entry (mem s) t j)" using assms(7) present_subset by blast
  then have "fl AND pt_entry (mem s') t j = fl"
    using and_subset_trans [OF \<open>fl AND pt_entry (mem s) t j = fl\<close>] grows_entry [OF assms(1-5)] by blast
  then show ?thesis by (simp add: and.commute)
qed

lemma vmm_map_page_cases:
  assumes inv: "vmm_inv s"
  obtains (failed) "grows s (vmm_map_page virt phys flags s)" "same_but_tables s (vmm_map_page virt phys flags s)"
      "free_frames (vmm_map_page virt phys flags s) = {}" "card (free_frames s) < missing_tables virt s"
  | (mapped) s3 pdpt pd pt where "grows s s3" "same_but_tables s s3"
      "vmm_map_page virt phys flags s = put64 (pt + 8 * PT_INDEX virt) ((phys AND PAGE_MASK) OR ucast flags) s3"
      "table_at (mem s3) (pml4 s) [PML4_INDEX virt] = Some pdpt"
      "table_at (mem s3) (pml4 s) [PML4_INDEX virt, PDPT_INDEX virt] = Some pd"
      "table_at (mem s3) (pml4 s) (page_path virt) = Some pt"
      "pt_entry (mem s3) (pml4 s) (PML4_INDEX virt) AND table_flags flags = table_flags flags"
      "pt_entry (mem s3) pdpt (PDPT_INDEX virt) AND table_flags flags = table_flags flags"
      "pt_entry (mem s3) pd (PD_INDEX virt) AND table_flags flags = table_flags flags"
      "card (free_frames s) = card (free_frames s3) + missing_tables virt s"
      "\<And>q. valid_path q \<Longrightarrow> q \<noteq> [PML4_INDEX virt] \<Longrightarrow> q \<noteq> [PML4_INDEX virt, PDPT_INDEX virt] \<Longrightarrow>
         q \<noteq> page_path virt \<Longrightarrow> table_at (mem s3) (pml4 s) q = table_at (mem s) (pml4 s) q"
proof -
  let ?i4 = "PML4_INDEX virt" and ?i3 = "PDPT_INDEX virt" and ?i2 = "PD_INDEX virt" and ?fl = "table_flags flags"
  have v1: "valid_path [?i4]" and v2: "valid_path [?i4, ?i3]" by (simp_all add: valid_path_def)
  note fl = table_flags_mask table_flags_present
  obtain r1 s1 where d1: "vmm_descend (pml4 s) ?i4 ?fl s = (r1, s1)" by fastforce
  have len: "length ([] :: u64 list) < 3" "length [?i4] < 3" "length [?i4, ?i3] < 3" by simp_all
  have root: "table_at (mem s) (pml4 s) [] = Some (pml4 s)" by simp
  from inv valid_path_Nil len(1) root index_less(1) fl d1 show thesis
  proof (cases rule: vmm_descend_cases)
    case out_of_frames
    then have "vmm_map_page virt phys flags s = s" using d1 by (simp add: vmm_map_page_eq)
    then show thesis using out_of_frames inv
      by (intro failed) (simp_all add: grows_refl missing_tables_def)
  next
    case (stepped pdpt)
    note S1 = stepped
    have pm1: "pml4 s1 = pml4 s" using grows_pml4 [OF S1(2)] .
    have inv1: "vmm_inv s1" using grows_inv [OF S1(2)] .
    have t1: "table_at (mem s1) (pml4 s1) [?i4] = Some pdpt" using S1(5) [OF v1] pm1 by simp
    have old1: "table_at (mem s1) (pml4 s) [?i4, ?i3] = table_at (mem s) (pml4 s) [?i4, ?i3]"
      using S1(5) [OF v2] by simp
    obtain r2 s2 where d2: "vmm_descend pdpt ?i3 ?fl s1 = (r2, s2)" by fastforce
    from inv1 v1 len(2) t1 index_less(2) fl d2 show thesis
    proof (cases rule: vmm_descend_cases)
      case out_of_frames
      then have m: "vmm_map_page virt phys flags s = s1" using d1 d2 S1(1) by (simp add: vmm_map_page_eq)
      show thesis
      proof (rule failed)
        show "card (free_frames s) < missing_tables virt s"
          using S1(6) out_of_frames(3,4) old1 pm1 by (simp add: missing_tables_def)
      qed (use S1(2,3) out_of_frames(3) in \<open>simp_all add: m\<close>)
    next
      case (stepped pd)
      note S2 = stepped
      have g2: "grows s s2" using grows_trans [OF S1(2) S2(2)] .
      have b2: "same_but_tables s s2" using same_but_tables_trans [OF S1(3) S2(3)] .
      have pm2: "pml4 s2 = pml4 s" using grows_pml4 [OF g2] .
      have inv2: "vmm_inv s2" using grows_inv [OF g2] .
      have t2: "table_at (mem s2) (pml4 s2) [?i4, ?i3] = Some pd" using S2(5) [OF v2] pm1 pm2 by simp
      have old2: "table_at (mem s2) (pml4 s) (page_path virt) = table_at (mem s) (pml4 s) (page_path virt)"
        using S2(5) [OF valid_page_path(1)] S1(5) [OF valid_page_path(1)] pm1 by (simp add: page_path_def)
      have c2: "card (free_frames s) = card (free_frames s2) +
          (if table_at (mem s) (pml4 s) [?i4] = None then 1 else 0) +
          (if table_at (mem s) (pml4 s) [?i4, ?i3] = None then 1 else 0)"
        using S1(6) S2(6) old1 pm1 by simp
      obtain r3 s3 where d3: "vmm_descend pd ?i2 ?fl s2 = (r3, s3)" by fastforce
      from inv2 v2 len(3) t2 index_less(3) fl d3 show thesis
      proof (cases rule: vmm_descend_cases)
        case out_of_frames
        then have m: "vmm_map_page virt phys flags s = s2"
          using d1 d2 d3 S1(1) S2(1) by (simp add: vmm_map_page_eq)
        show thesis
        proof (rule failed)
          show "card (free_frames s) < missing_tables virt s"
            using c2 out_of_frames(3,4) old2 pm2 by (simp add: missing_tables_def page_path_def)
        qed (use g2 b2 out_of_frames(3) in \<open>simp_all add: m\<close>)
      next
        case (stepped pt)
        note S3 = stepped
        have p3: "table_at (mem s3) (pml4 s) q = (if q = page_path virt then Some pt else table_at (mem s2) (pml4 s) q)"
          if "valid_path q" for q
          using S3(5) [OF that] pm2 by (simp add: page_path_def)
        have p2: "table_at (mem s2) (pml4 s) q = (if q = [?i4, ?i3] then Some pd else table_at (mem s1) (pml4 s) q)"
          if "valid_path q" for q
          using S2(5) [OF that] pm1 by simp
        have tt: "table_at (mem s2) (pml4 s) [?i4] = Some pdpt" using p2 [OF v1] t1 pm1 by simp
        have f1: "pt_entry (mem s2) (pml4 s) ?i4 AND ?fl = ?fl"
          using flags_kept [OF S2(2) valid_path_Nil _ _ _ S1(4)] pm1 fl by simp
        show thesis
        proof (rule mapped)
          show "vmm_map_page virt phys flags s =
              put64 (pt + 8 * PT_INDEX virt) ((phys AND PAGE_MASK) OR ucast flags) s3"
            using d1 d2 d3 S1(1) S2(1) S3(1) by (simp add: vmm_map_page_eq)
          show "table_at (mem s3) (pml4 s) [?i4] = Some pdpt"
            using p3 [OF v1] tt by (simp add: page_path_def)
          show "table_at (mem s3) (pml4 s) [?i4, ?i3] = Some pd"
            using p3 [OF v2] t2 pm2 by (simp add: page_path_def)
          show "table_at (mem s3) (pml4 s) (page_path virt) = Some pt" using p3 by simp
          show "pt_entry (mem s3) (pml4 s) ?i4 AND ?fl = ?fl"
            using flags_kept [OF S3(2) valid_path_Nil _ _ _ f1] pm2 fl by simp
          show "pt_entry (mem s3) pdpt ?i3 AND ?fl = ?fl"
            using flags_kept [OF S3(2) v1 _ _ _ S2(4)] tt pm2 fl by simp
          show "pt_entry (mem s3) pd ?i2 AND ?fl = ?fl" by (rule S3(4))
          show "card (free_frames s) = card (free_frames s3) + missing_tables virt s"
            using c2 S3(6) old2 pm2 by (simp add: missing_tables_def page_path_def)
          show "table_at (mem s3) (pml4 s) q = table_at (mem s) (pml4 s) q"
            if "valid_path q" "q \<noteq> [?i4]" "q \<noteq> [?i4, ?i3]" "q \<noteq> page_path virt" for q
            using that p3 [OF that(1)] p2 [OF that(1)] S1(5) [OF that(1)] by simp
        qed (rule grows_trans [OF g2 S3(2)], rule same_but_tables_trans [OF b2 S3(3)])
      qed
    qed
  qed
qed


text \<open>Writing an entry of the last level.\<close>

lemma leaf_store:
  assumes inv: "vmm_inv s" and p: "valid_path p" "length p = 3" "table_at (mem s) (pml4 s) p = Some pt"
    and i: "i < 512"
  shows "\<And>q. valid_path q \<Longrightarrow> table_at (mem (put64 (pt + 8 * i) v s)) (pml4 s) q = table_at (mem s) (pml4 s) q"
    "vmm_inv (put64 (pt + 8 * i) v s)" "table_frames (put64 (pt + 8 * i) v s) = table_frames s"
    "\<And>q u j. valid_path q \<Longrightarrow> table_at (mem s) (pml4 s) q = Some u \<Longrightarrow> j < 512 \<Longrightarrow>
       pt_entry (mem (put64 (pt + 8 * i) v s)) u j = (if q = p \<and> j = i then v else pt_entry (mem s) u j)"
    "\<And>x. unat x div 4096 \<notin> table_frames s \<Longrightarrow> mem (put64 (pt + 8 * i) v s) x = mem s x"
proof -
  let ?s = "put64 (pt + 8 * i) v s"
  have tree: "vmm_tree s" and pinv: "pmm_inv s" using inv by (simp_all add: vmm_inv_def)
  have f: "is_frame pt" using vmm_tree_is_frame [OF tree p(1,3)] .
  show entry: "pt_entry (mem ?s) u j = (if q = p \<and> j = i then v else pt_entry (mem s) u j)"
    if q: "valid_path q" "table_at (mem s) (pml4 s) q = Some u" "j < 512" for q u j
  proof -
    have "u = pt \<longleftrightarrow> q = p" using vmm_tree_inj [OF tree q(1) p(1) q(2)] q(2) p(3) by auto
    then show ?thesis using f i vmm_tree_is_frame [OF tree q(1,2)] q(3) by (simp add: pt_entry_store)
  qed
  show path: "table_at (mem ?s) (pml4 s) q = table_at (mem s) (pml4 s) q" if q: "valid_path q" for q
  proof (rule table_at_cong)
    fix q' j u assume ex: "\<exists>r. q = q' @ j # r" and u: "table_at (mem s) (pml4 s) q' = Some u"
    then have q': "valid_path q'" "length q' < 3" "j < 512" using q valid_path_mid by blast+
    have "pt_entry (mem ?s) u j = pt_entry (mem s) u j" using entry [OF q'(1) u q'(3)] p(2) q'(2) by auto
    then show "present (pt_entry (mem ?s) u j) = present (pt_entry (mem s) u j) \<and>
       (present (pt_entry (mem s) u j) \<longrightarrow> entry_addr (pt_entry (mem ?s) u j) = entry_addr (pt_entry (mem s) u j))"
      by simp
  qed
  have pm: "pml4 ?s = pml4 s" by (simp add: put64_def)
  have "vmm_tree ?s"
  proof (rule vmm_tree_cong [OF _ _ tree])
    show "table_at (mem ?s) (pml4 ?s) q = table_at (mem s) (pml4 s) q" if "valid_path q" for q
      unfolding pm by (rule path [OF that])
  qed (simp add: put64_def)
  then show "vmm_inv ?s" using pinv by (simp add: vmm_inv_def put64_def)
  show "table_frames ?s = table_frames s"
  proof (rule table_frames_cong)
    show "table_at (mem ?s) (pml4 ?s) q = table_at (mem s) (pml4 s) q" if "valid_path q" for q
      unfolding pm by (rule path [OF that])
  qed
  show "mem ?s x = mem s x" if "unat x div 4096 \<notin> table_frames s" for x
  proof -
    have "unat x div 4096 \<noteq> unat pt div 4096" using that table_frames_div [OF tree p(1,3)] by auto
    then show ?thesis using f i by (simp add: store_entry_outside)
  qed
qed

text \<open>
  Two addresses are on the same page when they agree on bits 12 to 47, the bits the
  tables are indexed by.
\<close>

definition same_page :: "u64 \<Rightarrow> u64 \<Rightarrow> bool" where
  "same_page a b \<longleftrightarrow> take_bit 36 (drop_bit 12 a) = take_bit 36 (drop_bit 12 b)"

lemma field_eq_iff:
  fixes a b :: "'a::len word"
  assumes "m \<le> LENGTH('a)"
  shows "take_bit m (drop_bit k a) = take_bit m (drop_bit k b) \<longleftrightarrow> (\<forall>n. k \<le> n \<and> n < k + m \<longrightarrow> bit a n = bit b n)"
    (is "?L = ?R")
proof
  have field: "bit (take_bit m (drop_bit k w)) (n - k) = bit w n" if "k \<le> n" "n < k + m" for w :: "'a word" and n
    using that by (simp add: bit_take_bit_iff bit_drop_bit_eq less_diff_conv2 add.commute)
  assume L: ?L
  show ?R
  proof (intro allI impI)
    fix n assume "k \<le> n \<and> n < k + m"
    then show "bit a n = bit b n" using field [of n a] field [of n b] L by simp
  qed
next
  assume R: ?R
  show ?L
  proof (rule bit_word_eqI)
    fix n assume "n < LENGTH('a)"
    show "bit (take_bit m (drop_bit k a)) n = bit (take_bit m (drop_bit k b)) n"
      using R by (cases "n < m") (simp_all add: bit_take_bit_iff bit_drop_bit_eq)
  qed
qed

lemma nine_bits:
  "drop_bit k a AND 0x1FF = (drop_bit k b AND 0x1FF :: u64) \<longleftrightarrow> (\<forall>n. k \<le> n \<and> n < k + 9 \<longrightarrow> bit a n = bit b n)"
proof -
  have "(0x1FF :: u64) = mask 9" by (simp add: mask_eq_exp_minus_1)
  then show ?thesis using field_eq_iff [of 9 k a b] by (simp add: take_bit_eq_mask)
qed

lemma same_page_iff: "same_page a b \<longleftrightarrow> page_path a = page_path b \<and> PT_INDEX a = PT_INDEX b"
proof -
  have "(\<forall>n. 12 \<le> n \<and> n < 12 + 36 \<longrightarrow> P n) \<longleftrightarrow>
      ((\<forall>n. 39 \<le> n \<and> n < 39 + 9 \<longrightarrow> P n) \<and> (\<forall>n. 30 \<le> n \<and> n < 30 + 9 \<longrightarrow> P n) \<and>
       (\<forall>n. 21 \<le> n \<and> n < 21 + 9 \<longrightarrow> P n)) \<and> (\<forall>n. 12 \<le> n \<and> n < 12 + 9 \<longrightarrow> P n)"
    (is "?L = ?R") for P :: "nat \<Rightarrow> bool"
  proof
    assume R: ?R
    show ?L
    proof (intro allI impI)
      fix n :: nat assume "12 \<le> n \<and> n < 12 + 36"
      then consider "12 \<le> n \<and> n < 12 + 9" | "21 \<le> n \<and> n < 21 + 9" | "30 \<le> n \<and> n < 30 + 9" | "39 \<le> n \<and> n < 39 + 9"
        by linarith
      then show "P n" using R by cases blast+
    qed
  qed simp
  then show ?thesis
    unfolding same_page_def
    by (simp add: field_eq_iff page_path_def PML4_INDEX_def PDPT_INDEX_def PD_INDEX_def PT_INDEX_def nine_bits
        del: numeral_plus_numeral)
qed

lemma same_page_refl [simp]: "same_page a a"
  by (simp add: same_page_def)

lemma same_page_div:
  assumes "unat a < 2 ^ 48" "unat b < 2 ^ 48"
  shows "same_page a b \<longleftrightarrow> unat a div 4096 = unat b div 4096"
proof -
  have *: "unat (take_bit 36 (drop_bit 12 x)) = unat x div 4096" if "unat x < 2 ^ 48" for x :: u64
  proof -
    have "unat (take_bit 36 (drop_bit 12 x)) = unat (drop_bit 12 x) mod 2 ^ 36"
      by (simp only: take_bit_eq_mask unat_and_mask)
    also have "\<dots> = unat x div 4096 mod 2 ^ 36" by (simp add: unat_shiftr)
    also have "\<dots> = unat x div 4096" using that by (intro mod_less) (simp add: div_less_iff_less_mult)
    finally show ?thesis .
  qed
  show ?thesis unfolding same_page_def word_unat_eq_iff * [OF assms(1)] * [OF assms(2)] ..
qed


section \<open>What the processor sees\<close>

text \<open>
  The four-level walk of the processor, from the root in \<open>CR3\<close>: the physical address, and
  the write and user rights (bits 1 and 2), which must be granted on every level. Large
  pages do not occur, since the kernel sets no other flags in the upper levels.
\<close>

definition mmu_walk :: "memory \<Rightarrow> u64 \<Rightarrow> u64 \<Rightarrow> (u64 \<times> u64) option" where
  "mmu_walk m root virt =
     (let e4 = pt_entry m root (PML4_INDEX virt);
          e3 = pt_entry m (entry_addr e4) (PDPT_INDEX virt);
          e2 = pt_entry m (entry_addr e3) (PD_INDEX virt);
          e1 = pt_entry m (entry_addr e2) (PT_INDEX virt)
      in if present e4 \<and> present e3 \<and> present e2 \<and> present e1
         then Some (entry_addr e1 OR (virt AND 0xFFF), e4 AND e3 AND e2 AND e1 AND 6)
         else None)"

text \<open>The rights of the upper three levels.\<close>

definition path_rights :: "memory \<Rightarrow> u64 \<Rightarrow> u64 \<Rightarrow> u64" where
  "path_rights m root virt =
     (let e4 = pt_entry m root (PML4_INDEX virt);
          e3 = pt_entry m (entry_addr e4) (PDPT_INDEX virt);
          e2 = pt_entry m (entry_addr e3) (PD_INDEX virt)
      in e4 AND e3 AND e2)"

text \<open>What the leaf entry alone says, and that the upper levels never say less.\<close>

definition translation :: "u64 \<Rightarrow> u64 \<Rightarrow> (u64 \<times> u64) option" where
  "translation virt e = (if present e then Some (entry_addr e OR (virt AND 0xFFF), e AND 6) else None)"

definition mmu_exact :: "'a vmm_state_scheme \<Rightarrow> bool" where
  "mmu_exact s \<longleftrightarrow> (\<forall>virt. present (vmm_leaf s virt) \<longrightarrow>
     vmm_leaf s virt AND 6 AND path_rights (mem s) (pml4 s) virt = vmm_leaf s virt AND 6)"

definition vmm_ok :: "'a vmm_state_scheme \<Rightarrow> bool" where
  "vmm_ok s \<longleftrightarrow> vmm_inv s \<and> mmu_exact s"

lemma mmu_walk_leaf:
  "mmu_walk (mem s) (pml4 s) virt =
     (if present (vmm_leaf s virt)
      then Some (entry_addr (vmm_leaf s virt) OR (virt AND 0xFFF),
                 path_rights (mem s) (pml4 s) virt AND vmm_leaf s virt AND 6)
      else None)"
  by (simp add: mmu_walk_def path_rights_def vmm_leaf_def page_path_def Let_def and.assoc present_def)

lemma mmu_exact_walk:
  assumes "mmu_exact s"
  shows "mmu_walk (mem s) (pml4 s) virt = translation virt (vmm_leaf s virt)"
proof (cases "present (vmm_leaf s virt)")
  case True
  then have "vmm_leaf s virt AND 6 AND path_rights (mem s) (pml4 s) virt = vmm_leaf s virt AND 6"
    using assms by (simp add: mmu_exact_def)
  then show ?thesis using True by (simp add: mmu_walk_leaf translation_def and.commute and.left_commute)
qed (simp add: mmu_walk_leaf translation_def)

lemma page_path_tables:
  assumes "table_at m root (page_path virt) = Some pt"
  shows "present (pt_entry m root (PML4_INDEX virt))"
    "table_at m root [PML4_INDEX virt] = Some (entry_addr (pt_entry m root (PML4_INDEX virt)))"
    "table_at m root [PML4_INDEX virt, PDPT_INDEX virt] =
       Some (entry_addr (pt_entry m (entry_addr (pt_entry m root (PML4_INDEX virt))) (PDPT_INDEX virt)))"
    "present (pt_entry m (entry_addr (pt_entry m root (PML4_INDEX virt))) (PDPT_INDEX virt))"
    "present (pt_entry m (entry_addr (pt_entry m (entry_addr (pt_entry m root (PML4_INDEX virt))) (PDPT_INDEX virt))) (PD_INDEX virt))"
  using assms by (simp_all add: page_path_def split: if_splits)

lemma upper_valid: "valid_path [PML4_INDEX virt]" "valid_path [PML4_INDEX virt, PDPT_INDEX virt]"
  by (simp_all add: valid_path_def)

lemma and_mono3:
  "a AND a' = a \<Longrightarrow> b AND b' = b \<Longrightarrow> c AND c' = c \<Longrightarrow> (a AND b AND c) AND (a' AND b' AND c') = a AND b AND c"
  for a b c :: "'a::len word"
  by (rule bit_word_eqI) (metis bit_and_iff)

lemma grows_path_rights:
  assumes g: "grows s s'" and p: "table_at (mem s) (pml4 s) (page_path virt) = Some pt"
  shows "path_rights (mem s) (pml4 s) virt AND path_rights (mem s') (pml4 s) virt = path_rights (mem s) (pml4 s) virt"
proof -
  note t = page_path_tables [OF p]
  have p': "table_at (mem s') (pml4 s) (page_path virt) = Some pt"
    by (rule grows_table [OF g valid_page_path(1) p])
  note t' = page_path_tables [OF p']
  have a4: "entry_addr (pt_entry (mem s') (pml4 s) (PML4_INDEX virt)) = entry_addr (pt_entry (mem s) (pml4 s) (PML4_INDEX virt))"
    using grows_table [OF g upper_valid(1) t(2)] t'(2) by simp
  have a3: "entry_addr (pt_entry (mem s') (entry_addr (pt_entry (mem s) (pml4 s) (PML4_INDEX virt))) (PDPT_INDEX virt)) =
      entry_addr (pt_entry (mem s) (entry_addr (pt_entry (mem s) (pml4 s) (PML4_INDEX virt))) (PDPT_INDEX virt))"
    using grows_table [OF g upper_valid(2) t(3)] t'(3) unfolding a4 by simp
  have "length [PML4_INDEX virt] < 3" "length [PML4_INDEX virt, PDPT_INDEX virt] < 3" "length ([] :: u64 list) < 3"
    "table_at (mem s) (pml4 s) [] = Some (pml4 s)"
    by simp_all
  then show ?thesis
    unfolding path_rights_def Let_def a4 a3
    by (intro and_mono3 grows_entry [OF g valid_path_Nil _ _ _ t(1)] grows_entry [OF g upper_valid(1) _ _ t(2,4)]
        grows_entry [OF g upper_valid(2) _ _ t(3,5)] index_less)
qed

lemma grows_vmm_leaf:
  assumes "grows s s'"
  shows "vmm_leaf s' virt = vmm_leaf s virt"
proof (cases "table_at (mem s') (pml4 s) (page_path virt)")
  case None
  then have "table_at (mem s) (pml4 s) (page_path virt) = None"
    using grows_table [OF assms valid_page_path(1)] by (metis not_None_eq)
  with None grows_pml4 [OF assms] show ?thesis by (simp add: vmm_leaf_def)
next
  case (Some pt)
  have "table_at (mem s) (pml4 s) (page_path virt) = None \<or> table_at (mem s) (pml4 s) (page_path virt) = Some pt"
    using grows_table [OF assms valid_page_path(1)] Some by (metis not_None_eq)
  then show ?thesis
    using grows_leaf [OF assms valid_page_path index_less(4) Some] Some grows_pml4 [OF assms]
    by (auto simp: vmm_leaf_def)
qed

lemma grows_mmu_exact:
  assumes g: "grows s s'" and e: "mmu_exact s"
  shows "mmu_exact s'"
  unfolding mmu_exact_def
proof (intro allI impI)
  fix virt assume "present (vmm_leaf s' virt)"
  then have pr: "present (vmm_leaf s virt)" using grows_vmm_leaf [OF g] by simp
  then obtain pt where pt: "table_at (mem s) (pml4 s) (page_path virt) = Some pt"
    by (auto simp: vmm_leaf_def present_def split: option.splits)
  from pr e have "vmm_leaf s virt AND 6 AND path_rights (mem s) (pml4 s) virt = vmm_leaf s virt AND 6"
    by (simp add: mmu_exact_def)
  then have "(vmm_leaf s virt AND 6) AND path_rights (mem s) (pml4 s) virt = vmm_leaf s virt AND 6"
    by (simp add: and.assoc)
  from and_subset_trans [OF this grows_path_rights [OF g pt]]
  show "vmm_leaf s' virt AND 6 AND path_rights (mem s') (pml4 s') virt = vmm_leaf s' virt AND 6"
    unfolding grows_vmm_leaf [OF g] grows_pml4 [OF g] by (simp add: and.assoc)
qed

lemma leaf_store_leaf:
  fixes v :: u64
  assumes inv: "vmm_inv s" and pt: "table_at (mem s) (pml4 s) (page_path virt) = Some pt"
  defines "s' \<equiv> put64 (pt + 8 * PT_INDEX virt) v s"
  shows "vmm_leaf s' va = (if same_page va virt then v else vmm_leaf s va)"
    and "table_at (mem s) (pml4 s) (page_path va) = Some u \<Longrightarrow>
      path_rights (mem s') (pml4 s) va = path_rights (mem s) (pml4 s) va"
proof -
  note L = leaf_store [OF inv valid_page_path pt index_less(4) [of virt], where v = v, folded s'_def]
  have pm: "pml4 s' = pml4 s" by (simp add: s'_def put64_def)
  show "vmm_leaf s' va = (if same_page va virt then v else vmm_leaf s va)"
  proof (cases "table_at (mem s) (pml4 s) (page_path va)")
    case None
    then have "page_path va \<noteq> page_path virt" using pt by auto
    then show ?thesis using None L(1) [OF valid_page_path(1) [of va]] by (simp add: vmm_leaf_def pm same_page_iff)
  next
    case (Some u)
    then show ?thesis
      using L(1) [OF valid_page_path(1) [of va]] L(4) [OF valid_page_path(1) Some index_less(4)]
      by (simp add: vmm_leaf_def pm same_page_iff)
  qed
  assume u: "table_at (mem s) (pml4 s) (page_path va) = Some u"
  note t = page_path_tables [OF u]
  have root: "table_at (mem s) (pml4 s) [] = Some (pml4 s)" by simp
  have "[] \<noteq> page_path virt" "[PML4_INDEX va] \<noteq> page_path virt" "[PML4_INDEX va, PDPT_INDEX va] \<noteq> page_path virt"
    by (simp_all add: page_path_def)
  then show "path_rights (mem s') (pml4 s) va = path_rights (mem s) (pml4 s) va"
    using L(4) [OF valid_path_Nil root index_less(1)] L(4) [OF upper_valid(1) t(2) index_less(2)]
      L(4) [OF upper_valid(2) t(3) index_less(3)]
    by (simp add: path_rights_def Let_def)
qed


section \<open>The address space\<close>

lemma leaf_rights: "((phys AND PAGE_MASK) OR ucast flags) AND 6 = (ucast flags AND 6 :: u64)"
  by (simp add: bit.conj_disj_distrib2 PAGE_MASK_def and.assoc)

lemma flags_in_table_flags: "ucast flags AND 6 AND table_flags flags = (ucast flags AND 6 :: u64)"
proof (cases "flags AND 4 = 0")
  case True
  have "(ucast flags AND 4 :: u64) = ucast (flags AND 4)" by (rule bit_word_eqI) (auto simp: bit_simps dest: bit_imp_le_length)
  also have "\<dots> = 0" using True by simp
  finally have 4: "(ucast flags AND 4 :: u64) = 0" .
  have "(ucast flags AND 6 :: u64) = ucast flags AND (2 OR 4)" by simp
  also have "\<dots> = (ucast flags AND 2) OR (ucast flags AND 4)" by (rule bit.conj_disj_distrib)
  finally have "(ucast flags AND 6 :: u64) = ucast flags AND 2" using 4 by simp
  then show ?thesis using True by (simp add: table_flags_def)
next
  case False
  then show ?thesis by (simp add: table_flags_def)
qed

text \<open>
  \<open>evolves s s'\<close>: what the tables and the frames may do while the kernel runs. The tables
  only grow, frames are taken from the lowest, nothing but the memory of the tables and of
  frames taken is written and nothing but memory and the frame allocator changes.
\<close>

definition evolves :: "'a vmm_state_scheme \<Rightarrow> 'a vmm_state_scheme \<Rightarrow> bool" where
  "evolves s s' \<longleftrightarrow> vmm_ok s' \<and> same_but_tables s s' \<and> free_frames s' \<subseteq> free_frames s \<and>
     table_frames s' \<subseteq> table_frames s \<union> (free_frames s - free_frames s') \<and>
     (\<forall>f g. f \<in> free_frames s - free_frames s' \<longrightarrow> g \<in> free_frames s' \<longrightarrow> f < g) \<and>
     (\<forall>x. unat x div 4096 \<notin> table_frames s \<union> (free_frames s - free_frames s') \<longrightarrow> mem s' x = mem s x) \<and>
     (\<forall>q t. valid_path q \<longrightarrow> table_at (mem s) (pml4 s) q = Some t \<longrightarrow> table_at (mem s') (pml4 s) q = Some t)"

lemma evolves_ok: "evolves s s' \<Longrightarrow> vmm_ok s'"
  and evolves_same: "evolves s s' \<Longrightarrow> same_but_tables s s'"
  and evolves_free: "evolves s s' \<Longrightarrow> free_frames s' \<subseteq> free_frames s"
  and evolves_frames: "evolves s s' \<Longrightarrow> table_frames s' \<subseteq> table_frames s \<union> (free_frames s - free_frames s')"
  and evolves_lowest: "evolves s s' \<Longrightarrow> f \<in> free_frames s - free_frames s' \<Longrightarrow> g \<in> free_frames s' \<Longrightarrow> f < g"
  and evolves_mem: "evolves s s' \<Longrightarrow> unat x div 4096 \<notin> table_frames s \<union> (free_frames s - free_frames s') \<Longrightarrow>
    mem s' x = mem s x"
  and evolves_table: "evolves s s' \<Longrightarrow> valid_path q \<Longrightarrow> table_at (mem s) (pml4 s) q = Some t \<Longrightarrow>
    table_at (mem s') (pml4 s) q = Some t"
  unfolding evolves_def by (elim conjE; blast)+

lemma same_but_tables_pml4: "same_but_tables s s' \<Longrightarrow> pml4 s' = pml4 s"
proof -
  assume "same_but_tables s s'"
  then obtain m b u where "s' = s\<lparr>mem := m, bitmap := b, used_frames := u\<rparr>"
    unfolding same_but_tables_def by blast
  then show ?thesis by simp
qed

lemma evolves_pml4: "evolves s s' \<Longrightarrow> pml4 s' = pml4 s"
  by (rule same_but_tables_pml4 [OF evolves_same])

lemma evolves_refl: "vmm_ok s \<Longrightarrow> evolves s s"
  by (simp add: evolves_def)

lemma evolves_trans:
  assumes 1: "evolves s s'" and 2: "evolves s' s''"
  shows "evolves s s''"
proof -
  have "mem s'' x = mem s x" if "unat x div 4096 \<notin> table_frames s \<union> (free_frames s - free_frames s'')" for x
  proof -
    have "unat x div 4096 \<notin> table_frames s' \<union> (free_frames s' - free_frames s'')"
      "unat x div 4096 \<notin> table_frames s \<union> (free_frames s - free_frames s')"
      using that evolves_frames [OF 1] evolves_free [OF 1] evolves_free [OF 2] by blast+
    with evolves_mem [OF 2] evolves_mem [OF 1] show ?thesis by simp
  qed
  moreover have "table_frames s'' \<subseteq> table_frames s \<union> (free_frames s - free_frames s'')"
    using evolves_frames [OF 1] evolves_frames [OF 2] evolves_free [OF 1] evolves_free [OF 2] by blast
  moreover have "f < g" if "f \<in> free_frames s - free_frames s''" "g \<in> free_frames s''" for f g
    using that evolves_lowest [OF 1] evolves_lowest [OF 2] evolves_free [OF 2] by blast
  moreover have "table_at (mem s'') (pml4 s) q = Some t" if "valid_path q" "table_at (mem s) (pml4 s) q = Some t" for q t
    using evolves_table [OF 2 that(1)] evolves_table [OF 1 that] evolves_pml4 [OF 1] by simp
  ultimately show ?thesis
    unfolding evolves_def
    using evolves_ok [OF 2] same_but_tables_trans [OF evolves_same [OF 1] evolves_same [OF 2]]
      evolves_free [OF 1] evolves_free [OF 2] by (intro conjI) blast+
qed

lemma grows_evolves:
  assumes g: "grows s s'" and "same_but_tables s s'" "mmu_exact s"
  shows "evolves s s'"
  unfolding evolves_def vmm_ok_def
proof (intro conjI allI impI)
  show "mmu_exact s'" by (rule grows_mmu_exact [OF g assms(3)])
  show "f < g'" if "f \<in> free_frames s - free_frames s'" "g' \<in> free_frames s'" for f g'
    by (rule grows_lowest [OF g that])
  show "mem s' x = mem s x" if "unat x div 4096 \<notin> table_frames s \<union> (free_frames s - free_frames s')" for x
    by (rule grows_mem [OF g that])
  show "table_at (mem s') (pml4 s) q = Some t" if "valid_path q" "table_at (mem s) (pml4 s) q = Some t" for q t
    by (rule grows_table [OF g that])
qed (rule assms(2) grows_inv [OF g] grows_free [OF g] grows_frames [OF g])+

text \<open>What \<open>vmm_map_page\<close> does: it updates the entry of one page, or runs out of frames.\<close>

definition map_done :: "u64 \<Rightarrow> u64 \<Rightarrow> 'a vmm_state_scheme \<Rightarrow> 'a vmm_state_scheme \<Rightarrow> bool" where
  "map_done virt e s s' \<longleftrightarrow>
     vmm_leaf s' = (\<lambda>va. if same_page va virt then e else vmm_leaf s va) \<and>
     card (free_frames s) = card (free_frames s') + missing_tables virt s \<and>
     table_at (mem s') (pml4 s) [PML4_INDEX virt] \<noteq> None \<and>
     table_at (mem s') (pml4 s) [PML4_INDEX virt, PDPT_INDEX virt] \<noteq> None \<and>
     table_at (mem s') (pml4 s) (page_path virt) \<noteq> None"

lemma vmm_map_page_outcome:
  assumes ok: "vmm_ok s" and s': "s' = vmm_map_page virt phys flags s"
  shows "evolves s s' \<and>
    (missing_tables virt s \<le> card (free_frames s) \<longrightarrow> map_done virt ((phys AND PAGE_MASK) OR ucast flags) s s') \<and>
    (card (free_frames s) < missing_tables virt s \<longrightarrow> vmm_leaf s' = vmm_leaf s \<and> free_frames s' = {})"
proof -
  have inv: "vmm_inv s" and ex: "mmu_exact s" using ok by (simp_all add: vmm_ok_def)
  from inv show ?thesis
  proof (cases rule: vmm_map_page_cases [of s virt phys flags])
    case failed
    note F = failed [folded s']
    have "evolves s s'" by (rule grows_evolves [OF F(1,2) ex])
    moreover have "vmm_leaf s' = vmm_leaf s" using grows_vmm_leaf [OF F(1)] by (simp add: fun_eq_iff)
    ultimately show ?thesis using F(3,4) by simp
  next
    case (mapped s3 pdpt pd pt)
    note M = mapped [folded s']
    let ?e = "(phys AND PAGE_MASK) OR ucast flags"
    have pm: "pml4 s3 = pml4 s" "pml4 s' = pml4 s"
      using grows_pml4 [OF M(1)] M(3) by (simp_all add: put64_def)
    have inv3: "vmm_inv s3" and ex3: "mmu_exact s3"
      using grows_inv [OF M(1)] grows_mmu_exact [OF M(1) ex] .
    have pt: "table_at (mem s3) (pml4 s3) (page_path virt) = Some pt" using M(6) pm by simp
    note L = leaf_store [OF inv3 valid_page_path pt index_less(4) [of virt], where v = ?e, folded M(3)]
    note L' = leaf_store_leaf [OF inv3 pt, where v = ?e, folded M(3)]
    have leaf: "vmm_leaf s' = (\<lambda>va. if same_page va virt then ?e else vmm_leaf s va)"
      using L'(1) grows_vmm_leaf [OF M(1)] by (simp add: fun_eq_iff)
    have ff: "free_frames s' = free_frames s3" using M(3) by (simp add: put64_def)
    have "mmu_exact s'"
      unfolding mmu_exact_def
    proof (intro allI impI)
      fix va assume pr: "present (vmm_leaf s' va)"
      show "vmm_leaf s' va AND 6 AND path_rights (mem s') (pml4 s') va = vmm_leaf s' va AND 6"
      proof (cases "same_page va virt")
        case True
        then have same: "page_path va = page_path virt" "PML4_INDEX va = PML4_INDEX virt"
            "PDPT_INDEX va = PDPT_INDEX virt" "PD_INDEX va = PD_INDEX virt"
          by (simp_all add: same_page_iff page_path_def)
        have "table_at (mem s3) (pml4 s3) (page_path va) = Some pt" using pt same by simp
        note t = page_path_tables [OF pt] and r = L'(2) [OF this]
        have "path_rights (mem s3) (pml4 s3) va AND table_flags flags = table_flags flags"
          using t(2,3) M(4,5,7-9) pm
          by (simp add: path_rights_def Let_def same and.assoc)
        then have f: "table_flags flags AND path_rights (mem s') (pml4 s') va = table_flags flags"
          using r pm by (simp add: and.commute)
        have "vmm_leaf s' va AND 6 = ucast flags AND 6" using True by (simp add: leaf leaf_rights)
        then show ?thesis
          using and_subset_trans [OF flags_in_table_flags [folded and.assoc] f] by (simp add: and.assoc [symmetric])
      next
        case False
        then have l: "vmm_leaf s' va = vmm_leaf s3 va" using L'(1) [of va] by simp
        with pr have pr3: "present (vmm_leaf s3 va)" by simp
        then obtain u where "table_at (mem s3) (pml4 s3) (page_path va) = Some u"
          by (auto simp: vmm_leaf_def present_def split: option.splits)
        from L'(2) [OF this] show ?thesis
          using ex3 pr3 pm l by (simp add: mmu_exact_def)
      qed
    qed
    then have ok': "vmm_ok s'" using L(2) by (simp add: vmm_ok_def)
    have "mem s' x = mem s x" if "unat x div 4096 \<notin> table_frames s \<union> (free_frames s - free_frames s')" for x
    proof -
      have "unat x div 4096 \<notin> table_frames s3" using that grows_frames [OF M(1)] ff by blast
      then show ?thesis using L(5) grows_mem [OF M(1)] that ff by simp
    qed
    moreover have "table_at (mem s') (pml4 s) q = Some t" if "valid_path q" "table_at (mem s) (pml4 s) q = Some t" for q t
      using grows_table [OF M(1) that] L(1) [OF that(1)] pm by simp
    moreover have "same_but_tables s s'"
      unfolding M(3) by (rule same_but_tables_trans [OF M(2) same_but_tables_put64])
    moreover have "table_frames s' \<subseteq> table_frames s \<union> (free_frames s - free_frames s')"
      using L(3) grows_frames [OF M(1)] ff by simp
    ultimately have "evolves s s'"
      unfolding evolves_def using ok' grows_free [OF M(1)] grows_lowest [OF M(1)] ff by simp
    moreover have "map_done virt ?e s s'"
      unfolding map_done_def
      using leaf M(4-6,10) L(1) [OF upper_valid(1) [of virt]] L(1) [OF upper_valid(2) [of virt]]
        L(1) [OF valid_page_path(1) [of virt]] pm ff by simp
    ultimately show ?thesis using M(10) by simp
  qed
qed


section \<open>Removing a page\<close>

lemma vmm_unmap_page_eq:
  "vmm_unmap_page virt s =
     (case table_at (mem s) (pml4 s) (page_path virt) of
        None \<Rightarrow> s
      | Some pt \<Rightarrow> (put64 (pt + 8 * PT_INDEX virt) 0 s)\<lparr>invlpgs := virt # invlpgs s\<rparr>)"
  by (simp add: vmm_unmap_page_def Let_def page_path_def present_def pt_entry_def entry_addr_def put64_def)

text \<open>The state outside memory, the frame bits and the root does not matter to the tables.\<close>

lemma vmm_view:
  assumes "mem s' = mem s" "pml4 s' = pml4 s" "bitmap s' = bitmap s" "used_frames s' = used_frames s"
  shows "vmm_leaf s' = vmm_leaf s" "vmm_ok s' = vmm_ok s" "table_frames s' = table_frames s"
proof -
  show leaf: "vmm_leaf s' = vmm_leaf s"
    by (rule ext) (simp add: assms vmm_leaf_def cong: option.case_cong)
  have "pmm_inv s' = pmm_inv s" "table_frame s' = table_frame s"
    using assms by (simp_all add: pmm_inv_def pmm_wf_def free_frames_def frame_used_def table_frame_def fun_eq_iff)
  then show "vmm_ok s' = vmm_ok s"
    using assms leaf by (simp add: vmm_ok_def vmm_inv_def vmm_tree_def mmu_exact_def)
  show "table_frames s' = table_frames s"
    using assms by (simp add: table_frames_def)
qed

lemma pmm_upd [simp]:
  "pmm_inv (s\<lparr>outs := x\<rparr>) = pmm_inv s" "pmm_inv (s\<lparr>invlpgs := l\<rparr>) = pmm_inv s"
  "pmm_inv (s\<lparr>cr3 := c\<rparr>) = pmm_inv s" "pmm_inv (s\<lparr>pml4 := c\<rparr>) = pmm_inv s"
  "free_frames (s\<lparr>outs := x\<rparr>) = free_frames s" "free_frames (s\<lparr>invlpgs := l\<rparr>) = free_frames s"
  "free_frames (s\<lparr>cr3 := c\<rparr>) = free_frames s" "free_frames (s\<lparr>pml4 := c\<rparr>) = free_frames s"
  "frame_used (s\<lparr>pml4 := c\<rparr>) = frame_used s"
  by (simp_all add: pmm_inv_def pmm_wf_def free_frames_def frame_used_def fun_eq_iff)

lemma vmm_upd [simp]:
  "vmm_leaf (s\<lparr>outs := x\<rparr>) = vmm_leaf s" "vmm_leaf (s\<lparr>invlpgs := l\<rparr>) = vmm_leaf s"
  "vmm_leaf (s\<lparr>cr3 := c\<rparr>) = vmm_leaf s" "vmm_ok (s\<lparr>outs := x\<rparr>) = vmm_ok s"
  "vmm_ok (s\<lparr>invlpgs := l\<rparr>) = vmm_ok s" "vmm_ok (s\<lparr>cr3 := c\<rparr>) = vmm_ok s"
  "table_frames (s\<lparr>outs := x\<rparr>) = table_frames s" "table_frames (s\<lparr>invlpgs := l\<rparr>) = table_frames s"
  "table_frames (s\<lparr>cr3 := c\<rparr>) = table_frames s"
  by (rule vmm_view; simp)+

lemma vmm_unmap_page_facts:
  assumes ok: "vmm_ok s"
  shows "vmm_ok (vmm_unmap_page virt s)"
    "vmm_leaf (vmm_unmap_page virt s) = (\<lambda>va. if same_page va virt then 0 else vmm_leaf s va)"
    "free_frames (vmm_unmap_page virt s) = free_frames s"
proof -
  have inv: "vmm_inv s" and ex: "mmu_exact s" using ok by (simp_all add: vmm_ok_def)
  let ?G = "vmm_ok (vmm_unmap_page virt s) \<and>
    vmm_leaf (vmm_unmap_page virt s) = (\<lambda>va. if same_page va virt then 0 else vmm_leaf s va) \<and>
    free_frames (vmm_unmap_page virt s) = free_frames s"
  have ?G
  proof (cases "table_at (mem s) (pml4 s) (page_path virt)")
    case None
    then show ?thesis using ok by (auto simp: vmm_unmap_page_eq vmm_leaf_def same_page_iff fun_eq_iff)
  next
    case (Some pt)
    let ?s = "put64 (pt + 8 * PT_INDEX virt) 0 s"
    note L = leaf_store [OF inv valid_page_path Some index_less(4) [of virt], where v = 0]
    note L' = leaf_store_leaf [OF inv Some, where v = 0]
    have pm: "pml4 ?s = pml4 s" by (simp add: put64_def)
    have "mmu_exact ?s"
      unfolding mmu_exact_def
    proof (intro allI impI)
      fix va assume pr: "present (vmm_leaf ?s va)"
      then have "\<not> same_page va virt" using L'(1) [of va] by (auto simp: present_def split: if_splits)
      then have l: "vmm_leaf ?s va = vmm_leaf s va" using L'(1) [of va] by simp
      with pr obtain u where u: "table_at (mem s) (pml4 s) (page_path va) = Some u"
        by (auto simp: vmm_leaf_def present_def split: option.splits)
      show "vmm_leaf ?s va AND 6 AND path_rights (mem ?s) (pml4 ?s) va = vmm_leaf ?s va AND 6"
        unfolding l pm L'(2) [OF u] using ex pr [unfolded l] by (simp add: mmu_exact_def)
    qed
    then have "vmm_ok ?s" using L(2) by (simp add: vmm_ok_def)
    moreover have "vmm_leaf ?s = (\<lambda>va. if same_page va virt then 0 else vmm_leaf s va)"
      by (rule ext) (rule L'(1))
    moreover have "free_frames ?s = free_frames s" by (simp add: put64_def)
    ultimately show ?thesis using Some by (simp add: vmm_unmap_page_eq)
  qed
  then show "vmm_ok (vmm_unmap_page virt s)"
    "vmm_leaf (vmm_unmap_page virt s) = (\<lambda>va. if same_page va virt then 0 else vmm_leaf s va)"
    "free_frames (vmm_unmap_page virt s) = free_frames s" by blast+
qed


section \<open>The interface of the address space\<close>

text \<open>
  What a client of the page tables relies on: a map from pages to entries that
  \<open>map_page\<close> updates while there is room for the tables, and \<open>unmap_page\<close> clears.
\<close>

locale address_space =
  fixes map_page :: "u64 \<Rightarrow> u64 \<Rightarrow> u32 \<Rightarrow> 's \<Rightarrow> 's"
    and unmap_page :: "u64 \<Rightarrow> 's \<Rightarrow> 's"
    and leaf :: "'s \<Rightarrow> u64 \<Rightarrow> u64"
    and inv :: "'s \<Rightarrow> bool"
    and room :: "'s \<Rightarrow> nat"
    and need :: "u64 \<Rightarrow> 's \<Rightarrow> nat"
  assumes inv_map: "inv s \<Longrightarrow> inv (map_page v p f s)"
    and leaf_map: "inv s \<Longrightarrow> need v s \<le> room s \<Longrightarrow>
      leaf (map_page v p f s) = (\<lambda>a. if same_page a v then (p AND PAGE_MASK) OR ucast f else leaf s a)"
    and leaf_map_full: "inv s \<Longrightarrow> room s < need v s \<Longrightarrow> leaf (map_page v p f s) = leaf s"
    and room_map: "inv s \<Longrightarrow> need v s \<le> room s \<Longrightarrow> room s = room (map_page v p f s) + need v s"
    and need_bound: "need v s \<le> 3"
    and inv_unmap: "inv s \<Longrightarrow> inv (unmap_page v s)"
    and leaf_unmap: "inv s \<Longrightarrow> leaf (unmap_page v s) = (\<lambda>a. if same_page a v then 0 else leaf s a)"
begin

lemma leaf_map_other:
  "inv s \<Longrightarrow> \<not> same_page a v \<Longrightarrow> leaf (map_page v p f s) a = leaf s a"
  by (cases "need v s \<le> room s") (simp_all add: leaf_map leaf_map_full)

lemma unmap_map:
  assumes "inv s" "\<And>a. same_page a v \<Longrightarrow> leaf s a = 0"
  shows "leaf (unmap_page v (map_page v p f s)) = leaf s"
proof
  fix a
  show "leaf (unmap_page v (map_page v p f s)) a = leaf s a"
    using assms by (cases "same_page a v") (simp_all add: leaf_unmap inv_map leaf_map_other)
qed

text \<open>Mapping a list of pages, each over the earlier ones.\<close>

lemma leaf_map_many:
  assumes "inv s" "3 * length ms \<le> room s"
  shows "inv (fold (\<lambda>(v, p, f). map_page v p f) ms s) \<and>
    leaf (fold (\<lambda>(v, p, f). map_page v p f) ms s) =
      fold (\<lambda>(v, p, f) l. \<lambda>a. if same_page a v then (p AND PAGE_MASK) OR ucast f else l a) ms (leaf s)"
  using assms
proof (induction ms arbitrary: s)
  case (Cons m ms)
  obtain v p f where m: "m = (v, p, f)" by (cases m)
  have n: "need v s \<le> room s" using Cons.prems(2) need_bound [of v s] by simp
  have r: "3 * length ms \<le> room (map_page v p f s)"
    using Cons.prems(2) room_map [OF Cons.prems(1) n, of p f] need_bound [of v s] by simp
  show ?case using Cons.IH [OF inv_map [OF Cons.prems(1)] r] leaf_map [OF Cons.prems(1) n, of p f] by (simp add: m)
qed simp

end

lemma missing_tables_bound: "missing_tables virt s \<le> 3"
  by (simp add: missing_tables_def)

interpretation vmm: address_space vmm_map_page vmm_unmap_page vmm_leaf vmm_ok "\<lambda>s. card (free_frames s)" missing_tables
proof
  fix s :: "'a vmm_state_scheme" and v p :: u64 and f :: u32
  show "missing_tables v s \<le> 3" by (rule missing_tables_bound)
  assume ok: "vmm_ok s"
  note O = vmm_map_page_outcome [OF ok refl, of v p f]
  show "vmm_ok (vmm_map_page v p f s)" using O evolves_ok by blast
  show "vmm_ok (vmm_unmap_page v s)" by (rule vmm_unmap_page_facts(1) [OF ok])
  show "vmm_leaf (vmm_unmap_page v s) = (\<lambda>a. if same_page a v then 0 else vmm_leaf s a)"
    by (rule vmm_unmap_page_facts(2) [OF ok])
  show "vmm_leaf (vmm_map_page v p f s) =
      (\<lambda>a. if same_page a v then (p AND PAGE_MASK) OR ucast f else vmm_leaf s a)"
    "card (free_frames s) = card (free_frames (vmm_map_page v p f s)) + missing_tables v s"
    if "missing_tables v s \<le> card (free_frames s)"
    using O that by (simp_all add: map_done_def)
  show "vmm_leaf (vmm_map_page v p f s) = vmm_leaf s" if "card (free_frames s) < missing_tables v s"
    using O that by blast
qed


section \<open>The identity map\<close>

definition page_no :: "u64 \<Rightarrow> nat" where
  "page_no a = unat (take_bit 36 (drop_bit 12 a))"

lemma same_page_no: "same_page a b \<longleftrightarrow> page_no a = page_no b"
  by (simp add: same_page_def page_no_def word_unat_eq_iff)

lemma page_no_eq: "page_no a = unat a div 4096 mod 2 ^ 36"
proof -
  have "page_no a = unat (drop_bit 12 a) mod 2 ^ 36"
    unfolding page_no_def by (simp only: take_bit_eq_mask unat_and_mask)
  then show ?thesis by (simp add: unat_shiftr)
qed

lemma page_no_frame: "k < 32768 \<Longrightarrow> page_no (frame_addr k) = k"
  by (simp add: page_no_eq unat_frame_addr)

lemma unat_index:
  "unat (PML4_INDEX a) = unat a div 2 ^ 39 mod 512" "unat (PDPT_INDEX a) = unat a div 2 ^ 30 mod 512"
  "unat (PD_INDEX a) = unat a div 2 ^ 21 mod 512" "unat (PT_INDEX a) = unat a div 2 ^ 12 mod 512"
proof -
  have "unat (drop_bit k a AND 0x1FF) = unat a div 2 ^ k mod 512" for k
    using unat_and_mask [of "drop_bit k a" 9] by (simp add: mask_eq_exp_minus_1 unat_shiftr)
  then show "unat (PML4_INDEX a) = unat a div 2 ^ 39 mod 512" "unat (PDPT_INDEX a) = unat a div 2 ^ 30 mod 512"
    "unat (PD_INDEX a) = unat a div 2 ^ 21 mod 512" "unat (PT_INDEX a) = unat a div 2 ^ 12 mod 512"
    by (simp_all only: PML4_INDEX_def PDPT_INDEX_def PD_INDEX_def PT_INDEX_def)
qed

lemma low_index:
  assumes "k < 1024"
  shows "PML4_INDEX (frame_addr k) = 0" "PDPT_INDEX (frame_addr k) = 0" "PD_INDEX (frame_addr k) = of_nat (k div 512)"
proof -
  have u: "unat (frame_addr k) = k * 4096" using assms by (simp add: unat_frame_addr)
  show "PML4_INDEX (frame_addr k) = 0" "PDPT_INDEX (frame_addr k) = 0"
    using assms by (simp_all add: word_unat_eq_iff unat_index u)
  have "unat (PD_INDEX (frame_addr k)) = k div 512"
    using assms by (simp add: unat_index u div_mult2_eq [of _ 4096 512, simplified])
  moreover have "unat (of_nat (k div 512) :: u64) = k div 512" using assms by (simp add: unat_of_nat_small)
  ultimately show "PD_INDEX (frame_addr k) = of_nat (k div 512)" by (simp add: word_unat_eq_iff)
qed

text \<open>The entry the loop writes, and its invariant after \<open>k\<close> pages.\<close>

definition identity_leaf :: "nat \<Rightarrow> u64 \<Rightarrow> u64" where
  "identity_leaf k a = (if page_no a < k then (frame_addr (page_no a) AND PAGE_MASK) OR 3 else 0)"

definition id_tables :: "nat \<Rightarrow> 'a vmm_state_scheme \<Rightarrow> bool" where
  "id_tables k s \<longleftrightarrow>
     (0 < k \<longrightarrow> table_at (mem s) (pml4 s) [0] \<noteq> None \<and> table_at (mem s) (pml4 s) [0, 0] \<noteq> None \<and>
        table_at (mem s) (pml4 s) [0, 0, 0] \<noteq> None) \<and>
     (512 < k \<longrightarrow> table_at (mem s) (pml4 s) [0, 0, 1] \<noteq> None)"

definition id_need :: "nat \<Rightarrow> nat" where
  "id_need k = (if k = 0 then 4 else if k \<le> 512 then 1 else 0)"

lemma missing_low:
  assumes "k < 1024" "id_tables k s"
  shows "missing_tables (frame_addr k) s \<le> id_need k - id_need (Suc k)"
proof -
  have miss: "missing_tables (frame_addr k) s =
      (if table_at (mem s) (pml4 s) [0] = None then 1 else 0) +
      (if table_at (mem s) (pml4 s) [0, 0] = None then 1 else 0) +
      (if table_at (mem s) (pml4 s) [0, 0, of_nat (k div 512)] = None then 1 else 0)"
    using assms(1) by (simp add: missing_tables_def page_path_def low_index del: table_at.simps)
  consider "k = 0" | "0 < k" "k < 512" | "k = 512" | "512 < k" by linarith
  then show ?thesis
  proof cases
    case 1
    then show ?thesis using missing_tables_bound [of "frame_addr k" s] by (simp add: id_need_def)
  next
    case 2
    then show ?thesis unfolding miss using assms(2) by (auto simp: id_tables_def id_need_def simp del: table_at.simps)
  next
    case 3
    then show ?thesis unfolding miss using assms(2) by (auto simp: id_tables_def id_need_def simp del: table_at.simps)
  next
    case 4
    then have "k div 512 = 1" using assms(1) by auto
    then show ?thesis unfolding miss using assms(2) 4 by (simp add: id_tables_def id_need_def del: table_at.simps)
  qed
qed

lemma identity_step:
  assumes k: "k < 1024" and ok: "vmm_ok s" and leaf: "vmm_leaf s = identity_leaf k"
    and tabs: "id_tables k s" and room: "id_need k \<le> card (free_frames s)"
  defines "s' \<equiv> vmm_map_page (frame_addr k) (frame_addr k) 3 s"
  shows "vmm_ok s'" "vmm_leaf s' = identity_leaf (Suc k)" "id_tables (Suc k) s'"
    "id_need (Suc k) \<le> card (free_frames s')" "evolves s s'"
    "card (free_frames s) + id_need (Suc k) \<le> card (free_frames s') + id_need k"
proof -
  note O = vmm_map_page_outcome [OF ok, of s' "frame_addr k" "frame_addr k" 3]
  have miss: "missing_tables (frame_addr k) s \<le> id_need k - id_need (Suc k)" by (rule missing_low [OF k tabs])
  have mono: "id_need (Suc k) \<le> id_need k" by (simp add: id_need_def)
  have room': "missing_tables (frame_addr k) s \<le> card (free_frames s)" using miss room by simp
  show ev: "evolves s s'" using O by (simp add: s'_def)
  then show "vmm_ok s'" by (rule evolves_ok)
  have upd: "map_done (frame_addr k) ((frame_addr k AND PAGE_MASK) OR 3) s s'"
    using O room' by (simp add: s'_def)
  show "id_need (Suc k) \<le> card (free_frames s')"
    "card (free_frames s) + id_need (Suc k) \<le> card (free_frames s') + id_need k"
    using upd miss room mono by (simp_all add: map_done_def)
  have "page_no (frame_addr k) = k" using k by (simp add: page_no_frame)
  then show "vmm_leaf s' = identity_leaf (Suc k)"
    using upd leaf by (auto simp: map_done_def same_page_no identity_leaf_def fun_eq_iff)
  have pm: "pml4 s' = pml4 s" by (rule evolves_pml4 [OF ev])
  have keep: "table_at (mem s') (pml4 s) q \<noteq> None" if "valid_path q" "table_at (mem s) (pml4 s) q \<noteq> None" for q
    using evolves_table [OF ev that(1)] that(2) by auto
  have v: "valid_path [0]" "valid_path [0, 0]" "valid_path [0, 0, 0]" "valid_path [0, 0, 1]"
    by (simp_all add: valid_path_def)
  have new: "table_at (mem s') (pml4 s) [0] \<noteq> None" "table_at (mem s') (pml4 s) [0, 0] \<noteq> None"
    "table_at (mem s') (pml4 s) [0, 0, of_nat (k div 512)] \<noteq> None"
    using upd k by (simp_all add: map_done_def low_index page_path_def del: table_at.simps)
  consider "k < 512" | "512 \<le> k" by linarith
  then show "id_tables (Suc k) s'"
  proof cases
    case 1
    then show ?thesis using new by (simp add: id_tables_def pm del: table_at.simps)
  next
    case 2
    then have "k div 512 = 1" using k by auto
    then show ?thesis using new keep [OF v(3)] tabs 2 by (simp add: id_tables_def pm del: table_at.simps)
  qed
qed

lemma vmm_identity_map_ok:
  assumes "k \<le> 1024" "vmm_ok s" "vmm_leaf s = identity_leaf k" "id_tables k s" "id_need k \<le> card (free_frames s)"
  shows "\<exists>s'. vmm_identity_map (k * 4096) (1024 * 4096) n s = (n + of_nat (1024 - k), s') \<and>
    vmm_leaf s' = identity_leaf 1024 \<and> evolves s s' \<and> card (free_frames s) \<le> card (free_frames s') + id_need k"
  using assms
proof (induction "1024 - k" arbitrary: k n s)
  case 0
  then have "k = 1024" by simp
  then show ?case using 0 evolves_refl by (subst vmm_identity_map.simps) simp
next
  case (Suc d)
  then have k: "k < 1024" by simp
  let ?s = "vmm_map_page (frame_addr k) (frame_addr k) 3 s"
  note S = identity_step [OF k Suc.prems(2-5)]
  have "d = 1024 - Suc k" using Suc.hyps(2) by simp
  from Suc.hyps(1) [OF this _ S(1-4), of "n + 1"] k obtain s' where s':
    "vmm_identity_map (Suc k * 4096) (1024 * 4096) (n + 1) ?s = (n + 1 + of_nat (1024 - Suc k), s')"
    "vmm_leaf s' = identity_leaf 1024" "evolves ?s s'" "card (free_frames ?s) \<le> card (free_frames s') + id_need (Suc k)" by auto
  have c: "n + 1 + of_nat (1024 - Suc k) = n + (of_nat (1024 - k) :: u32)"
    using k by (simp add: Suc_diff_Suc [symmetric])
  have "vmm_identity_map (k * 4096) (1024 * 4096) n s = (n + of_nat (1024 - k), s')"
    using s'(1) k unfolding c
    by (subst vmm_identity_map.simps) (simp add: frame_addr_def add.commute)
  moreover have "card (free_frames s) \<le> card (free_frames s') + id_need k" using S(6) s'(4) by simp
  ultimately show ?case using s'(2) evolves_trans [OF S(5) s'(3)] by blast
qed


lemma frame_addr_page: "frame_addr (unat va div 4096) = va AND PAGE_MASK"
proof -
  have "(of_nat (unat va div 4096) :: u64) = of_nat (unat (drop_bit 12 va))" by (simp add: unat_shiftr)
  then have "frame_addr (unat va div 4096) = push_bit 12 (drop_bit 12 va)"
    unfolding frame_addr_def by (simp add: push_bit_eq_mult)
  also have "\<dots> = va AND PAGE_MASK"
    by (rule bit_word_eqI) (auto simp: bit_simps bit_PAGE_MASK)
  finally show ?thesis .
qed

lemma page_offset_split: "(va AND PAGE_MASK) OR (va AND 0xFFF) = va"
proof -
  have "(va AND PAGE_MASK) OR (va AND 0xFFF) = va AND (PAGE_MASK OR 0xFFF)"
    by (simp add: bit.conj_disj_distrib)
  also have "PAGE_MASK OR 0xFFF = -1" by (simp add: PAGE_MASK_def)
  finally show ?thesis by simp
qed

lemma page_mask_idem: "va AND PAGE_MASK AND PAGE_MASK = va AND PAGE_MASK"
  by simp

lemma translation_identity:
  assumes "unat va < 2 ^ 48"
  shows "translation va (identity_leaf 1024 va) = (if unat va < 4 * 1024 * 1024 then Some (va, 2) else None)"
proof -
  have "unat va div 4096 < 2 ^ 36" using assms by (simp add: div_less_iff_less_mult)
  then have p: "page_no va = unat va div 4096" by (simp add: page_no_eq)
  have leaf: "identity_leaf 1024 va = (if unat va < 4 * 1024 * 1024 then (va AND PAGE_MASK) OR 3 else 0)"
    by (auto simp: identity_leaf_def p frame_addr_page div_less_iff_less_mult)
  have "entry_addr ((va AND PAGE_MASK) OR 3) = va AND PAGE_MASK"
    by (simp add: entry_addr_or PAGE_MASK_def) (simp add: entry_addr_def PAGE_MASK_def)
  moreover have "((va AND PAGE_MASK) OR 3) AND 6 = 2"
    by (simp add: bit.conj_disj_distrib2 PAGE_MASK_def and.assoc)
  moreover have "present ((va AND PAGE_MASK) OR 3)"
    by (simp add: present_bit bit_or_iff)
  ultimately show ?thesis
    unfolding leaf translation_def by (simp add: page_offset_split) (simp add: present_def)
qed

text \<open>The root that \<open>vmm_init\<close> allocates is an empty tree.\<close>

lemma empty_tree:
  assumes zero: "\<forall>j<512. pt_entry (mem s) (frame_addr f) j = 0" and root: "pml4 s = frame_addr f"
    and f: "0 < f" "f < 32768" "frame_used s f" and inv: "pmm_inv s"
  shows "vmm_ok s" "vmm_leaf s = identity_leaf 0" "table_frames s = {f}"
    "valid_path p \<Longrightarrow> table_at (mem s) (pml4 s) p = (if p = [] then Some (frame_addr f) else None)"
proof -
  show path: "table_at (mem s) (pml4 s) p = (if p = [] then Some (frame_addr f) else None)" if "valid_path p" for p
    using that zero unfolding root by (cases p) (auto simp: valid_path_def present_def)
  have leaf: "vmm_leaf s = (\<lambda>_. 0)"
    by (rule ext) (simp add: vmm_leaf_def path, simp add: page_path_def)
  then show "vmm_leaf s = identity_leaf 0" by (simp add: identity_leaf_def fun_eq_iff)
  have "vmm_tree s"
    unfolding vmm_tree_def using path f by (auto simp: table_frame_def split: if_splits)
  moreover have "mmu_exact s" by (simp add: mmu_exact_def leaf present_def)
  ultimately show "vmm_ok s" using inv by (simp add: vmm_ok_def vmm_inv_def)
  show "table_frames s = {f}"
    unfolding table_frames_def using path root f(2) by (auto simp: frame_addr_inj intro!: exI [of _ "[]"] split: if_splits)
qed



section \<open>Mapping a fresh frame\<close>

text \<open>Memory outside the tables does not matter to them.\<close>

lemma tables_kept:
  assumes tree: "vmm_tree s" and m: "\<forall>x. unat x div 4096 \<in> table_frames s \<longrightarrow> m x = mem s x"
  shows "valid_path p \<Longrightarrow> table_at m (pml4 s) p = table_at (mem s) (pml4 s) p"
    "valid_path p \<Longrightarrow> table_at (mem s) (pml4 s) p = Some t \<Longrightarrow> j < 512 \<Longrightarrow> pt_entry m t j = pt_entry (mem s) t j"
proof -
  show pe: "pt_entry m t j = pt_entry (mem s) t j"
    if "valid_path q" "table_at (mem s) (pml4 s) q = Some t" "j < 512" for q t j
    using m table_frames_div [OF tree that(1,2)]
    by (intro pt_entry_cong [OF vmm_tree_is_frame [OF tree that(1,2)] that(3)]) simp
  show "table_at m (pml4 s) p = table_at (mem s) (pml4 s) p" if "valid_path p" for p
  proof (rule table_at_cong)
    fix q i t assume "\<exists>r. p = q @ i # r" "table_at (mem s) (pml4 s) q = Some t"
    then show "present (pt_entry m t i) = present (pt_entry (mem s) t i) \<and>
        (present (pt_entry (mem s) t i) \<longrightarrow> entry_addr (pt_entry m t i) = entry_addr (pt_entry (mem s) t i))"
      using pe valid_path_mid that by metis
  qed
qed

lemma vmm_write:
  fixes s :: "'a vmm_state_scheme"
  assumes ok: "vmm_ok s" and m: "\<forall>x. unat x div 4096 \<in> table_frames s \<longrightarrow> m x = mem s x"
  shows "vmm_ok (s\<lparr>mem := m\<rparr>)" "vmm_leaf (s\<lparr>mem := m\<rparr>) = vmm_leaf s"
    "table_frames (s\<lparr>mem := m\<rparr>) = table_frames s"
proof -
  have inv: "vmm_inv s" and tree: "vmm_tree s" and ex: "mmu_exact s"
    using ok by (simp_all add: vmm_ok_def vmm_inv_def)
  note K = tables_kept [OF tree m]
  show "table_frames (s\<lparr>mem := m\<rparr>) = table_frames s"
    by (rule table_frames_cong) (simp add: K(1))
  have tree': "vmm_tree (s\<lparr>mem := m\<rparr>)" by (rule vmm_tree_cong [OF _ _ tree]) (simp_all add: K(1))
  show leaf: "vmm_leaf (s\<lparr>mem := m\<rparr>) = vmm_leaf s"
    by (rule ext) (auto simp: vmm_leaf_def K(1) K(2) [OF valid_page_path(1)] split: option.split)
  have "path_rights m (pml4 s) va = path_rights (mem s) (pml4 s) va" if pr: "present (vmm_leaf s va)" for va
  proof -
    from pr obtain pt where pt: "table_at (mem s) (pml4 s) (page_path va) = Some pt"
      by (auto simp: vmm_leaf_def present_def split: option.splits)
    note P = page_path_tables [OF pt]
    have "pt_entry m (pml4 s) (PML4_INDEX va) = pt_entry (mem s) (pml4 s) (PML4_INDEX va)"
      by (rule K(2) [of "[]"]) simp_all
    then show ?thesis
      using K(2) [OF upper_valid(1) P(2) index_less(2) [of va]] K(2) [OF upper_valid(2) P(3) index_less(3) [of va]]
      by (simp add: path_rights_def Let_def)
  qed
  then have "mmu_exact (s\<lparr>mem := m\<rparr>)" using ex unfolding mmu_exact_def leaf by simp
  then show "vmm_ok (s\<lparr>mem := m\<rparr>)" using tree' inv by (simp add: vmm_ok_def vmm_inv_def)
qed

text \<open>Taking the lowest free frame, and writing into it, leaves the tables alone.\<close>

lemma take_frame_grows:
  assumes inv: "vmm_inv s" and f: "f \<in> free_frames s" "\<forall>g\<in>free_frames s. f \<le> g"
    and m: "\<forall>x. unat x div 4096 \<noteq> f \<longrightarrow> m x = mem s x"
  shows "grows s ((take_frame f s)\<lparr>mem := m\<rparr>)" "table_frames ((take_frame f s)\<lparr>mem := m\<rparr>) = table_frames s"
proof -
  let ?s = "(take_frame f s)\<lparr>mem := m\<rparr>"
  have tree: "vmm_tree s" and pinv: "pmm_inv s" using inv by (simp_all add: vmm_inv_def)
  have wf: "pmm_wf s" using pinv by (simp add: pmm_inv_def)
  have lt: "f < 32768" by (rule free_frames_bound [OF f(1)])
  have pm: "pml4 ?s = pml4 s" by (simp add: take_frame_def bitmap_set_def Let_def)
  have "f \<notin> table_frames s"
    using free_not_table [OF inv _ _ f(1)] by (auto simp: table_frames_def)
  then have "\<forall>x. unat x div 4096 \<in> table_frames s \<longrightarrow> m x = mem s x" using m by auto
  note path = tables_kept(1) [OF tree this] and pe = tables_kept(2) [OF tree this]
  have ff: "free_frames ?s = free_frames s - {f}" using free_frames_take [OF wf lt] by simp
  have used: "frame_used ?s g" if "frame_used s g" for g using that frame_used_take [OF wf lt] by simp
  have tree': "vmm_tree ?s"
    by (rule vmm_tree_cong [OF _ _ tree]) (use path used pm in simp_all)
  show tf: "table_frames ?s = table_frames s"
    by (rule table_frames_cong) (use path pm in simp)
  have pinv': "pmm_inv ?s" using pmm_inv_take [OF pinv f(1)] by simp
  have mm: "m x = mem s x" if "unat x div 4096 \<notin> table_frames s \<union> (free_frames s - (free_frames s - {f}))" for x
  proof -
    have "unat x div 4096 \<noteq> f" using that f(1) by auto
    then show ?thesis using m by simp
  qed
  show "grows s ?s"
    unfolding grows_def vmm_inv_def tf ff
    using pm tree' pinv' path pe f mm by (auto simp: less_le)
qed

text \<open>
  The kernel's way of mapping new memory: take a frame, perhaps fill it, map it. With four
  free frames (the page and at most three tables) it succeeds.
\<close>

lemma map_fresh:
  fixes s :: "'a vmm_state_scheme"
  assumes ok: "vmm_ok s" and room: "4 \<le> card (free_frames s)" and a: "pmm_alloc_frame s = (a, s1)"
    and m: "\<forall>x. unat x div 4096 \<noteq> unat a div 4096 \<longrightarrow> m x = mem s x"
    and s2: "s2 = vmm_map_page v a fl (s1\<lparr>mem := m\<rparr>)"
  obtains f where "a = frame_addr f" "a \<noteq> 0" "f \<in> free_frames s" "f \<notin> free_frames s2" "f \<notin> table_frames s2"
    "evolves s s2" "card (free_frames s) \<le> card (free_frames s2) + 4"
    "vmm_leaf s2 = (\<lambda>va. if same_page va v then frame_addr f OR ucast fl else vmm_leaf s va)"
    "\<forall>x. unat x div 4096 = f \<longrightarrow> mem s2 x = m x"
proof -
  define f where "f = Min (free_frames s)"
  have inv: "vmm_inv s" and ex: "mmu_exact s" using ok by (simp_all add: vmm_ok_def)
  then have pinv: "pmm_inv s" and wf: "pmm_wf s" by (simp_all add: vmm_inv_def pmm_inv_def)
  have ne: "free_frames s \<noteq> {}" using room by auto
  then have f: "f \<in> free_frames s" "\<forall>g\<in>free_frames s. f \<le> g" by (simp_all add: f_def)
  have lt: "f < 32768" "0 < f" using free_frames_bound [OF f(1)] pmm.avail_range [OF pinv] f(1) by auto
  have fa: "a = frame_addr f" "s1 = take_frame f s" using a ne wf by (simp_all add: pmm_alloc_frame_eq f_def)
  have nz: "a \<noteq> 0" using lt fa by (simp add: frame_addr_eq_0)
  let ?s = "s1\<lparr>mem := m\<rparr>"
  have m': "\<forall>x. unat x div 4096 \<noteq> f \<longrightarrow> m x = mem s x" using m lt by (simp add: fa unat_frame_addr)
  have g: "grows s ?s" unfolding fa(2) by (rule take_frame_grows(1) [OF inv f m'])
  have ev: "evolves s ?s" by (rule grows_evolves [OF g _ ex]) (simp add: fa)
  have ff: "free_frames ?s = free_frames s - {f}" using free_frames_take [OF wf lt(1)] by (simp add: fa)
  have c: "card (free_frames s) = Suc (card (free_frames ?s))"
    using card_Suc_Diff1 [OF finite_free_frames f(1)] unfolding ff by simp
  note O = vmm_map_page_outcome [OF evolves_ok [OF ev] s2]
  have d: "map_done v ((a AND PAGE_MASK) OR ucast fl) ?s s2"
    using O missing_tables_bound [of v ?s] c room by linarith
  have ev2: "evolves ?s s2" using O by blast
  have pm: "a AND PAGE_MASK = frame_addr f" using entry_addr_frame [of f] by (simp add: fa entry_addr_def)
  have leaf: "vmm_leaf ?s = vmm_leaf s" using grows_vmm_leaf [OF g] by (simp add: fun_eq_iff)
  have "f \<notin> table_frames s" using free_not_table [OF inv _ _ f(1)] by (auto simp: table_frames_def)
  then have nt': "f \<notin> table_frames ?s" using take_frame_grows(2) [OF inv f m'] by (simp add: fa)
  show thesis
  proof (rule that [OF fa(1) nz f(1)])
    show "f \<notin> free_frames s2" using evolves_free [OF ev2] ff by blast
    show "f \<notin> table_frames s2" using evolves_frames [OF ev2] nt' ff by blast
    show "evolves s s2" by (rule evolves_trans [OF ev ev2])
    show "card (free_frames s) \<le> card (free_frames s2) + 4"
      using d c missing_tables_bound [of v ?s] by (simp add: map_done_def)
    show "vmm_leaf s2 = (\<lambda>va. if same_page va v then frame_addr f OR ucast fl else vmm_leaf s va)"
      using d unfolding map_done_def leaf pm by blast
    show "\<forall>x. unat x div 4096 = f \<longrightarrow> mem s2 x = m x"
      using evolves_mem [OF ev2] nt' ff by auto
  qed
qed



text \<open>
  Consecutive pages from \<open>v\<close> mapped to the frames \<open>fs\<close>, one after the other, and what a
  loop over fresh frames establishes.
\<close>

fun page_run :: "u64 \<Rightarrow> nat list \<Rightarrow> u32 \<Rightarrow> (u64 \<Rightarrow> u64) \<Rightarrow> u64 \<Rightarrow> u64" where
  "page_run v [] fl l = l"
| "page_run v (f # fs) fl l =
     page_run (v + 4096) fs fl (\<lambda>va. if same_page va v then frame_addr f OR ucast fl else l va)"

definition fresh_run :: "u64 \<Rightarrow> nat list \<Rightarrow> u32 \<Rightarrow> 'a vmm_state_scheme \<Rightarrow> 'a vmm_state_scheme \<Rightarrow> bool" where
  "fresh_run v fs fl s s' \<longleftrightarrow> evolves s s' \<and> distinct fs \<and> set fs \<subseteq> free_frames s - free_frames s' \<and>
     set fs \<inter> table_frames s' = {} \<and> card (free_frames s) \<le> card (free_frames s') + 4 * length fs \<and>
     vmm_leaf s' = page_run v fs fl (vmm_leaf s)"

lemma fresh_run_evolves: "fresh_run v fs fl s s' \<Longrightarrow> evolves s s'"
  and fresh_run_leaf: "fresh_run v fs fl s s' \<Longrightarrow> vmm_leaf s' = page_run v fs fl (vmm_leaf s)"
  and fresh_run_card: "fresh_run v fs fl s s' \<Longrightarrow> card (free_frames s) \<le> card (free_frames s') + 4 * length fs"
  unfolding fresh_run_def by (elim conjE; blast)+

lemma fresh_run_Nil: "vmm_ok s \<Longrightarrow> fresh_run v [] fl s s"
  by (simp add: fresh_run_def evolves_refl)

lemma fresh_run_Cons:
  fixes s :: "'a vmm_state_scheme"
  assumes step: "evolves s s2" "card (free_frames s) \<le> card (free_frames s2) + 4"
    "f \<in> free_frames s" "f \<notin> free_frames s2" "f \<notin> table_frames s2"
    "vmm_leaf s2 = (\<lambda>va. if same_page va v then frame_addr f OR ucast fl else vmm_leaf s va)"
    and run: "fresh_run (v + 4096) fs fl s2 s'"
  shows "fresh_run v (f # fs) fl s s'"
proof -
  note R = run [unfolded fresh_run_def]
  have ev: "evolves s2 s'" by (rule fresh_run_evolves [OF run])
  have "evolves s s'" by (rule evolves_trans [OF step(1) ev])
  moreover have "f \<notin> set fs" using R step(4) by blast
  moreover have "f \<notin> free_frames s'" using evolves_free [OF ev] step(4) by blast
  moreover have "f \<notin> table_frames s'" using evolves_frames [OF ev] step(4,5) by blast
  moreover have "set fs \<subseteq> free_frames s - free_frames s'" using R evolves_free [OF step(1)] by blast
  moreover have "vmm_leaf s' = page_run v (f # fs) fl (vmm_leaf s)" using fresh_run_leaf [OF run] step(6) by simp
  ultimately show ?thesis
    unfolding fresh_run_def using R step(2,3) by simp
qed

lemma page_no_step:
  assumes "unat v mod 4096 = 0" "unat v + 4096 * Suc n \<le> 2 ^ 48" "0 < n"
  shows "unat (v + 4096) = unat v + 4096" "page_no (v + 4096) = Suc (page_no v)"
proof -
  show u: "unat (v + 4096) = unat v + 4096" using unat_add_small [of v 4096] assms by simp
  obtain k where k: "unat v = k * 4096" using assms(1) by (metis mod_0_imp_dvd dvdE mult.commute)
  then show "page_no (v + 4096) = Suc (page_no v)" using assms(2,3) by (simp add: page_no_eq u)
qed

lemma page_run_lookup:
  assumes "unat v mod 4096 = 0" "unat v + 4096 * length fs \<le> 2 ^ 48"
  shows "page_run v fs fl l va =
    (if page_no v \<le> page_no va \<and> page_no va < page_no v + length fs
     then frame_addr (fs ! (page_no va - page_no v)) OR ucast fl else l va)"
  using assms
proof (induction fs arbitrary: v l)
  case (Cons f fs)
  show ?case
  proof (cases "fs = []")
    case True
    then show ?thesis by (auto simp: same_page_no)
  next
    case False
    then have n: "0 < length fs" by simp
    have b: "unat v + 4096 * Suc (length fs) \<le> 2 ^ 48" using Cons.prems(2) by simp
    note st = page_no_step [OF Cons.prems(1) b n]
    have "unat (v + 4096) mod 4096 = 0" "unat (v + 4096) + 4096 * length fs \<le> 2 ^ 48"
      using Cons.prems st(1) by simp_all
    from Cons.IH [OF this] show ?thesis
      unfolding page_run.simps st(2) same_page_no
      by (auto simp: nth_Cons' Suc_le_eq)
  qed
qed auto

text \<open>Frames are taken from below: with enough free frames below \<open>b\<close>, none above is touched.\<close>

lemma taken_low:
  assumes ev: "evolves s s'" and c: "card (free_frames s) \<le> card (free_frames s') + n"
    and room: "n \<le> card {f \<in> free_frames s. f < b}"
  shows "free_frames s - free_frames s' \<subseteq> {..<b}"
proof
  let ?L = "{f \<in> free_frames s. f < b}" and ?T = "free_frames s - free_frames s'"
  fix f assume f: "f \<in> ?T"
  show "f \<in> {..<b}"
  proof (rule ccontr)
    assume b: "f \<notin> {..<b}"
    then have "insert f ?L \<subseteq> ?T" using f evolves_lowest [OF ev f] by fastforce
    then have "card (insert f ?L) \<le> card ?T" by (intro card_mono) auto
    moreover have "card (insert f ?L) = Suc (card ?L)" using b by (subst card_insert_disjoint) auto
    moreover have "card ?T = card (free_frames s) - card (free_frames s')"
      using evolves_free [OF ev] by (intro card_Diff_subset) auto
    ultimately show False using c room by linarith
  qed
qed


text \<open>\<open>vmm_init\<close>, with enough frames for the five tables of the first 4 MiB.\<close>

definition vmm_started :: "'a vmm_state_scheme \<Rightarrow> 'a vmm_state_scheme \<Rightarrow> bool" where
  "vmm_started s s' \<longleftrightarrow> vmm_ok s' \<and> vmm_leaf s' = identity_leaf 1024 \<and> cr3 s' = pml4 s' \<and>
     free_frames s' \<subseteq> free_frames s \<and> card (free_frames s) \<le> card (free_frames s') + 5 \<and>
     table_frames s' \<subseteq> free_frames s - free_frames s' \<and>
     (\<forall>f g. f \<in> free_frames s - free_frames s' \<longrightarrow> g \<in> free_frames s' \<longrightarrow> f < g)"

lemma print_vmm [simp]:
  "pml4 (serial_write str s) = pml4 s" "pml4 (serial_write_dec_u64 v s) = pml4 s"
  "pml4 (serial_write_hex_u64 v s) = pml4 s"
  by (simp_all add: print_eqs)

lemma vmm_init_started:
  fixes s :: "'a vmm_state_scheme"
  assumes inv: "pmm_inv s" and room: "5 \<le> card (free_frames s)"
  shows "vmm_started s (vmm_init s)"
proof -
  have ne: "free_frames s \<noteq> {}" using room by auto
  obtain t s1 where a: "alloc_table s = (t, s1)" by fastforce
  obtain f m' where r: "alloc_table s = (frame_addr f, (take_frame f s)\<lparr>mem := m'\<rparr>)" "frame_addr f \<noteq> 0" "0 < f"
    and f: "f \<in> free_frames s" "\<forall>g\<in>free_frames s. f \<le> g"
    and z: "\<forall>j<512. pt_entry m' (frame_addr f) j = 0"
    using inv a
  proof (cases rule: alloc_table_cases)
    case (2 f m')
    show thesis by (rule that [of f m']) (use a 2 in blast)+
  qed (use ne in blast)
  have fb: "f < 32768" and wf: "pmm_wf s" using f(1) free_frames_bound inv by (auto simp: pmm_inv_def)
  define s2 where "s2 = (take_frame f s)\<lparr>mem := m', pml4 := frame_addr f\<rparr>"
  define sp where "sp = serial_write ''\<newline>'' (serial_write_hex_u64 (4 * 1024 * 1024)
      (serial_write ''vmm: identity-mapping 0x0 to '' s2))"
  have sp: "mem sp = m'" "pml4 sp = frame_addr f" "free_frames sp = free_frames s - {f}" "pmm_inv sp" "frame_used sp f"
    using pmm_inv_take [OF inv f(1)] free_frames_take [OF wf fb] frame_used_take [OF wf fb]
    by (simp_all add: sp_def s2_def print_eqs) (simp_all add: frame_used_def)
  have "\<forall>j<512. pt_entry (mem sp) (frame_addr f) j = 0" using z sp(1) by simp
  note k = empty_tree(1-3) [OF this sp(2) r(3) fb sp(5,4)]
  have "card (free_frames sp) + 1 = card (free_frames s)"
    using card_Suc_Diff1 [OF finite_free_frames f(1)] by (simp add: sp(3))
  then have c: "id_need 0 \<le> card (free_frames sp)" "card (free_frames s) = card (free_frames sp) + 1"
    using room by (simp_all add: id_need_def)
  have "id_tables 0 sp" by (simp add: id_tables_def)
  from vmm_identity_map_ok [of 0 sp 0, OF _ _ _ this c(1)] k obtain s3 where s3:
    "vmm_identity_map 0 (1024 * 4096) 0 sp = (1024, s3)" "vmm_leaf s3 = identity_leaf 1024" "evolves sp s3"
    "card (free_frames sp) \<le> card (free_frames s3) + 4" by (auto simp: id_need_def)
  have "vmm_init s = serial_write ''vmm: page tables active\<newline>''
      ((serial_write ''vmm: loading CR3\<newline>'' (serial_write '' pages\<newline>'' (serial_write_dec_u64 (ucast (1024 :: u32))
        (serial_write ''vmm: mapped '' s3))))\<lparr>cr3 := pml4 s3\<rparr>)"
    using s3(1) r unfolding sp_def s2_def vmm_init_def Let_def by simp
  then have os: "vmm_init s = s3\<lparr>cr3 := pml4 s3, outs := outs (vmm_init s)\<rparr>" by (simp add: print_eqs)
  have tf: "table_frames s3 \<subseteq> free_frames s - free_frames s3"
    using evolves_frames [OF s3(3)] k sp(3) evolves_free [OF s3(3)] f(1) by auto
  have low: "f' < g" if "f' \<in> free_frames s - free_frames s3" "g \<in> free_frames s3" for f' g
  proof (cases "f' = f")
    case True
    have "g \<in> free_frames s" "g \<noteq> f" using that(2) evolves_free [OF s3(3)] sp(3) by auto
    with f(2) True show ?thesis by (simp add: order.strict_iff_order)
  next
    case False
    then show ?thesis using evolves_lowest [OF s3(3)] that sp(3) by blast
  qed
  have "free_frames s3 \<subseteq> free_frames s" using evolves_free [OF s3(3)] sp(3) by blast
  then have "vmm_started s (s3\<lparr>cr3 := pml4 s3, outs := outs (vmm_init s)\<rparr>)"
    unfolding vmm_started_def using evolves_ok [OF s3(3)] s3(2,4) c(2) tf low by simp
  then show ?thesis unfolding os [symmetric] .
qed

lemma boot_vmm_started:
  assumes "pmm_wf s"
  shows "vmm_started (boot_pmm s) (vmm_init (boot_pmm s))"
  by (rule vmm_init_started [OF boot_pmm_facts(1) [OF assms]]) (simp add: boot_pmm_facts(2) [OF assms])

text \<open>A machine after boot, and one with an empty tree and no free frame, for the witnesses.\<close>

definition cold_vmm :: vmm_state where
  "cold_vmm = pmm_state.extend cold_pmm \<lparr>pml4 = 0, cr3 = 0, invlpgs = []\<rparr>"

definition boot_vmm :: vmm_state where
  "boot_vmm = vmm_init (boot_pmm cold_vmm)"

definition full_vmm :: vmm_state where
  "full_vmm = cold_vmm\<lparr>pml4 := frame_addr 304, bitmap := replicate 4096 0xFF, used_frames := 32768\<rparr>"

lemma pmm_wf_cold_vmm: "pmm_wf cold_vmm"
  by (simp add: cold_vmm_def cold_pmm_def pmm_wf_def pmm_state.defs)

lemma boot_vmm_facts:
  "vmm_ok boot_vmm" "3 \<le> card (free_frames boot_vmm)" "vmm_leaf boot_vmm = identity_leaf 1024"
proof -
  have st: "vmm_started (boot_pmm cold_vmm) boot_vmm"
    unfolding boot_vmm_def by (rule boot_vmm_started [OF pmm_wf_cold_vmm])
  then show "vmm_ok boot_vmm" "vmm_leaf boot_vmm = identity_leaf 1024" by (simp_all add: vmm_started_def)
  show "3 \<le> card (free_frames boot_vmm)"
    using st by (simp add: vmm_started_def boot_pmm_facts(2) [OF pmm_wf_cold_vmm])
qed

lemma full_vmm_facts:
  "vmm_ok full_vmm" "free_frames full_vmm = {}" "missing_tables virt full_vmm = 3"
proof -
  have bits: "frame_used full_vmm f" if "f < 32768" for f
  proof -
    have "bitmap full_vmm ! (f div 8) = 0xFF"
      using that by (simp add: full_vmm_def less_mult_imp_div_less)
    moreover have "8 * (f div 8) \<le> f \<and> f < 8 * (f div 8) + 8" by auto
    ultimately show ?thesis unfolding byte_full_frames by blast
  qed
  then show free: "free_frames full_vmm = {}" by (auto simp: free_frames_def)
  have inv: "pmm_inv full_vmm"
    using bits [of 0] free by (simp add: pmm_inv_def) (simp add: full_vmm_def pmm_wf_def)
  have "mem full_vmm = (\<lambda>_. 0)" by (simp add: full_vmm_def cold_vmm_def cold_pmm_def pmm_state.defs)
  then have z: "\<forall>j<512. pt_entry (mem full_vmm) (frame_addr 304) j = 0"
    by (simp add: pt_entry_def load_le_numeral)
  note E = empty_tree [OF z _ _ _ bits inv]
  show "vmm_ok full_vmm" by (rule E(1)) (simp_all add: full_vmm_def)
  have "table_at (mem full_vmm) (pml4 full_vmm) p = None" if "valid_path p" "p \<noteq> []" for p
    using E(4) [OF _ _ _ _ that(1)] that(2) by (simp add: full_vmm_def)
  then show "missing_tables virt full_vmm = 3"
    by (simp add: missing_tables_def upper_valid page_path_def valid_path_def del: table_at.simps)
qed



section \<open>Properties of the page tables\<close>

lemma translation_mapped:
  assumes "flags AND 1 \<noteq> 0" "ucast flags AND PAGE_MASK = 0"
  shows "translation va ((phys AND PAGE_MASK) OR ucast flags) =
    Some ((phys AND PAGE_MASK) OR (va AND 0xFFF), ucast flags AND 6)"
proof -
  have "bit flags 0" using assms(1) by (simp add: and_one_eq bit_0 odd_iff_mod_2_eq_one)
  then have "present ((phys AND PAGE_MASK) OR ucast flags)"
    by (simp add: present_bit bit_or_iff bit_ucast_iff)
  moreover have "entry_addr ((phys AND PAGE_MASK) OR ucast flags) = phys AND PAGE_MASK"
    by (simp add: entry_addr_or [OF assms(2)]) (simp add: entry_addr_def)
  ultimately show ?thesis unfolding translation_def leaf_rights by simp
qed

text \<open>
  C3 \<open>vmm_map_page\<close> implements the update of one page of the address space. When frames
  are left for the tables that are missing, the processor afterwards translates every
  address of that page to the given frame, with exactly the write and user rights asked
  for, although the rights of the upper levels are shared; it translates every other address
  as before; and the invariant of the tables is kept.
\<close>

theorem vmm_map_page_refines:
  assumes "vmm_ok s" "missing_tables virt s \<le> card (free_frames s)"
    and "flags AND 1 \<noteq> 0" "ucast flags AND PAGE_MASK = 0"
    and "s' = vmm_map_page virt phys flags s"
  shows "vmm_ok s' \<and> mmu_walk (mem s') (pml4 s') va =
    (if same_page va virt then Some ((phys AND PAGE_MASK) OR (va AND 0xFFF), ucast flags AND 6)
     else mmu_walk (mem s) (pml4 s) va)"
proof -
  have ok': "vmm_ok s'" unfolding assms(5) by (rule vmm.inv_map [OF assms(1)])
  moreover have "vmm_leaf s' va = (if same_page va virt then (phys AND PAGE_MASK) OR ucast flags else vmm_leaf s va)"
    unfolding assms(5) vmm.leaf_map [OF assms(1,2)] by (rule refl)
  moreover have "mmu_exact s" "mmu_exact s'" using assms(1) ok' by (simp_all add: vmm_ok_def)
  ultimately show ?thesis
    using translation_mapped [OF assms(3,4)] by (simp add: mmu_exact_walk)
qed

theorem vmm_map_page_refines_witness:
  "mmu_walk (mem (vmm_map_page 0x400000 0x200000 7 boot_vmm)) (pml4 (vmm_map_page 0x400000 0x200000 7 boot_vmm)) 0x400123 =
     Some (0x200123, 6)"
proof -
  have "missing_tables 0x400000 boot_vmm \<le> card (free_frames boot_vmm)"
    using boot_vmm_facts(2) missing_tables_bound [of "0x400000" boot_vmm] by simp
  from vmm_map_page_refines [OF boot_vmm_facts(1) this _ _ refl, of 7 "0x200000" "0x400123"]
  show ?thesis by (simp add: PAGE_MASK_def same_page_div)
qed

text \<open>
  C29 When frames run out half way, \<open>vmm_map_page\<close> returns silently: the translation of
  every address stays as it was and the tables stay well formed, but the frames it took for
  tables stay taken, so none is left.
\<close>

theorem vmm_map_page_out_of_frames:
  assumes "vmm_ok s" "card (free_frames s) < missing_tables virt s"
    and "s' = vmm_map_page virt phys flags s"
  shows "vmm_ok s' \<and> mmu_walk (mem s') (pml4 s') va = mmu_walk (mem s) (pml4 s) va \<and> free_frames s' = {}"
proof -
  note O = vmm_map_page_outcome [OF assms(1,3)]
  then have "vmm_ok s'" "vmm_leaf s' = vmm_leaf s" "free_frames s' = {}" using assms(2) evolves_ok by blast+
  moreover from this assms(1) have "mmu_exact s" "mmu_exact s'" by (simp_all add: vmm_ok_def)
  ultimately show ?thesis by (simp add: mmu_exact_walk)
qed

theorem vmm_map_page_out_of_frames_witness:
  "vmm_ok (vmm_map_page 0 0 3 full_vmm) \<and> free_frames (vmm_map_page 0 0 3 full_vmm) = {}"
  using vmm_map_page_out_of_frames [OF full_vmm_facts(1) _ refl, of 0 0 3] full_vmm_facts(2) full_vmm_facts(3) [of 0] by simp

text \<open>
  C15 The tables are private memory. \<open>vmm_map_page\<close> writes only to frames that hold
  tables already or that it takes from the allocator for new tables, whether it succeeds or
  not; no frame that holds a table is ever free; and nothing else of the kernel's state
  changes but the allocator.
\<close>

theorem vmm_map_page_frame:
  assumes "vmm_ok s" "s' = vmm_map_page virt phys flags s"
  shows "(\<forall>x. mem s' x \<noteq> mem s x \<longrightarrow>
      unat x div 4096 \<in> table_frames s \<or> unat x div 4096 \<in> free_frames s - free_frames s') \<and>
    table_frames s' \<inter> free_frames s' = {} \<and> same_but_tables s s'"
proof -
  have ev: "evolves s s'" using vmm_map_page_outcome [OF assms] by blast
  have "vmm_inv s'" using evolves_ok [OF ev] by (simp add: vmm_ok_def)
  then have "table_frames s' \<inter> free_frames s' = {}"
    using free_not_table by (fastforce simp: table_frames_def)
  then show ?thesis using evolves_mem [OF ev] evolves_same [OF ev] by blast
qed

theorem vmm_map_page_frame_witness:
  "table_frames (vmm_map_page 0x400000 0x200000 7 boot_vmm) \<inter> free_frames (vmm_map_page 0x400000 0x200000 7 boot_vmm) = {}"
  using vmm_map_page_frame [OF boot_vmm_facts(1) refl] by blast

text \<open>
  C16 \<open>vmm_unmap_page\<close> removes exactly one page: its addresses are no longer translated,
  all others are as before. The processor's cached translation of the page is dropped
  whenever its table exists, in particular whenever it was mapped.
\<close>

theorem vmm_unmap_page_refines:
  assumes "vmm_ok s" "s' = vmm_unmap_page virt s"
  shows "vmm_ok s' \<and> mmu_walk (mem s') (pml4 s') va =
      (if same_page va virt then None else mmu_walk (mem s) (pml4 s) va) \<and>
    (mmu_walk (mem s) (pml4 s) virt \<noteq> None \<longrightarrow> invlpgs s' = virt # invlpgs s)"
proof -
  note U = vmm_unmap_page_facts [OF assms(1), of virt, folded assms(2)]
  have ex: "mmu_exact s" "mmu_exact s'" using assms(1) U(1) by (simp_all add: vmm_ok_def)
  have "invlpgs s' = virt # invlpgs s" if "mmu_walk (mem s) (pml4 s) virt \<noteq> None"
  proof -
    have "present (vmm_leaf s virt)" using that ex(1) by (auto simp: mmu_exact_walk translation_def split: if_splits)
    then obtain pt where "table_at (mem s) (pml4 s) (page_path virt) = Some pt"
      by (auto simp: vmm_leaf_def present_def split: option.splits)
    then show ?thesis by (simp add: assms(2) vmm_unmap_page_eq)
  qed
  then show ?thesis
    using U(1,2) ex by (simp add: mmu_exact_walk) (simp add: translation_def present_def)
qed

theorem vmm_unmap_page_refines_witness:
  "mmu_walk (mem (vmm_unmap_page 0x1000 boot_vmm)) (pml4 (vmm_unmap_page 0x1000 boot_vmm)) 0x1234 = None"
  using vmm_unmap_page_refines [OF boot_vmm_facts(1) refl, of "0x1000" "0x1234"] by (simp add: same_page_div)

text \<open>
  C28 Mapping a page that was not mapped and unmapping it again gives the translation of
  every address back, also when the mapping failed.
\<close>

theorem vmm_map_unmap_roundtrip:
  assumes "vmm_ok s" "\<And>a. same_page a virt \<Longrightarrow> vmm_leaf s a = 0"
    and "s' = vmm_unmap_page virt (vmm_map_page virt phys flags s)"
  shows "mmu_walk (mem s') (pml4 s') = mmu_walk (mem s) (pml4 s)"
proof
  fix va
  have "vmm_leaf s' = vmm_leaf s" unfolding assms(3) by (rule vmm.unmap_map [OF assms(1,2)])
  moreover have "mmu_exact s" "mmu_exact s'"
    using vmm.inv_unmap [OF vmm.inv_map [OF assms(1)]] assms(1,3) by (simp_all add: vmm_ok_def)
  ultimately show "mmu_walk (mem s') (pml4 s') va = mmu_walk (mem s) (pml4 s) va"
    by (simp add: mmu_exact_walk)
qed

theorem vmm_map_unmap_roundtrip_witness:
  "mmu_walk (mem (vmm_unmap_page 0x400000 (vmm_map_page 0x400000 0x200000 7 boot_vmm)))
     (pml4 (vmm_unmap_page 0x400000 (vmm_map_page 0x400000 0x200000 7 boot_vmm))) =
   mmu_walk (mem boot_vmm) (pml4 boot_vmm)"
proof (rule vmm_map_unmap_roundtrip [OF boot_vmm_facts(1) _ refl])
  fix a assume "same_page a 0x400000"
  moreover have "page_no 0x400000 = 1024" by (simp add: page_no_eq)
  ultimately show "vmm_leaf boot_vmm a = 0" by (simp add: boot_vmm_facts(3) identity_leaf_def same_page_no)
qed

text \<open>
  C20 With five free frames \<open>vmm_init\<close> succeeds: it establishes the invariant of the
  tables, loads their root into \<open>CR3\<close>, and the processor then translates the addresses
  below 4 MiB to themselves, writable and for the kernel only, and no other address.
\<close>

theorem vmm_init_identity:
  assumes "pmm_inv s" "5 \<le> card (free_frames s)" "unat va < 2 ^ 48"
  shows "vmm_ok (vmm_init s) \<and> cr3 (vmm_init s) = pml4 (vmm_init s) \<and>
    mmu_walk (mem (vmm_init s)) (cr3 (vmm_init s)) va = (if unat va < 4 * 1024 * 1024 then Some (va, 2) else None)"
proof -
  have st: "vmm_started s (vmm_init s)" by (rule vmm_init_started [OF assms(1,2)])
  then have "mmu_exact (vmm_init s)" by (simp add: vmm_started_def vmm_ok_def)
  then show ?thesis
    using st translation_identity [OF assms(3)] by (simp add: vmm_started_def mmu_exact_walk)
qed

theorem vmm_init_identity_witness:
  "mmu_walk (mem (vmm_init (boot_pmm cold_vmm))) (cr3 (vmm_init (boot_pmm cold_vmm))) 0x123456 = Some (0x123456, 2)"
proof -
  have "5 \<le> card (free_frames (boot_pmm cold_vmm))" by (simp add: boot_pmm_facts(2) [OF pmm_wf_cold_vmm])
  moreover have "unat (0x123456 :: u64) < 2 ^ 48" by simp
  ultimately have "mmu_walk (mem (vmm_init (boot_pmm cold_vmm))) (cr3 (vmm_init (boot_pmm cold_vmm))) 0x123456 =
      (if unat (0x123456 :: u64) < 4 * 1024 * 1024 then Some (0x123456, 2) else None)"
    using vmm_init_identity [OF boot_pmm_facts(1) [OF pmm_wf_cold_vmm]] by blast
  then show ?thesis by simp
qed


end
