(* ===== verification/Kheap.thy ===== *)
theory Kheap
  imports Vmm
begin
text \<open>
  The kernel heap, \<open>kheap.c\<close>: blocks that follow one another from \<open>heap_start\<close> to
  \<open>heap_end\<close>, each with a 16-byte header in front of its payload.
\<close>

section \<open>Data\<close>

abbreviation (input) HEADER_SIZE :: u64 where "HEADER_SIZE \<equiv> 16"
abbreviation (input) KHEAP_START :: u64 where "KHEAP_START \<equiv> 0x200000"
abbreviation (input) KHEAP_INITIAL_SIZE :: u64 where "KHEAP_INITIAL_SIZE \<equiv> 64 * 1024"
abbreviation (input) KHEAP_MAX_SIZE :: u64 where "KHEAP_MAX_SIZE \<equiv> 16 * 1024 * 1024"
abbreviation (input) KHEAP_MIN_BLOCK :: u64 where "KHEAP_MIN_BLOCK \<equiv> 32"

definition kheap_align_up :: "u64 \<Rightarrow> u64 \<Rightarrow> u64" where
  "kheap_align_up x a = (x + a - 1) AND NOT (a - 1)"

record kheap_state = vmm_state +
  heap_start :: u64
  heap_end :: u64
  free_list :: u64

text \<open>\<open>struct block_header\<close>: \<open>size\<close> at 0, \<open>free\<close> at 8, \<open>_pad\<close> at 12.\<close>

abbreviation block_size :: "'a machine_scheme \<Rightarrow> u64 \<Rightarrow> u64" where
  "block_size s b \<equiv> get64 s b"

abbreviation block_free :: "'a machine_scheme \<Rightarrow> u64 \<Rightarrow> bool" where
  "block_free s b \<equiv> get32 s (b + 8) \<noteq> 0"

definition put_header :: "u64 \<Rightarrow> u64 \<Rightarrow> 'a machine_scheme \<Rightarrow> 'a machine_scheme" where
  "put_header b sz s =
     (let s = put64 b sz s; s = put32 (b + 8) 1 s
      in put32 (b + 12) 0 s)"


section \<open>Operations\<close>

text \<open>
  The loop of \<open>kheap_map_region\<close>. Its sizes are multiples of the page size, so that the
  64-bit counter of the code reaches \<open>size\<close> without wrapping around.
\<close>

function kheap_map_loop :: "u64 \<Rightarrow> nat \<Rightarrow> nat \<Rightarrow> 'a kheap_state_scheme \<Rightarrow> 'a kheap_state_scheme" where
  "kheap_map_loop start sz off s =
     (if off < sz
      then let (phys, s) = pmm_alloc_frame s
           in if phys = 0 then serial_write ''kheap: out of physical frames\<newline>'' s
              else kheap_map_loop start sz (off + 4096)
                     (vmm_map_page (start + of_nat off) phys (VMM_FLAG_PRESENT OR VMM_FLAG_WRITE) s)
      else s)"
  by pat_completeness auto
termination
  by (relation "measure (\<lambda>(_, sz, off, _). sz - off)") auto

declare kheap_map_loop.simps [simp del]

definition kheap_map_region :: "u64 \<Rightarrow> u64 \<Rightarrow> 'a kheap_state_scheme \<Rightarrow> 'a kheap_state_scheme" where
  "kheap_map_region start sz s = kheap_map_loop start (unat sz) 0 s"

definition kheap_init :: "'a kheap_state_scheme \<Rightarrow> 'a kheap_state_scheme" where
  "kheap_init s =
     (let s = s\<lparr>heap_start := KHEAP_START\<rparr>;
          s = s\<lparr>heap_end := heap_start s + KHEAP_INITIAL_SIZE\<rparr>;
          s = serial_write ''kheap: mapping heap at '' s;
          s = serial_write_hex_u64 (heap_start s) s;
          s = serial_write '' size='' s;
          s = serial_write_dec_u64 KHEAP_INITIAL_SIZE s;
          s = serial_write ''\<newline>'' s;
          s = kheap_map_region (heap_start s) KHEAP_INITIAL_SIZE s;
          s = s\<lparr>free_list := heap_start s\<rparr>;
          s = put_header (free_list s) KHEAP_INITIAL_SIZE s
      in serial_write ''kheap: ready\<newline>'' s)"

text \<open>The walk to the last block in \<open>kheap_expand\<close>; 0 is its null pointer.\<close>

partial_function (option) kheap_last :: "u64 \<Rightarrow> u64 \<Rightarrow> 'a kheap_state_scheme \<Rightarrow> u64 option" where
  "kheap_last cur lst s =
     (if cur < heap_end s then kheap_last (cur + block_size s cur) cur s else Some lst)"

definition kheap_expand :: "u64 \<Rightarrow> 'a kheap_state_scheme \<Rightarrow> (bool \<times> 'a kheap_state_scheme) option" where
  "kheap_expand min_size s =
     (let expand = kheap_align_up min_size PMM_PAGE_SIZE;
          expand = (if expand < PMM_PAGE_SIZE then PMM_PAGE_SIZE else expand)
      in if heap_end s + expand > KHEAP_START + KHEAP_MAX_SIZE
         then Some (False, serial_write ''kheap: max size reached\<newline>'' s)
         else do {
           let s = serial_write ''kheap: expanding by '' s;
           let s = serial_write_dec_u64 expand s;
           let s = serial_write '' bytes\<newline>'' s;
           let s = kheap_map_region (heap_end s) expand s;
           let new_block = heap_end s;
           let s = put_header new_block expand s;
           lst \<leftarrow> kheap_last (heap_start s) 0 s;
           let s = s\<lparr>heap_end := heap_end s + expand\<rparr>;
           Some (True,
             if lst \<noteq> 0 \<and> block_free s lst
             then put64 lst (block_size s lst + block_size s new_block) s
             else s)
         })"

text \<open>
  The walk of \<open>kmalloc\<close>: \<open>Some (Some b)\<close> when block \<open>b\<close> fits, \<open>Some None\<close> when the end is
  reached, \<open>None\<close> when it never ends.
\<close>

partial_function (option) kmalloc_find :: "u64 \<Rightarrow> u64 \<Rightarrow> 'a kheap_state_scheme \<Rightarrow> u64 option option" where
  "kmalloc_find need cur s =
     (if cur < heap_end s
      then if block_free s cur \<and> block_size s cur \<ge> need then Some (Some cur)
           else kmalloc_find need (cur + block_size s cur) s
      else Some None)"

text \<open>The body of the walk when the block \<open>cur\<close> fits.\<close>

definition kmalloc_take :: "u64 \<Rightarrow> u64 \<Rightarrow> 'a kheap_state_scheme \<Rightarrow> u64 \<times> 'a kheap_state_scheme" where
  "kmalloc_take need cur s =
     (let s = (if block_size s cur \<ge> need + KHEAP_MIN_BLOCK
               then let split = cur + need;
                        s = put_header split (block_size s cur - need) s
                    in put64 cur need s
               else s);
          s = put32 (cur + 8) 0 s
      in (cur + HEADER_SIZE, s))"

text \<open>The label \<open>retry\<close> of \<open>kmalloc\<close>.\<close>

partial_function (option) kmalloc_retry :: "u64 \<Rightarrow> 'a kheap_state_scheme \<Rightarrow> (u64 \<times> 'a kheap_state_scheme) option" where
  "kmalloc_retry need s = do {
     found \<leftarrow> kmalloc_find need (heap_start s) s;
     case found of
       Some cur \<Rightarrow> Some (kmalloc_take need cur s)
     | None \<Rightarrow> do {
         (grown, s) \<leftarrow> kheap_expand need s;
         if grown then kmalloc_retry need s else Some (0, s)
       }
   }"

definition kmalloc :: "u64 \<Rightarrow> 'a kheap_state_scheme \<Rightarrow> (u64 \<times> 'a kheap_state_scheme) option" where
  "kmalloc sz s =
     (if sz = 0 then Some (0, s)
      else let need = kheap_align_up (sz + HEADER_SIZE) 8;
               need = (if need < KHEAP_MIN_BLOCK then KHEAP_MIN_BLOCK else need)
           in kmalloc_retry need s)"

text \<open>The inner and the outer loop of \<open>kfree\<close>.\<close>

partial_function (option) kfree_merge :: "u64 \<Rightarrow> u64 \<Rightarrow> 'a kheap_state_scheme \<Rightarrow> 'a kheap_state_scheme option" where
  "kfree_merge cur next s =
     (if next < heap_end s \<and> block_free s next
      then let s = put64 cur (block_size s cur + block_size s next) s
           in kfree_merge cur (cur + block_size s cur) s
      else Some s)"

partial_function (option) kfree_coalesce :: "u64 \<Rightarrow> 'a kheap_state_scheme \<Rightarrow> 'a kheap_state_scheme option" where
  "kfree_coalesce cur s =
     (if cur < heap_end s
      then do {
        s \<leftarrow> (if block_free s cur then kfree_merge cur (cur + block_size s cur) s else Some s);
        kfree_coalesce (cur + block_size s cur) s
      }
      else Some s)"

definition kfree :: "u64 \<Rightarrow> 'a kheap_state_scheme \<Rightarrow> 'a kheap_state_scheme option" where
  "kfree ptr s =
     (if ptr = 0 then Some s
      else let block = ptr - HEADER_SIZE;
               s = put32 (block + 8) 1 s
           in kfree_coalesce (heap_start s) s)"



section \<open>The blocks of the heap\<close>

text \<open>
  Addresses inside the heap are far below \<open>2 ^ 64\<close>, so the blocks are described with
  natural numbers: the size and the flag in the header at \<open>a\<close>, and \<open>tiles m a bs e\<close>: the
  blocks \<open>bs\<close> (size and whether it is free) follow one another from \<open>a\<close> to \<open>e\<close>.
\<close>

type_synonym blocks = "(nat \<times> bool) list"

definition blk_size :: "memory \<Rightarrow> nat \<Rightarrow> nat" where
  "blk_size m a = unat (load64 m (of_nat a))"

definition blk_free :: "memory \<Rightarrow> nat \<Rightarrow> bool" where
  "blk_free m a \<longleftrightarrow> load32 m (of_nat a + 8) \<noteq> 0"

fun tiles :: "memory \<Rightarrow> nat \<Rightarrow> blocks \<Rightarrow> nat \<Rightarrow> bool" where
  "tiles m a [] e \<longleftrightarrow> a = e"
| "tiles m a ((n, f) # bs) e \<longleftrightarrow>
     32 \<le> n \<and> n mod 8 = 0 \<and> blk_size m a = n \<and> blk_free m a = f \<and> tiles m (a + n) bs e"

definition span :: "blocks \<Rightarrow> nat" where
  "span bs = sum_list (map fst bs)"

lemma span_simps [simp]: "span [] = 0" "span (b # bs) = fst b + span bs" "span (xs @ ys) = span xs + span ys"
  by (simp_all add: span_def)

lemma tiles_end: "tiles m a bs e \<Longrightarrow> e = a + span bs"
  by (induction m a bs e rule: tiles.induct) auto

lemma tiles_append: "tiles m a (xs @ ys) e \<longleftrightarrow> tiles m a xs (a + span xs) \<and> tiles m (a + span xs) ys e"
proof (induction xs arbitrary: a)
  case (Cons b xs)
  then show ?case by (cases b) (auto simp: add.assoc)
qed simp

text \<open>Two memories that agree on the bytes from \<open>lo\<close> up to \<open>hi\<close>.\<close>

definition agree :: "nat \<Rightarrow> nat \<Rightarrow> memory \<Rightarrow> memory \<Rightarrow> bool" where
  "agree lo hi m m' \<longleftrightarrow> (\<forall>x. lo \<le> unat x \<longrightarrow> unat x < hi \<longrightarrow> m' x = m x)"

lemma agree_load:
  assumes "agree lo hi m m'" "lo \<le> unat a" "unat a + k \<le> hi" "hi \<le> 2 ^ 64"
  shows "load_le k m' a = (load_le k m a :: 'a::len word)"
proof (rule load_le_cong)
  fix i assume "i < k"
  then have "unat (a + of_nat i) = unat a + i" using assms by (intro unat_add_of_nat) simp
  then show "m' (a + of_nat i) = m (a + of_nat i)"
    using assms \<open>i < k\<close> by (simp add: agree_def)
qed

lemma agree_blk:
  assumes "agree a (a + 16) m m'" "a + 16 \<le> 2 ^ 64"
  shows "blk_size m' a = blk_size m a" "blk_free m' a = blk_free m a"
proof -
  have u: "unat (of_nat a :: u64) = a" using assms by (simp add: unat_of_nat_small)
  then have "unat (of_nat a + 8 :: u64) = a + 8"
    using unat_add_of_nat [of "of_nat a :: u64" 8] assms by simp
  with u show "blk_size m' a = blk_size m a" "blk_free m' a = blk_free m a"
    unfolding blk_size_def blk_free_def
    by (simp_all add: agree_load [OF assms(1) _ _ assms(2)])
qed

lemma agree_subset: "agree lo hi m m' \<Longrightarrow> lo \<le> lo' \<Longrightarrow> hi' \<le> hi \<Longrightarrow> agree lo' hi' m m'"
  by (auto simp: agree_def)

lemma tiles_agree:
  assumes "agree a e m m'" "tiles m a bs e" "e \<le> 2 ^ 64"
  shows "tiles m' a bs e"
  using assms
proof (induction m a bs e rule: tiles.induct)
  case (2 m a n f bs e)
  have e: "e = a + n + span bs" and n: "32 \<le> n" using tiles_end [of m "a + n" bs e] 2(3) by auto
  have "agree a (a + 16) m m'" using 2(2) e n by (auto intro: agree_subset)
  then have "blk_size m' a = blk_size m a" "blk_free m' a = blk_free m a"
    using agree_blk e n 2(4) by auto
  moreover have "tiles m' (a + n) bs e"
    using 2 n by (intro 2(1)) (auto intro: agree_subset)
  ultimately show ?case using 2(3) by simp
qed simp

text \<open>Storing to a header.\<close>

lemma unat_hdr:
  assumes "a + 16 \<le> 2 ^ 64"
  shows "unat (of_nat a :: u64) = a" "unat (of_nat a + 8 :: u64) = a + 8" "unat (of_nat a + 12 :: u64) = a + 12"
proof -
  show u: "unat (of_nat a :: u64) = a" using assms by (simp add: unat_of_nat_small)
  show "unat (of_nat a + 8 :: u64) = a + 8" "unat (of_nat a + 12 :: u64) = a + 12"
    using unat_add_of_nat [of "of_nat a :: u64" 8] unat_add_of_nat [of "of_nat a :: u64" 12] assms u by simp_all
qed

lemma store_size:
  assumes "a + 16 \<le> 2 ^ 64"
  shows "blk_size (store64 m (of_nat a) v) a = unat v" "blk_free (store64 m (of_nat a) v) a = blk_free m a"
    "\<And>x. unat x < a \<or> a + 8 \<le> unat x \<Longrightarrow> store64 m (of_nat a) v x = m x"
proof -
  note u = unat_hdr [OF assms]
  show "blk_size (store64 m (of_nat a) v) a = unat v" by (simp add: blk_size_def)
  have "apart (of_nat a) 8 (of_nat a + 8) 4" using assms by (intro apartI_nat) (simp_all add: u)
  then show "blk_free (store64 m (of_nat a) v) a = blk_free m a"
    by (simp add: blk_free_def load_store_apart)
  show "store64 m (of_nat a) v x = m x" if "unat x < a \<or> a + 8 \<le> unat x" for x
    using assms that by (intro store_outside_nat) (auto simp: u)
qed

lemma store_free:
  assumes "a + 16 \<le> 2 ^ 64"
  shows "blk_size (store32 m (of_nat a + 8) v) a = blk_size m a" "blk_free (store32 m (of_nat a + 8) v) a \<longleftrightarrow> v \<noteq> 0"
    "\<And>x. unat x < a + 8 \<or> a + 12 \<le> unat x \<Longrightarrow> store32 m (of_nat a + 8) v x = m x"
proof -
  note u = unat_hdr [OF assms]
  have "apart (of_nat a + 8) 4 (of_nat a) 8" using assms by (intro apartI_nat) (simp_all add: u)
  then show "blk_size (store32 m (of_nat a + 8) v) a = blk_size m a"
    by (simp add: blk_size_def load_store_apart)
  show "blk_free (store32 m (of_nat a + 8) v) a \<longleftrightarrow> v \<noteq> 0" by (simp add: blk_free_def)
  show "store32 m (of_nat a + 8) v x = m x" if "unat x < a + 8 \<or> a + 12 \<le> unat x" for x
    using assms that by (intro store_outside_nat) (auto simp: u)
qed

lemma store_pad:
  assumes "a + 16 \<le> 2 ^ 64"
  shows "blk_size (store32 m (of_nat a + 12) v) a = blk_size m a" "blk_free (store32 m (of_nat a + 12) v) a = blk_free m a"
    "\<And>x. unat x < a + 12 \<or> a + 16 \<le> unat x \<Longrightarrow> store32 m (of_nat a + 12) v x = m x"
proof -
  note u = unat_hdr [OF assms]
  have "apart (of_nat a + 12) 4 (of_nat a) 8" "apart (of_nat a + 12) 4 (of_nat a + 8) 4"
    using assms by (intro apartI_nat; simp add: u)+
  then show "blk_size (store32 m (of_nat a + 12) v) a = blk_size m a" "blk_free (store32 m (of_nat a + 12) v) a = blk_free m a"
    by (simp_all add: blk_size_def blk_free_def load_store_apart)
  show "store32 m (of_nat a + 12) v x = m x" if "unat x < a + 12 \<or> a + 16 \<le> unat x" for x
    using assms that by (intro store_outside_nat) (auto simp: u)
qed

lemma put_header_mem:
  assumes "a + 16 \<le> 2 ^ 64"
  shows "blk_size (mem (put_header (of_nat a) v s)) a = unat v" "blk_free (mem (put_header (of_nat a) v s)) a"
    "\<And>x. unat x < a \<or> a + 16 \<le> unat x \<Longrightarrow> mem (put_header (of_nat a) v s) x = mem s x"
proof -
  note st = store_size [OF assms] store_free [OF assms] store_pad [OF assms]
  show "blk_size (mem (put_header (of_nat a) v s)) a = unat v" "blk_free (mem (put_header (of_nat a) v s)) a"
    by (simp_all add: put_header_def st)
  show "mem (put_header (of_nat a) v s) x = mem s x" if "unat x < a \<or> a + 16 \<le> unat x" for x
  proof -
    have "unat x < a \<or> a + 8 \<le> unat x" "unat x < a + 8 \<or> a + 12 \<le> unat x" "unat x < a + 12 \<or> a + 16 \<le> unat x"
      using that by auto
    then show ?thesis by (simp add: put_header_def st(3,6,9))
  qed
qed



section \<open>Allocation from the free blocks\<close>

text \<open>
  First fit on the list of blocks: the address of the block taken and the blocks
  afterwards, the rest of the block split off when it is large enough.
\<close>

definition take_block :: "nat \<Rightarrow> nat \<Rightarrow> blocks" where
  "take_block t n = (if t + 32 \<le> n then [(t, False), (n - t, True)] else [(n, False)])"

fun first_fit :: "nat \<Rightarrow> nat \<Rightarrow> blocks \<Rightarrow> (nat \<times> blocks) option" where
  "first_fit t a [] = None"
| "first_fit t a ((n, f) # bs) =
     (if f \<and> t \<le> n then Some (a, take_block t n @ bs)
      else map_option (\<lambda>(b, bs'). (b, (n, f) # bs')) (first_fit t (a + n) bs))"

lemma first_fit_split:
  assumes "first_fit t a bs = Some (b, bs')"
  obtains xs n ys where "bs = xs @ (n, True) # ys" "b = a + span xs" "t \<le> n" "bs' = xs @ take_block t n @ ys"
  using assms
proof (induction t a bs arbitrary: bs' thesis rule: first_fit.induct)
  case (2 t a n f bs)
  show ?case
  proof (cases "f \<and> t \<le> n")
    case True
    then show ?thesis using 2(2) [of "[]" n bs] 2(3) by simp
  next
    case False
    then obtain bs'' where b: "first_fit t (a + n) bs = Some (b, bs'')" "bs' = (n, f) # bs''" using 2(3) by auto
    from 2(1) [OF False _ b(1)] obtain xs k ys where
      "bs = xs @ (k, True) # ys" "b = a + n + span xs" "t \<le> k" "bs'' = xs @ take_block t k @ ys" by blast
    then show ?thesis using 2(2) [of "(n, f) # xs" k ys] b(2) by simp
  qed
qed simp

lemma tiles_bounds:
  assumes "tiles m a ((n, f) # bs) e"
  shows "a + 32 \<le> e" "a + n \<le> e"
  using assms tiles_end [OF assms] by auto

lemma block_word:
  assumes "tiles m a ((n, f) # bs) e"
  shows "load64 m (of_nat a) = of_nat n" "of_nat a + load64 m (of_nat a) = (of_nat (a + n) :: u64)"
proof -
  have n: "n = unat (load64 m (of_nat a))" using assms by (simp add: blk_size_def)
  show "load64 m (of_nat a) = of_nat n" unfolding n by simp
  then show "of_nat a + load64 m (of_nat a) = (of_nat (a + n) :: u64)" by simp
qed

lemma kmalloc_find_tiles:
  assumes "tiles (mem s) a bs (unat (heap_end s))"
  shows "kmalloc_find t (of_nat a) s = Some (map_option (\<lambda>(b, _). of_nat b) (first_fit (unat t) a bs))"
  using assms
proof (induction bs arbitrary: a)
  case Nil
  then show ?case by (subst kmalloc_find.simps) simp
next
  case (Cons b bs)
  obtain n f where b: "b = (n, f)" by (cases b)
  note T = Cons.prems [unfolded b]
  have e: "a + 32 \<le> unat (heap_end s)" using tiles_bounds(1) [OF T] .
  then have a: "unat (of_nat a :: u64) = a" using unat_lt2p [of "heap_end s"] by (intro unat_of_nat_small) simp
  then have lt: "(of_nat a :: u64) < heap_end s" using e by (simp add: word_less_nat_alt)
  have sz: "t \<le> block_size s (of_nat a) \<longleftrightarrow> unat t \<le> n" using T by (simp add: word_le_nat_alt blk_size_def)
  have fr: "block_free s (of_nat a) \<longleftrightarrow> f" using T by (simp add: blk_free_def)
  have IH: "kmalloc_find t (of_nat (a + n)) s = Some (map_option (\<lambda>(b, _). of_nat b) (first_fit (unat t) (a + n) bs))"
    using T by (intro Cons.IH) simp
  show ?case
    using lt sz fr IH block_word(2) [OF T]
    by (subst kmalloc_find.simps) (auto simp: b option.map_comp comp_def split_def)
qed

text \<open>Taking the block: only bytes of the block itself are written.\<close>

lemma kmalloc_take_tiles:
  assumes T: "tiles (mem s) a (xs @ (n, True) # ys) e" and e: "e \<le> 2 ^ 63"
    and t: "32 \<le> unat t" "unat t mod 8 = 0" "unat t \<le> n"
  defines "b \<equiv> a + span xs"
  defines "r \<equiv> kmalloc_take t (of_nat b) s"
  shows "fst r = of_nat (b + 16)" "tiles (mem (snd r)) a (xs @ take_block (unat t) n @ ys) e"
    "\<And>x. unat x < b \<or> b + n \<le> unat x \<Longrightarrow> mem (snd r) x = mem s x"
    "snd r = s\<lparr>mem := mem (snd r)\<rparr>"
proof -
  have Tx: "tiles (mem s) a xs b" and Tb: "tiles (mem s) b ((n, True) # ys) e"
    using T by (simp_all add: tiles_append b_def)
  have Ty: "tiles (mem s) (b + n) ys e" and n: "32 \<le> n" "n mod 8 = 0" using Tb by simp_all
  have be: "b + n \<le> e" using tiles_bounds [OF Tb] by simp
  have le: "a \<le> b" by (simp add: b_def)
  have sz: "block_size s (of_nat b) = of_nat n" using block_word(1) [OF Tb] .
  have un: "unat (of_nat n :: u64) = n" using be e by (intro unat_of_nat_small) simp
  have ut: "unat (t + 32) = unat t + 32" using unat_add_small [of t 32] t be e by simp
  have split: "block_size s (of_nat b) \<ge> t + 32 \<longleftrightarrow> unat t + 32 \<le> n"
    by (simp add: sz word_le_nat_alt un ut)
  have b16: "b + 16 \<le> 2 ^ 64" using be n e by simp
  show "fst r = of_nat (b + 16)" by (simp add: r_def kmalloc_take_def)
  let ?m = "mem (snd r)"
  have "tiles ?m b (take_block (unat t) n) (b + n) \<and> (\<forall>x. unat x < b \<or> b + n \<le> unat x \<longrightarrow> ?m x = mem s x)"
  proof (cases "unat t + 32 \<le> n")
    case True
    let ?c = "b + unat t"
    have c16: "?c + 16 \<le> 2 ^ 64" using True be e by simp
    have cw: "of_nat b + t = (of_nat ?c :: u64)" by simp
    let ?s1 = "put_header (of_nat ?c) (of_nat n - t) s"
    have m: "?m = store32 (store64 (mem ?s1) (of_nat b) t) (of_nat b + 8) 0"
      using split True by (simp add: r_def kmalloc_take_def Let_def sz cw del: of_nat_add)
    note H = put_header_mem [OF c16, where v = "of_nat n - t" and s = s]
    note S = store_size [OF b16, where m = "mem ?s1" and v = t]
    note F = store_free [OF b16, where m = "store64 (mem ?s1) (of_nat b) t" and v = 0]
    have out: "?m x = mem ?s1 x" if "unat x < b \<or> b + 16 \<le> unat x" for x
    proof -
      have "unat x < b + 8 \<or> b + 12 \<le> unat x" "unat x < b \<or> b + 8 \<le> unat x" using that by auto
      then show ?thesis unfolding m using F(3) S(3) by simp
    qed
    have "unat (of_nat n - t) = n - unat t"
      using True un by (simp add: unat_sub_if_size word_le_nat_alt)
    moreover have "agree ?c (?c + 16) (mem ?s1) ?m" unfolding agree_def using out t by auto
    ultimately have c: "blk_size ?m ?c = n - unat t" "blk_free ?m ?c"
      using agree_blk [OF _ c16] H by simp_all
    have bb: "blk_size ?m b = unat t" "\<not> blk_free ?m b" unfolding m using F S by simp_all
    have "(n - unat t) mod 8 = 0" using t n True by (simp add: mod_eq_0_iff_dvd)
    then have "tiles ?m b (take_block (unat t) n) (b + n)"
      using True t n bb c by (simp add: take_block_def)
    moreover have "?m x = mem s x" if "unat x < b \<or> b + n \<le> unat x" for x
      using that out [of x] H(3) [of x] True t by auto
    ultimately show ?thesis by blast
  next
    case False
    have m: "?m = store32 (mem s) (of_nat b + 8) 0"
      using split False by (simp add: r_def kmalloc_take_def Let_def)
    note F = store_free [OF b16, where m = "mem s" and v = 0]
    have "blk_size ?m b = n" "\<not> blk_free ?m b" unfolding m using F Tb by simp_all
    then have "tiles ?m b (take_block (unat t) n) (b + n)" using False n by (simp add: take_block_def)
    moreover have "?m x = mem s x" if "unat x < b \<or> b + n \<le> unat x" for x
      unfolding m using that n by (intro F(3)) auto
    ultimately show ?thesis by blast
  qed
  then have new: "tiles ?m b (take_block (unat t) n) (b + n)"
    and out: "\<And>x. unat x < b \<or> b + n \<le> unat x \<Longrightarrow> ?m x = mem s x" by blast+
  show "\<And>x. unat x < b \<or> b + n \<le> unat x \<Longrightarrow> ?m x = mem s x" by (rule out)
  have "agree a b (mem s) ?m" "agree (b + n) e (mem s) ?m" using out by (auto simp: agree_def)
  then have "tiles ?m a xs b" "tiles ?m (b + n) ys e"
    using tiles_agree Tx Ty be le e by auto
  moreover have "span (take_block (unat t) n) = n" using t by (simp add: take_block_def)
  ultimately show "tiles ?m a (xs @ take_block (unat t) n @ ys) e"
    using new by (simp add: tiles_append b_def)
  show "snd r = s\<lparr>mem := ?m\<rparr>"
    by (simp add: r_def kmalloc_take_def Let_def put_header_def put64_def put32_def)
qed



section \<open>Freeing and coalescing\<close>

text \<open>The blocks after \<open>kfree\<close>'s walk: every run of free blocks becomes one.\<close>

fun merge_free :: "nat \<Rightarrow> blocks \<Rightarrow> nat \<times> blocks" where
  "merge_free n [] = (n, [])"
| "merge_free n ((k, True) # bs) = merge_free (n + k) bs"
| "merge_free n ((k, False) # bs) = (n, (k, False) # bs)"

lemma merge_free_length: "merge_free n bs = (n', bs') \<Longrightarrow> length bs' \<le> length bs"
  by (induction n bs rule: merge_free.induct) auto

function coalesce :: "blocks \<Rightarrow> blocks" where
  "coalesce [] = []"
| "coalesce ((n, False) # bs) = (n, False) # coalesce bs"
| "coalesce ((n, True) # bs) = (let (n', bs') = merge_free n bs in (n', True) # coalesce bs')"
  by pat_completeness auto
termination
  by (relation "measure length") (auto dest: merge_free_length [OF sym] simp: less_Suc_eq_le)

text \<open>The size fields of the free blocks, all that the walk writes.\<close>

fun free_hdrs :: "nat \<Rightarrow> blocks \<Rightarrow> nat set" where
  "free_hdrs a [] = {}"
| "free_hdrs a ((n, f) # bs) = (if f then {a..<a + 8} else {}) \<union> free_hdrs (a + n) bs"

lemma merge_free_hdrs:
  "merge_free n bs = (n', bs') \<Longrightarrow> free_hdrs (a + n') bs' \<subseteq> free_hdrs (a + n) bs \<and> n' + span bs' = n + span bs"
  by (induction n bs rule: merge_free.induct) (auto simp: add.assoc)

lemma free_hdrs_low: "free_hdrs a bs \<subseteq> {a..}"
proof (induction a bs rule: free_hdrs.induct)
  case (2 a n f bs)
  then show ?case by (auto dest: subsetD)
qed simp

lemma kfree_merge_tiles:
  assumes "tiles (mem s) a ((n, True) # bs) (unat (heap_end s))" "unat (heap_end s) \<le> 2 ^ 63"
    "merge_free n bs = (n', bs')"
  shows "\<exists>m. kfree_merge (of_nat a) (of_nat (a + n)) s = Some (s\<lparr>mem := m\<rparr>) \<and>
    tiles m a ((n', True) # bs') (unat (heap_end s)) \<and>
    (\<forall>x. unat x < a \<or> a + 8 \<le> unat x \<longrightarrow> m x = mem s x)"
  using assms
proof (induction n bs arbitrary: s rule: merge_free.induct)
  case (1 n)
  then show ?case by (subst kfree_merge.simps) (auto intro!: exI [of _ "mem s"])
next
  case (2 n k bs)
  let ?e = "unat (heap_end s)"
  note T = "2.prems"(1)
  have Tk: "tiles (mem s) (a + n) ((k, True) # bs) ?e" using T by simp
  have b: "a + n + 32 \<le> ?e" "a + n + k \<le> ?e" using tiles_bounds [OF Tk] by auto
  have k: "32 \<le> k" "k mod 8 = 0" and n: "32 \<le> n" "n mod 8 = 0" using T by auto
  have a16: "a + 16 \<le> 2 ^ 64" using b "2.prems"(2) by simp
  have u: "unat (of_nat (a + n) :: u64) = a + n" using b "2.prems"(2) by (intro unat_of_nat_small) simp
  have lt: "(of_nat (a + n) :: u64) < heap_end s" using b u by (simp add: word_less_nat_alt del: of_nat_add)
  have fr: "block_free s (of_nat (a + n))" using Tk by (simp add: blk_free_def)
  have sz: "block_size s (of_nat a) + block_size s (of_nat (a + n)) = of_nat (n + k)"
    using block_word(1) [OF T] block_word(1) [OF Tk] by simp
  let ?m = "store64 (mem s) (of_nat a) (of_nat (n + k))"
  let ?s = "s\<lparr>mem := ?m\<rparr>"
  have step: "kfree_merge (of_nat a) (of_nat (a + n)) s = kfree_merge (of_nat a) (of_nat (a + (n + k))) ?s"
    using lt fr sz by (subst kfree_merge.simps) (simp add: put64_def del: of_nat_add, simp)
  note S = store_size [OF a16, where m = "mem s" and v = "of_nat (n + k)"]
  have "unat (of_nat (n + k) :: u64) = n + k" using b "2.prems"(2) by (intro unat_of_nat_small) simp
  then have h: "blk_size ?m a = n + k" "blk_free ?m a" using S T by simp_all
  have "agree (a + n + k) ?e (mem s) ?m" unfolding agree_def using S(3) n k by auto
  then have "tiles ?m (a + n + k) bs ?e" using tiles_agree [of "a + n + k" ?e "mem s" ?m bs] Tk "2.prems"(2) by simp
  then have T': "tiles (mem ?s) a ((n + k, True) # bs) (unat (heap_end ?s))"
    using h n k by (simp add: add.assoc mod_eq_0_iff_dvd)
  from "2.IH" [OF T'] "2.prems"(2,3) obtain m where
    m: "kfree_merge (of_nat a) (of_nat (a + (n + k))) ?s = Some (?s\<lparr>mem := m\<rparr>)"
      "tiles m a ((n', True) # bs') ?e" "\<forall>x. unat x < a \<or> a + 8 \<le> unat x \<longrightarrow> m x = ?m x" by auto
  have "m x = mem s x" if "unat x < a \<or> a + 8 \<le> unat x" for x using m(3) S(3) [of x] that by (auto simp del: of_nat_add)
  then show ?case using m(1,2) step by (intro exI [of _ m]) simp
next
  case (3 n k bs)
  have T: "tiles (mem s) (a + n) ((k, False) # bs) (unat (heap_end s))" using 3(1) by simp
  then have "\<not> block_free s (of_nat (a + n))" by (simp add: blk_free_def)
  then show ?case using 3 by (subst kfree_merge.simps) (auto intro!: exI [of _ "mem s"])
qed

lemma kfree_coalesce_tiles:
  assumes "tiles (mem s) a bs (unat (heap_end s))" "unat (heap_end s) \<le> 2 ^ 63"
  shows "\<exists>m. kfree_coalesce (of_nat a) s = Some (s\<lparr>mem := m\<rparr>) \<and> tiles m a (coalesce bs) (unat (heap_end s)) \<and>
    (\<forall>x. unat x \<notin> free_hdrs a bs \<longrightarrow> m x = mem s x)"
  using assms
proof (induction bs arbitrary: a s rule: coalesce.induct)
  case 1
  then show ?case by (subst kfree_coalesce.simps) (auto intro!: exI [of _ "mem s"])
next
  case (2 n bs)
  let ?e = "unat (heap_end s)"
  note T = "2.prems"(1)
  have a: "a + 32 \<le> ?e" "a + n \<le> ?e" using tiles_bounds [OF T] by auto
  then have u: "unat (of_nat a :: u64) = a" using "2.prems"(2) by (intro unat_of_nat_small) simp
  then have lt: "(of_nat a :: u64) < heap_end s" using a by (simp add: word_less_nat_alt)
  have fr: "\<not> block_free s (of_nat a)" using T by (simp add: blk_free_def)
  from "2.IH" [of s "a + n"] T "2.prems"(2) obtain m where
    m: "kfree_coalesce (of_nat (a + n)) s = Some (s\<lparr>mem := m\<rparr>)" "tiles m (a + n) (coalesce bs) ?e"
      "\<forall>x. unat x \<notin> free_hdrs (a + n) bs \<longrightarrow> m x = mem s x" by auto
  have "agree a (a + 16) (mem s) m" unfolding agree_def using m(3) free_hdrs_low [of "a + n" bs] T by fastforce
  then have "blk_size m a = n" "\<not> blk_free m a"
    using agree_blk [of a "mem s" m] a "2.prems"(2) T by auto
  then have "tiles m a (coalesce ((n, False) # bs)) ?e" using m(2) T by simp
  moreover have "kfree_coalesce (of_nat a) s = Some (s\<lparr>mem := m\<rparr>)"
    using lt fr m(1) block_word(2) [OF T] by (subst kfree_coalesce.simps) simp
  ultimately show ?case using m(3) by (intro exI [of _ m]) simp
next
  case (3 n bs)
  let ?e = "unat (heap_end s)"
  note T = "3.prems"(1)
  obtain n' bs' where mf: "merge_free n bs = (n', bs')" by fastforce
  have a: "a + 32 \<le> ?e" "a + n \<le> ?e" using tiles_bounds [OF T] by auto
  then have u: "unat (of_nat a :: u64) = a" using "3.prems"(2) by (intro unat_of_nat_small) simp
  then have lt: "(of_nat a :: u64) < heap_end s" using a by (simp add: word_less_nat_alt)
  have fr: "block_free s (of_nat a)" using T by (simp add: blk_free_def)
  from kfree_merge_tiles [OF T "3.prems"(2) mf] obtain m1 where
    m1: "kfree_merge (of_nat a) (of_nat (a + n)) s = Some (s\<lparr>mem := m1\<rparr>)" "tiles m1 a ((n', True) # bs') ?e"
      "\<forall>x. unat x < a \<or> a + 8 \<le> unat x \<longrightarrow> m1 x = mem s x" by blast
  let ?s = "s\<lparr>mem := m1\<rparr>"
  from "3.IH" [OF mf [symmetric] refl, of ?s "a + n'"] m1(2) "3.prems"(2) obtain m where
    m: "kfree_coalesce (of_nat (a + n')) ?s = Some (?s\<lparr>mem := m\<rparr>)" "tiles m (a + n') (coalesce bs') ?e"
      "\<forall>x. unat x \<notin> free_hdrs (a + n') bs' \<longrightarrow> m x = m1 x" by auto
  have "agree a (a + 16) m1 m" unfolding agree_def using m(3) free_hdrs_low [of "a + n'" bs'] m1(2) by fastforce
  then have "blk_size m a = n'" "blk_free m a"
    using agree_blk [of a m1 m] a "3.prems"(2) m1(2) by auto
  then have "tiles m a (coalesce ((n, True) # bs)) ?e" using m(2) m1(2) by (simp add: mf)
  moreover have "kfree_coalesce (of_nat a) s = Some (s\<lparr>mem := m\<rparr>)"
    using lt fr m1(1) m(1) block_word(2) [OF T] block_word(2) [OF m1(2)]
    by (subst kfree_coalesce.simps) simp
  moreover have "m x = mem s x" if "unat x \<notin> free_hdrs a ((n, True) # bs)" for x
    using that m(3) m1(3) merge_free_hdrs [OF mf, of a] by auto
  ultimately show ?case by blast
qed



section \<open>Live payloads\<close>

text \<open>The payloads in use, each as its address and length.\<close>

fun live :: "nat \<Rightarrow> blocks \<Rightarrow> (nat \<times> nat) set" where
  "live a [] = {}"
| "live a ((n, f) # bs) = (if f then {} else {(a + 16, n - 16)}) \<union> live (a + n) bs"

lemma live_append: "live a (xs @ ys) = live a xs \<union> live (a + span xs) ys"
  by (induction a xs rule: live.induct) (auto simp: add.assoc)

lemma live_merge: "merge_free n bs = (n', bs') \<Longrightarrow> live (a + n') bs' = live (a + n) bs"
  by (induction n bs rule: merge_free.induct) (auto simp: add.assoc)

lemma live_coalesce: "live a (coalesce bs) = live a bs"
proof (induction bs arbitrary: a rule: coalesce.induct)
  case (3 n bs)
  obtain n' bs' where mf: "merge_free n bs = (n', bs')" by fastforce
  from 3 [OF mf [symmetric] refl, of "a + n'"] live_merge [OF mf, of a] show ?case by (simp add: mf)
qed auto

lemma live_take: "live b (take_block t n) = {(b + 16, (if t + 32 \<le> n then t else n) - 16)}"
  by (simp add: take_block_def)

lemma live_bounds:
  assumes "tiles m a bs e" "(p, k) \<in> live a bs"
  shows "a + 16 \<le> p" "p + k \<le> e" "16 \<le> k" "p mod 8 = a mod 8" "k mod 8 = 0"
proof -
  have "a + 16 \<le> p \<and> p + k \<le> e \<and> 16 \<le> k \<and> p mod 8 = a mod 8 \<and> k mod 8 = 0"
    using assms
  proof (induction a bs rule: live.induct)
    case (2 a n f bs)
    have T: "tiles m (a + n) bs e" and n: "32 \<le> n" "n mod 8 = 0" using "2.prems"(1) by simp_all
    then have e: "a + n \<le> e" using tiles_end [OF T] by simp
    have mod: "(a + n) mod 8 = a mod 8" using n(2) by presburger
    have "(a + 16) mod 8 = a mod 8" "(n - 16) mod 8 = 0" using n by presburger+
    then show ?case using "2.IH" [OF T] "2.prems"(2) e n mod by (auto split: if_splits)
  qed simp
  then show "a + 16 \<le> p" "p + k \<le> e" "16 \<le> k" "p mod 8 = a mod 8" "k mod 8 = 0" by simp_all
qed

text \<open>Payloads in use share no byte, not even with their headers, nor with a free block's header.\<close>

lemma live_disjoint:
  assumes "tiles m a bs e" "(p, k) \<in> live a bs" "(q, l) \<in> live a bs" "p \<noteq> q"
  shows "p + k + 16 \<le> q \<or> q + l + 16 \<le> p"
  using assms
proof (induction a bs rule: live.induct)
  case (2 a n f bs)
  have T: "tiles m (a + n) bs e" and n: "32 \<le> n" using "2.prems"(1) by simp_all
  have "a + n + 16 \<le> p" if "(p, k) \<in> live (a + n) bs" using live_bounds(1) [OF T that] .
  moreover have "a + n + 16 \<le> q" if "(q, l) \<in> live (a + n) bs" using live_bounds(1) [OF T that] .
  ultimately show ?case using "2.IH" [OF T] "2.prems" n by (auto split: if_splits)
qed simp

lemma live_unique:
  assumes "tiles m a bs e" "(p, k) \<in> live a bs" "(p, l) \<in> live a bs"
  shows "k = l"
  using assms
proof (induction a bs rule: live.induct)
  case (2 a n f bs)
  have T: "tiles m (a + n) bs e" and n: "32 \<le> n" using "2.prems"(1) by simp_all
  have "a + n + 16 \<le> p" if "(p, j) \<in> live (a + n) bs" for j using live_bounds(1) [OF T that] .
  then show ?case using "2.IH" [OF T] "2.prems" n by (fastforce split: if_splits)
qed simp

lemma live_free_hdrs:
  assumes "tiles m a bs e" "(p, k) \<in> live a bs" "x \<in> free_hdrs a bs"
  shows "x < p \<or> p + k \<le> x"
  using assms
proof (induction a bs rule: live.induct)
  case (2 a n f bs)
  have T: "tiles m (a + n) bs e" and n: "32 \<le> n" using "2.prems"(1) by simp_all
  have "a + n + 16 \<le> p" if "(p, k) \<in> live (a + n) bs" using live_bounds(1) [OF T that] .
  moreover have "a + n \<le> x" if "x \<in> free_hdrs (a + n) bs" using that free_hdrs_low [of "a + n" bs] by auto
  ultimately show ?case using "2.IH" [OF T] "2.prems" n by (auto split: if_splits)
qed simp

lemma live_split:
  assumes "(p, k) \<in> live a bs"
  obtains xs n ys where "bs = xs @ (n, False) # ys" "p = a + span xs + 16" "k = n - 16"
  using assms
proof (induction a bs arbitrary: thesis rule: live.induct)
  case (2 a n f bs)
  show ?case
  proof (cases "(p, k) \<in> live (a + n) bs")
    case True
    from "2.IH" [OF _ True] obtain xs j ys where "bs = xs @ (j, False) # ys" "p = a + n + span xs + 16" "k = j - 16"
      by blast
    then show ?thesis using "2.prems"(1) [of "(n, f) # xs"] by simp
  next
    case False
    then have "\<not> f" "p = a + 16" "k = n - 16" using "2.prems"(2) by (auto split: if_splits)
    then show ?thesis using "2.prems"(1) [of "[]" n bs] by simp
  qed
qed simp

lemma coalesce_no_adjacent:
  "coalesce bs = xs @ (n, f) # (k, g) # ys \<Longrightarrow> \<not> (f \<and> g)"
proof (induction bs arbitrary: xs rule: coalesce.induct)
  case (2 n bs)
  then show ?case by (cases xs) auto
next
  case (3 j bs)
  obtain n' bs' where mf: "merge_free j bs = (n', bs')" by fastforce
  have stop: "\<not> (\<exists>k r. bs' = (k, True) # r)" using mf by (induction j bs rule: merge_free.induct) auto
  have hd: "coalesce bs' \<noteq> (k, True) # r" for k r
    using stop by (cases bs' rule: coalesce.cases) auto
  show ?case
  proof (cases xs)
    case Nil
    with "3.prems" mf hd show ?thesis by auto
  next
    case (Cons z zs)
    with "3.prems" mf have "coalesce bs' = zs @ (n, f) # (k, g) # ys" by simp
    from "3.IH" [OF mf [symmetric] refl this] show ?thesis .
  qed
qed simp


end
