(* ===== verification/Heap_Allocator.thy ===== *)
theory Heap_Allocator
  imports Kheap
begin
text \<open>
  What the heap promises. The invariant ties the blocks to the pages that back them;
  \<open>kmalloc\<close>, \<open>kfree\<close> and \<open>kheap_init\<close> are shown to keep it and to implement first fit on
  the list of blocks; the locale \<open>heap_allocator\<close> is the interface that tasks and files use.
\<close>


section \<open>The invariant of the heap\<close>

text \<open>
  The pages of the heap are backed by the frames \<open>fs\<close>: pairwise different, not free, and
  not page tables.
\<close>

definition heap_pages :: "nat list \<Rightarrow> 'a kheap_state_scheme \<Rightarrow> bool" where
  "heap_pages fs s \<longleftrightarrow> unat (heap_end s) = 0x200000 + 4096 * length fs \<and> distinct fs \<and>
     set fs \<subseteq> {..<32768} - free_frames s - table_frames s \<and>
     (\<forall>va. 512 \<le> page_no va \<longrightarrow> page_no va < 512 + length fs \<longrightarrow>
        vmm_leaf s va = frame_addr (fs ! (page_no va - 512)) OR 3)"

text \<open>
  \<open>heap_inv bs s\<close>: the blocks \<open>bs\<close> fill the heap from its start to its end, its pages are
  backed, and all page tables lie below it.
\<close>

definition heap_base :: "'a kheap_state_scheme \<Rightarrow> bool" where
  "heap_base s \<longleftrightarrow> vmm_ok s \<and> table_frames s \<subseteq> {..<512} \<and> heap_start s = 0x200000 \<and>
     unat (heap_end s) \<le> 0x1200000 \<and> (\<exists>fs. heap_pages fs s)"

definition heap_inv :: "blocks \<Rightarrow> 'a kheap_state_scheme \<Rightarrow> bool" where
  "heap_inv bs s \<longleftrightarrow> heap_base s \<and> bs \<noteq> [] \<and> tiles (mem s) 0x200000 bs (unat (heap_end s))"

lemma heap_base_vmm: "heap_base s \<Longrightarrow> vmm_ok s"
  and heap_base_tables: "heap_base s \<Longrightarrow> table_frames s \<subseteq> {..<512}"
  by (simp_all add: heap_base_def)

lemma heap_inv_tiles: "heap_inv bs s \<Longrightarrow> tiles (mem s) 0x200000 bs (unat (heap_end s))"
  and heap_inv_end: "heap_inv bs s \<Longrightarrow> unat (heap_end s) \<le> 0x1200000"
  and heap_inv_start: "heap_inv bs s \<Longrightarrow> heap_start s = 0x200000"
  and heap_inv_vmm: "heap_inv bs s \<Longrightarrow> vmm_ok s"
  and heap_inv_tables: "heap_inv bs s \<Longrightarrow> table_frames s \<subseteq> {..<512}"
  and heap_inv_nonempty: "heap_inv bs s \<Longrightarrow> bs \<noteq> []"
  and heap_inv_base: "heap_inv bs s \<Longrightarrow> heap_base s"
  by (simp_all add: heap_inv_def heap_base_def)

lemma heap_view:
  assumes "mem s' = mem s" "pml4 s' = pml4 s" "bitmap s' = bitmap s" "used_frames s' = used_frames s"
    "heap_start s' = heap_start s" "heap_end s' = heap_end s"
  shows "heap_inv bs s' = heap_inv bs s"
proof -
  have "free_frames s' = free_frames s" using assms by (simp add: free_frames_def frame_used_def)
  then show ?thesis using assms vmm_view [OF assms(1-4)]
    unfolding heap_inv_def heap_base_def heap_pages_def by presburger
qed

lemma heap_inv_outs [simp]: "heap_inv bs (s\<lparr>outs := x\<rparr>) = heap_inv bs s"
  by (rule heap_view) simp_all

text \<open>Writes inside the heap keep the tables, so that only the blocks matter.\<close>

lemma heap_base_write:
  assumes base: "heap_base s" and m: "\<forall>x. unat x < 0x200000 \<longrightarrow> m x = mem s x"
  shows "heap_base (s\<lparr>mem := m\<rparr>)" "table_frames (s\<lparr>mem := m\<rparr>) = table_frames s"
proof -
  have "m x = mem s x" if "unat x div 4096 \<in> table_frames s" for x
  proof -
    have "unat x div 4096 < 512" using that heap_base_tables [OF base] by auto
    then have "unat x < 0x200000" by (simp add: div_less_iff_less_mult)
    then show ?thesis using m by blast
  qed
  then have "\<forall>x. unat x div 4096 \<in> table_frames s \<longrightarrow> m x = mem s x" by blast
  note W = vmm_write [OF heap_base_vmm [OF base] this]
  show "table_frames (s\<lparr>mem := m\<rparr>) = table_frames s" by (rule W)
  obtain fs where "heap_pages fs s" using base by (auto simp: heap_base_def)
  then have "heap_pages fs (s\<lparr>mem := m\<rparr>)" by (simp add: heap_pages_def W)
  then show "heap_base (s\<lparr>mem := m\<rparr>)" using base W unfolding heap_base_def by (simp; blast)
qed

lemma heap_write:
  assumes "heap_inv bs s" "\<forall>x. unat x < 0x200000 \<longrightarrow> m x = mem s x"
    "tiles m 0x200000 bs' (unat (heap_end s))" "bs' \<noteq> []"
  shows "heap_inv bs' (s\<lparr>mem := m\<rparr>)"
  using assms heap_base_write(1) [OF heap_inv_base] by (simp add: heap_inv_def)

text \<open>What the operations of the heap leave alone: every part of the state of later components.\<close>

definition same_but_heap :: "'a kheap_state_scheme \<Rightarrow> 'a kheap_state_scheme \<Rightarrow> bool" where
  "same_but_heap s s' \<longleftrightarrow> s' = s\<lparr>mem := mem s', outs := outs s', bitmap := bitmap s', used_frames := used_frames s',
     heap_end := heap_end s'\<rparr>"

lemma same_but_heapE:
  assumes "same_but_heap s s'"
  obtains m o' b u e where "s' = s\<lparr>mem := m, outs := o', bitmap := b, used_frames := u, heap_end := e\<rparr>"
  using assms unfolding same_but_heap_def by blast

lemma same_but_heapI:
  "s' = s\<lparr>mem := m, outs := o', bitmap := b, used_frames := u, heap_end := e\<rparr> \<Longrightarrow> same_but_heap s s'"
  by (simp add: same_but_heap_def)

lemma same_but_heap_upd [simp]: "same_but_heap s s" "same_but_heap s (s\<lparr>mem := m\<rparr>)" "same_but_heap s (s\<lparr>outs := x\<rparr>)"
  "same_but_heap s (s\<lparr>heap_end := e\<rparr>)" "same_but_heap s (put64 a v s)" "same_but_heap s (put32 a w s)"
  by (simp_all add: same_but_heap_def put64_def put32_def)

lemma same_but_tables_heap:
  assumes "same_but_tables s s'"
  shows "same_but_heap s s'"
proof -
  obtain m b u where "s' = s\<lparr>mem := m, bitmap := b, used_frames := u\<rparr>"
    using assms unfolding same_but_tables_def by blast
  then show ?thesis by (simp add: same_but_heap_def)
qed

lemma same_but_heap_trans:
  assumes "same_but_heap s s'" "same_but_heap s' s''"
  shows "same_but_heap s s''"
proof -
  obtain m o' b u e where 1: "s' = s\<lparr>mem := m, outs := o', bitmap := b, used_frames := u, heap_end := e\<rparr>"
    using same_but_heapE [OF assms(1)] .
  obtain m' o'' b' u' e' where 2: "s'' = s'\<lparr>mem := m', outs := o'', bitmap := b', used_frames := u', heap_end := e'\<rparr>"
    using same_but_heapE [OF assms(2)] .
  show ?thesis unfolding same_but_heap_def 2 1 by simp
qed

text \<open>
  Memory below the heap that is neither a page table nor free: the kernel's image and its
  boot stack. No operation of the heap writes there.
\<close>

definition static_byte :: "'a vmm_state_scheme \<Rightarrow> u64 \<Rightarrow> bool" where
  "static_byte s x \<longleftrightarrow> unat x < 0x200000 \<and> unat x div 4096 \<notin> table_frames s \<union> free_frames s"

lemma static_evolves:
  assumes "evolves s s'" "static_byte s x"
  shows "static_byte s' x" "mem s' x = mem s x"
  using assms(2) evolves_free [OF assms(1)] evolves_frames [OF assms(1)] evolves_mem [OF assms(1), of x]
  by (auto simp: static_byte_def)

lemma static_view:
  assumes "mem s' = mem s" "pml4 s' = pml4 s" "bitmap s' = bitmap s" "used_frames s' = used_frames s"
  shows "static_byte s' = static_byte s"
  using vmm_view(3) [OF assms] assms(3) by (simp add: static_byte_def free_frames_def frame_used_def fun_eq_iff)

lemma static_write:
  assumes "heap_base s" "\<forall>x. unat x < 0x200000 \<longrightarrow> m x = mem s x"
  shows "static_byte (s\<lparr>mem := m\<rparr>) = static_byte s"
  unfolding static_byte_def heap_base_write(2) [OF assms] by simp

text \<open>Taking a fitting block, as a step of the invariant.\<close>

lemma heap_take:
  assumes inv: "heap_inv bs s" and t: "32 \<le> unat t" "unat t mod 8 = 0"
    and fit: "first_fit (unat t) 0x200000 bs = Some (b, bs')"
  shows "\<exists>m k. kmalloc_take t (of_nat b) s = (of_nat (b + 16), s\<lparr>mem := m\<rparr>) \<and> heap_inv bs' (s\<lparr>mem := m\<rparr>) \<and>
    unat t \<le> k + 16 \<and> live 0x200000 bs' = insert (b + 16, k) (live 0x200000 bs) \<and>
    (\<forall>q l. (q, l) \<in> live 0x200000 bs \<longrightarrow> q + l \<le> b \<or> b + k + 32 \<le> q) \<and>
    (\<forall>q l x. (q, l) \<in> live 0x200000 bs \<longrightarrow> q \<le> unat x \<longrightarrow> unat x < q + l \<longrightarrow> m x = mem s x) \<and>
    (\<forall>x. unat x < 0x200000 \<longrightarrow> m x = mem s x)"
proof -
  let ?e = "unat (heap_end s)"
  obtain xs n ys where bs: "bs = xs @ (n, True) # ys" and b: "b = 0x200000 + span xs"
    and tn: "unat t \<le> n" and bs': "bs' = xs @ take_block (unat t) n @ ys"
    using first_fit_split [OF fit] .
  have T: "tiles (mem s) 0x200000 (xs @ (n, True) # ys) ?e" using heap_inv_tiles [OF inv] bs by simp
  have e: "?e \<le> 2 ^ 63" using heap_inv_end [OF inv] by simp
  note K = kmalloc_take_tiles [OF T e t tn, folded b]
  let ?r = "kmalloc_take t (of_nat b) s"
  let ?m = "mem (snd ?r)"
  have r: "?r = (of_nat (b + 16), s\<lparr>mem := ?m\<rparr>)" using K(1) K(4) by (metis prod.collapse)
  have low: "\<forall>x. unat x < 0x200000 \<longrightarrow> ?m x = mem s x" using K(3) b by simp
  then have inv': "heap_inv bs' (s\<lparr>mem := ?m\<rparr>)"
    by (rule heap_write [OF inv]) (use K(2) bs' in \<open>simp_all add: take_block_def\<close>)
  define k where "k = (if unat t + 32 \<le> n then unat t else n) - 16"
  have tk: "unat t \<le> k + 16" and kn: "k + 16 \<le> n" using tn t by (simp_all add: k_def)
  have Tx: "tiles (mem s) 0x200000 xs b" and Ty: "tiles (mem s) (b + n) ys ?e"
    using T by (simp_all add: tiles_append b)
  have sp: "span (take_block (unat t) n) = n" using tn by (simp add: take_block_def)
  have L: "live 0x200000 bs = live 0x200000 xs \<union> live (b + n) ys"
    by (simp add: bs live_append b)
  have "live 0x200000 bs' = insert (b + 16, k) (live 0x200000 bs)"
    unfolding L by (auto simp: bs' live_append b [symmetric] sp live_take k_def)
  moreover have sep: "q + l \<le> b \<or> b + n + 16 \<le> q" if "(q, l) \<in> live 0x200000 bs" for q l
    using that live_bounds(2) [OF Tx] live_bounds(1) [OF Ty] by (auto simp: L)
  moreover have "?m x = mem s x" if "(q, l) \<in> live 0x200000 bs" "q \<le> unat x" "unat x < q + l" for q l x
    using sep [OF that(1)] that(2,3) K(3) [of x] by linarith
  moreover have "q + l \<le> b \<or> b + k + 32 \<le> q" if "(q, l) \<in> live 0x200000 bs" for q l
    using sep [OF that] kn by linarith
  ultimately show ?thesis using r inv' tk low by blast
qed

text \<open>Freeing a live payload.\<close>

lemma heap_kfree:
  assumes inv: "heap_inv bs s" and p: "(p, k) \<in> live 0x200000 bs"
  obtains m xs n ys where "kfree (of_nat p) s = Some (s\<lparr>mem := m\<rparr>)"
    "bs = xs @ (n, False) # ys" "p = 0x200000 + span xs + 16" "k = n - 16"
    "heap_inv (coalesce (xs @ (n, True) # ys)) (s\<lparr>mem := m\<rparr>)"
    "live 0x200000 (coalesce (xs @ (n, True) # ys)) = live 0x200000 bs - {(p, k)}"
    "\<And>q l x. (q, l) \<in> live 0x200000 bs - {(p, k)} \<Longrightarrow> q \<le> unat x \<Longrightarrow> unat x < q + l \<Longrightarrow> m x = mem s x"
    "\<And>x. unat x < 0x200000 \<Longrightarrow> m x = mem s x"
proof -
  let ?H = "0x200000 :: nat" and ?e = "unat (heap_end s)"
  obtain xs n ys where bs: "bs = xs @ (n, False) # ys" and px: "p = ?H + span xs + 16" and kn: "k = n - 16"
    using live_split [OF p] .
  define b where "b = ?H + span xs"
  have T: "tiles (mem s) ?H (xs @ (n, False) # ys) ?e" using heap_inv_tiles [OF inv] bs by simp
  have Tx: "tiles (mem s) ?H xs b" and Tb: "tiles (mem s) b ((n, False) # ys) ?e"
    using T by (simp_all add: tiles_append b_def)
  have e: "?e \<le> 0x1200000" by (rule heap_inv_end [OF inv])
  have be: "b + 32 \<le> ?e" using tiles_bounds [OF Tb] by simp
  then have b16: "b + 16 \<le> 2 ^ 64" using e by simp
  note F = store_free [OF b16, where m = "mem s" and v = 1]
  let ?m = "store32 (mem s) (of_nat b + 8) 1"
  let ?s = "s\<lparr>mem := ?m\<rparr>" and ?bs = "xs @ (n, True) # ys"
  have "agree ?H b (mem s) ?m" "agree (b + n) ?e (mem s) ?m"
    using F(3) Tb by (auto simp: agree_def)
  then have "tiles ?m ?H xs b" "tiles ?m (b + n) ys ?e"
    using tiles_agree Tx Tb be e by (auto intro!: tiles_agree)
  then have "tiles ?m ?H ?bs ?e" using Tb F(1,2) by (simp add: tiles_append b_def [symmetric])
  then have T': "tiles (mem ?s) ?H ?bs (unat (heap_end ?s))" by simp
  from kfree_coalesce_tiles [OF T'] e obtain m where
    m: "kfree_coalesce (of_nat ?H) ?s = Some (?s\<lparr>mem := m\<rparr>)" "tiles m ?H (coalesce ?bs) ?e"
      "\<forall>x. unat x \<notin> free_hdrs ?H ?bs \<longrightarrow> m x = ?m x" by auto
  have pw: "(of_nat p :: u64) - 16 = of_nat b" by (simp add: px b_def)
  have "unat (of_nat p :: u64) = p" using be e by (intro unat_of_nat_small) (simp add: px b_def)
  then have "(of_nat p :: u64) \<noteq> 0" using px by auto
  then have kf: "kfree (of_nat p) s = Some (s\<lparr>mem := m\<rparr>)"
    using m(1) by (simp add: kfree_def pw put32_def heap_inv_start [OF inv])
  have L: "live ?H ?bs = live ?H bs - {(p, k)}"
  proof -
    have "(p, k) \<notin> live ?H xs" using live_bounds(2,3) [OF Tx, of p k] by (auto simp: px b_def)
    moreover have "(p, k) \<notin> live (b + n) ys" using live_bounds(1) [of "mem s" "b + n" ys ?e p k] Tb
      by (auto simp: px b_def)
    ultimately show ?thesis by (auto simp: bs live_append b_def px kn)
  qed
  have keep: "m x = mem s x" if "(q, l) \<in> live ?H bs - {(p, k)}" "q \<le> unat x" "unat x < q + l" for q l x
  proof -
    have q: "(q, l) \<in> live ?H ?bs" "(q, l) \<in> live ?H bs" using that L by auto
    have "unat x \<notin> free_hdrs ?H ?bs" using live_free_hdrs [OF T' [simplified] q(1)] that by fastforce
    then have "m x = ?m x" using m(3) by simp
    moreover have "unat x < b + 8 \<or> b + 12 \<le> unat x"
    proof -
      have "q \<noteq> p" using live_unique [OF heap_inv_tiles [OF inv] p, of l] that(1) by auto
      then show ?thesis using live_disjoint [OF heap_inv_tiles [OF inv] p q(2)] that(2,3) by (auto simp: px b_def)
    qed
    ultimately show ?thesis using F(3) by simp
  qed
  have low: "m x = mem s x" if "unat x < ?H" for x
  proof -
    have "unat x \<notin> free_hdrs ?H ?bs" using free_hdrs_low [of ?H ?bs] that by auto
    then show ?thesis using m(3) F(3) [of x] that by (simp add: b_def)
  qed
  have "coalesce ?bs \<noteq> []" by (cases xs rule: coalesce.cases) (auto split: prod.split)
  then have inv': "heap_inv (coalesce ?bs) (s\<lparr>mem := m\<rparr>)" using low m(2) by (intro heap_write [OF inv]) auto
  show thesis by (rule that [OF kf bs px kn inv' _ keep low]) (simp_all add: live_coalesce L)
qed



section \<open>Growing the heap\<close>

lemma kheap_map_loop_fresh:
  assumes "vmm_ok s" "4 * n \<le> card (free_frames s)" "sz = off + 4096 * n"
  shows "\<exists>fs. length fs = n \<and> fresh_run (start + of_nat off) fs 3 s (kheap_map_loop start sz off s)"
  using assms
proof (induction n arbitrary: off s)
  case 0
  then show ?case by (subst kheap_map_loop.simps) (auto intro: fresh_run_Nil)
next
  case (Suc n)
  let ?v = "start + of_nat off"
  obtain a s1 where a: "pmm_alloc_frame s = (a, s1)" by fastforce
  define s2 where "s2 = vmm_map_page ?v a 3 s1"
  have wf: "pmm_wf s" using Suc.prems(1) by (simp add: vmm_ok_def vmm_inv_def pmm_inv_def)
  then have mem1: "mem s1 = mem s" using a by (auto simp: pmm_alloc_frame_eq frame_simps split: if_splits)
  have s2: "s2 = vmm_map_page ?v a 3 (s1\<lparr>mem := mem s\<rparr>)" by (simp add: s2_def mem1 [symmetric])
  have room: "4 \<le> card (free_frames s)" using Suc.prems(2) by simp
  obtain f where f: "a \<noteq> 0" "f \<in> free_frames s" "f \<notin> free_frames s2" "f \<notin> table_frames s2"
    "evolves s s2" "card (free_frames s) \<le> card (free_frames s2) + 4"
    "vmm_leaf s2 = (\<lambda>va. if same_page va ?v then frame_addr f OR ucast (3 :: u32) else vmm_leaf s va)"
    using map_fresh [OF Suc.prems(1) room a _ s2] by blast
  have "4 * n \<le> card (free_frames s2)" using f(6) Suc.prems(2) by simp
  from Suc.IH [OF evolves_ok [OF f(5)] this, of "off + 4096"] Suc.prems(3) obtain fs where
    fs: "length fs = n" "fresh_run (?v + 4096) fs 3 s2 (kheap_map_loop start sz (off + 4096) s2)"
    by (auto simp: algebra_simps)
  have "fresh_run ?v (f # fs) 3 s (kheap_map_loop start sz (off + 4096) s2)"
    by (rule fresh_run_Cons [OF f(5,6,2,3,4,7) fs(2)])
  moreover have "kheap_map_loop start sz off s = kheap_map_loop start sz (off + 4096) s2"
    using Suc.prems(3) f(1) by (subst kheap_map_loop.simps) (simp add: a s2_def)
  ultimately show ?case using fs(1) by (intro exI [of _ "f # fs"]) simp
qed

text \<open>With enough free frames below the heap, mapping more pages touches no byte of it.\<close>

lemma kheap_map_region_fresh:
  fixes start :: u64
  assumes ok: "vmm_ok s" and low: "table_frames s \<subseteq> {..<512}"
    and room: "4 * n \<le> card {f \<in> free_frames s. f < 512}" and sz: "unat sz = 4096 * n"
  defines "s' \<equiv> kheap_map_region start sz s"
  obtains fs where "length fs = n" "fresh_run start fs 3 s s'" "table_frames s' \<subseteq> {..<512}"
    "free_frames s - free_frames s' \<subseteq> {..<512}"
    "\<And>x. 0x200000 \<le> unat x \<Longrightarrow> mem s' x = mem s x"
proof -
  have "card {f \<in> free_frames s. f < 512} \<le> card (free_frames s)" by (rule card_mono) auto
  then have "4 * n \<le> card (free_frames s)" using room by simp
  from kheap_map_loop_fresh [OF ok this, of "unat sz" 0 start] sz obtain fs where
    fs: "length fs = n" "fresh_run start fs 3 s s'" by (auto simp: s'_def kheap_map_region_def)
  have ev: "evolves s s'" by (rule fresh_run_evolves [OF fs(2)])
  have tk: "free_frames s - free_frames s' \<subseteq> {..<512}"
    by (rule taken_low [OF ev _ room]) (use fresh_run_card [OF fs(2)] fs(1) in simp)
  have tf: "table_frames s' \<subseteq> {..<512}" using evolves_frames [OF ev] low tk by blast
  have "mem s' x = mem s x" if "0x200000 \<le> unat x" for x
  proof (rule evolves_mem [OF ev])
    have "512 \<le> unat x div 4096" using div_le_mono [OF that, of 4096] by simp
    then show "unat x div 4096 \<notin> table_frames s \<union> (free_frames s - free_frames s')" using low tk by fastforce
  qed
  from that [OF fs tf tk this] show thesis .
qed

text \<open>The pages of the heap after a growth.\<close>

lemma heap_pages_grow:
  fixes s :: "'a kheap_state_scheme"
  assumes hp: "heap_pages fs s" and run: "fresh_run (heap_end s) gs 3 s s'"
    and e: "0x200000 + 4096 * length (fs @ gs) \<le> 0x1200000"
  shows "heap_pages (fs @ gs) (s'\<lparr>heap_end := heap_end s + of_nat (4096 * length gs)\<rparr>)"
proof -
  let ?s = "s'\<lparr>heap_end := heap_end s + of_nat (4096 * length gs)\<rparr>"
  have E: "unat (heap_end s) = 0x200000 + 4096 * length fs" using hp by (simp add: heap_pages_def)
  have ev: "evolves s s'" by (rule fresh_run_evolves [OF run])
  note R = run [unfolded fresh_run_def]
  have view: "vmm_leaf ?s = vmm_leaf s'" "table_frames ?s = table_frames s'" "free_frames ?s = free_frames s'"
    using vmm_view [of ?s s'] by (simp_all add: free_frames_def frame_used_def)
  have F: "set fs \<subseteq> {..<32768} - free_frames s - table_frames s" using hp by (simp add: heap_pages_def)
  have pn: "page_no (heap_end s) = 512 + length fs" using e by (simp add: page_no_eq E)
  have lk: "vmm_leaf s' va = (if 512 + length fs \<le> page_no va \<and> page_no va < 512 + length fs + length gs
     then frame_addr (gs ! (page_no va - (512 + length fs))) OR 3 else vmm_leaf s va)" for va
    unfolding fresh_run_leaf [OF run]
    using page_run_lookup [of "heap_end s" gs 3 "vmm_leaf s" va] e by (simp add: E pn)
  have "unat (heap_end ?s) = 0x200000 + 4096 * length (fs @ gs)"
    using unat_add_of_nat [of "heap_end s" "4096 * length gs"] E e by simp
  moreover have "distinct (fs @ gs)" using hp R F by (auto simp: heap_pages_def)
  moreover have "set (fs @ gs) \<subseteq> {..<32768} - free_frames ?s - table_frames ?s"
    unfolding view using R F evolves_free [OF ev] evolves_frames [OF ev] free_frames_bound by fastforce
  moreover have "vmm_leaf ?s va = frame_addr ((fs @ gs) ! (page_no va - 512)) OR 3"
    if "512 \<le> page_no va" "page_no va < 512 + length (fs @ gs)" for va
    unfolding view lk using that hp by (auto simp: nth_append heap_pages_def)
  ultimately show ?thesis unfolding heap_pages_def by blast
qed

text \<open>The walk to the last block.\<close>

lemma kheap_last_tiles:
  assumes "tiles (mem s) a bs (unat (heap_end s))" "unat (heap_end s) \<le> 2 ^ 63"
  shows "kheap_last (of_nat a) l s = Some (if bs = [] then l else of_nat (a + span (butlast bs)))"
  using assms
proof (induction bs arbitrary: a l)
  case Nil
  then show ?case by (subst kheap_last.simps) simp
next
  case (Cons b bs)
  obtain n f where b: "b = (n, f)" by (cases b)
  note T = Cons.prems(1) [unfolded b]
  have e: "a + 32 \<le> unat (heap_end s)" using tiles_bounds(1) [OF T] .
  then have "unat (of_nat a :: u64) = a" using Cons.prems(2) by (intro unat_of_nat_small) simp
  then have lt: "(of_nat a :: u64) < heap_end s" using e by (simp add: word_less_nat_alt)
  have "tiles (mem s) (a + n) bs (unat (heap_end s))" using T by simp
  from Cons.IH [OF this Cons.prems(2), of "of_nat a"] show ?case
    using lt block_word(2) [OF T] by (subst kheap_last.simps) (simp add: b add.assoc)
qed



text \<open>
  The sizes the code computes, and the list of blocks after \<open>kheap_expand\<close>: the new block
  is merged into the last one when that is free.
\<close>

definition need_bytes :: "nat \<Rightarrow> nat" where
  "need_bytes n = max 32 ((n + 23) div 8 * 8)"

definition expand_bytes :: "nat \<Rightarrow> nat" where
  "expand_bytes t = max 4096 ((t + 4095) div 4096 * 4096)"

definition grow :: "nat \<Rightarrow> blocks \<Rightarrow> blocks" where
  "grow e bs =
     (if bs \<noteq> [] \<and> snd (last bs) then butlast bs @ [(fst (last bs) + e, True)] else bs @ [(e, True)])"

lemma unat_align_up:
  assumes "unat x + 2 ^ k \<le> 2 ^ 64" "k < 64"
  shows "unat (kheap_align_up x (2 ^ k)) = (unat x + 2 ^ k - 1) div 2 ^ k * 2 ^ k"
proof -
  have e: "kheap_align_up x (2 ^ k) = (x + (2 ^ k - 1)) AND NOT (mask k)"
    by (simp add: kheap_align_up_def mask_eq_exp_minus_1 add_diff_eq)
  have "(2 :: nat) ^ k < 2 ^ 64" by (rule power_strict_increasing) (use assms(2) in auto)
  then have "unat (2 ^ k - 1 :: u64) = 2 ^ k - 1"
    using unat_of_nat_small [of "2 ^ k - 1", where 'a = 64] by (simp add: of_nat_diff)
  then have "unat (x + (2 ^ k - 1)) = unat x + 2 ^ k - 1"
    using unat_add_small [of x "2 ^ k - 1"] assms(1) by simp
  then show ?thesis unfolding e unat_align_down by simp
qed

lemma unat_need:
  assumes "unat sz \<le> 2 ^ 63"
  shows "unat (let need = kheap_align_up (sz + HEADER_SIZE) 8
    in if need < KHEAP_MIN_BLOCK then KHEAP_MIN_BLOCK else need) = need_bytes (unat sz)"
proof -
  have "unat (sz + 16) = unat sz + 16" using unat_add_small [of sz 16] assms by simp
  then have "unat (kheap_align_up (sz + 16) 8) = (unat sz + 23) div 8 * 8"
    using unat_align_up [of "sz + 16" 3] assms by simp
  then show ?thesis by (auto simp: Let_def need_bytes_def word_less_nat_alt)
qed

lemma unat_expand:
  assumes "unat t \<le> 2 ^ 63 + 2 ^ 12"
  shows "unat (let expand = kheap_align_up t PMM_PAGE_SIZE
    in if expand < PMM_PAGE_SIZE then PMM_PAGE_SIZE else expand) = expand_bytes (unat t)"
proof -
  have "unat (kheap_align_up t 4096) = (unat t + 4095) div 4096 * 4096"
    using unat_align_up [of t 12] assms by simp
  then show ?thesis by (auto simp: Let_def expand_bytes_def word_less_nat_alt)
qed

lemma need_bytes_facts: "n + 16 \<le> need_bytes n" "32 \<le> need_bytes n" "need_bytes n mod 8 = 0" "need_bytes n \<le> n + 32"
  using round_up [of 8 "n + 16"] by (auto simp: need_bytes_def max_def)

lemma expand_bytes_facts: "t \<le> expand_bytes t" "expand_bytes t mod 4096 = 0" "4096 \<le> expand_bytes t" "expand_bytes t \<le> t + 4096"
  using round_up [of 4096 t] by (auto simp: expand_bytes_def max_def)

lemma grow_nonempty [simp]: "grow e bs \<noteq> []"
  by (simp add: grow_def)

lemma live_grow: "live a (grow e bs) = live a bs"
proof (cases bs rule: rev_cases)
  case (snoc ys b)
  then show ?thesis by (cases b) (simp add: grow_def live_append)
qed (simp add: grow_def)

lemma first_fit_prefix: "first_fit t a (xs @ ys) = None \<Longrightarrow> first_fit t a xs = None"
  by (induction t a xs rule: first_fit.induct) (auto split: if_splits)

lemma first_fit_snoc:
  "first_fit t a xs = None \<Longrightarrow> t \<le> k \<Longrightarrow> first_fit t a (xs @ [(k, True)]) = Some (a + span xs, xs @ take_block t k)"
  by (induction t a xs rule: first_fit.induct) (auto split: if_splits simp: add.assoc)

lemma first_fit_grow:
  assumes "first_fit t a bs = None" "t \<le> e"
  shows "\<exists>b bs'. first_fit t a (grow e bs) = Some (b, bs')"
proof (cases "bs \<noteq> [] \<and> snd (last bs)")
  case True
  then have "first_fit t a (butlast bs) = None"
    using first_fit_prefix [of t a "butlast bs" "[last bs]"] assms(1) by simp
  then show ?thesis using True assms(2) by (simp add: grow_def first_fit_snoc)
next
  case False
  then have "grow e bs = bs @ [(e, True)]" by (auto simp: grow_def)
  then show ?thesis using assms by (simp add: first_fit_snoc)
qed

text \<open>
  \<open>kheap_expand\<close> when the heap may grow and enough frames below it are free: the new
  block is appended, then merged with the last one.
\<close>

lemma free_low_card:
  assumes ev: "evolves s s'" and c: "card (free_frames s) \<le> card (free_frames s') + n"
  shows "card {f \<in> free_frames s. f < b} \<le> card {f \<in> free_frames s'. f < b} + n"
proof -
  let ?T = "free_frames s - free_frames s'"
  have "card ?T = card (free_frames s) - card (free_frames s')"
    using evolves_free [OF ev] by (intro card_Diff_subset) auto
  then have "card ?T \<le> n" using c by simp
  moreover have "card {f \<in> free_frames s. f < b} \<le> card ({f \<in> free_frames s'. f < b} \<union> ?T)"
    by (rule card_mono) auto
  moreover have "card ({f \<in> free_frames s'. f < b} \<union> ?T) \<le> card {f \<in> free_frames s'. f < b} + card ?T"
    by (rule card_Un_le)
  ultimately show ?thesis by linarith
qed

lemma kheap_append:
  fixes s :: "'a kheap_state_scheme"
  assumes inv: "heap_inv bs s" and w: "unat w = 4096 * n" "0 < n" and max: "unat (heap_end s) + 4096 * n \<le> 0x1200000"
    and room: "4 * n \<le> card {f \<in> free_frames s. f < 512}"
    and s2_def: "s2 = kheap_map_region (heap_end s) w s" and s3: "s3 = put_header (heap_end s2) w s2"
  shows "heap_inv (bs @ [(4096 * n, True)]) (s3\<lparr>heap_end := heap_end s3 + w\<rparr>)"
    "heap_start s3 = 0x200000" "heap_end s3 = heap_end s" "heap_end s2 = heap_end s"
    "\<And>x. 0x200000 \<le> unat x \<Longrightarrow> unat x < unat (heap_end s) \<Longrightarrow> mem s3 x = mem s x"
    "\<And>x. static_byte s x \<Longrightarrow> static_byte (s3\<lparr>heap_end := heap_end s3 + w\<rparr>) x \<and> mem s3 x = mem s x"
    "same_but_heap s s3" "card {f \<in> free_frames s. f < 512} \<le> card {f \<in> free_frames s3. f < 512} + 4 * n"
proof -
  let ?H = "0x200000 :: nat" and ?e = "unat (heap_end s)"
  obtain gs where gs: "length gs = n" "fresh_run (heap_end s) gs 3 s s2" "table_frames s2 \<subseteq> {..<512}"
    "\<And>x. ?H \<le> unat x \<Longrightarrow> mem s2 x = mem s x"
    unfolding s2_def
    using kheap_map_region_fresh [OF heap_inv_vmm [OF inv] heap_inv_tables [OF inv] room w(1)] by blast
  have ev: "evolves s s2" by (rule fresh_run_evolves [OF gs(2)])
  obtain m b u where s2: "s2 = s\<lparr>mem := m, bitmap := b, used_frames := u\<rparr>"
    using evolves_same [OF ev] unfolding same_but_tables_def by blast
  show f2: "heap_end s2 = heap_end s"
    by (simp add: s2)
  have f2s: "heap_start s2 = 0x200000"
    using heap_inv_start [OF inv] by (simp add: s2)
  show "same_but_heap s s3"
    using same_but_heap_trans [OF same_but_tables_heap [OF evolves_same [OF ev]], of s3]
    by (simp add: s3 put_header_def same_but_heap_def put64_def put32_def)
  have m3: "s3 = s2\<lparr>mem := mem s3\<rparr>" by (simp add: s3 put_header_def put64_def put32_def)
  have "free_frames s3 = free_frames s2" by (subst m3) simp
  then show "card {f \<in> free_frames s. f < 512} \<le> card {f \<in> free_frames s3. f < 512} + 4 * n"
    using free_low_card [OF ev fresh_run_card [OF gs(2)]] gs(1) by simp
  show f3: "heap_start s3 = 0x200000" "heap_end s3 = heap_end s"
    by (subst m3, simp add: f2 f2s)+
  obtain fs where fs: "heap_pages fs s" using inv by (auto simp: heap_inv_def heap_base_def)
  have fe: "?e = ?H + 4096 * length fs" using fs by (simp add: heap_pages_def)
  have wE: "of_nat (4096 * length gs) = w" unfolding gs(1) w(1) [symmetric] by simp
  define s2' where "s2' = s2\<lparr>heap_end := heap_end s + w\<rparr>"
  have hp: "heap_pages (fs @ gs) s2'"
    unfolding s2'_def wE [symmetric] by (rule heap_pages_grow [OF fs gs(2)]) (use fe max gs(1) in simp)
  have e': "unat (heap_end s + w) = ?e + 4096 * n" using unat_add_small [of "heap_end s" w] max by (simp add: w)
  have "vmm_ok s2'" "table_frames s2' \<subseteq> {..<512}"
    using vmm_view [of s2' s2] evolves_ok [OF ev] gs(3) by (simp_all add: s2'_def)
  then have base: "heap_base s2'" using hp e' max f2s by (auto simp: heap_base_def s2'_def)
  have e16: "?e + 16 \<le> 2 ^ 64" using max w(2) by simp
  have ue: "of_nat ?e = heap_end s" by simp
  note P = put_header_mem [OF e16, where v = w and s = s2, unfolded ue, folded f2, folded s3]
  show keep: "mem s3 x = mem s x" if "?H \<le> unat x" "unat x < ?e" for x
    using P(3) gs(4) that by (simp add: f2)
  then have "tiles (mem s3) ?H bs ?e"
    using tiles_agree [OF _ heap_inv_tiles [OF inv], of "mem s3"] max by (simp add: agree_def)
  moreover have "tiles (mem s3) ?e [(4096 * n, True)] (?e + 4096 * n)" using P(1,2) w by (simp add: f2)
  ultimately have T: "tiles (mem s3) ?H (bs @ [(4096 * n, True)]) (?e + 4096 * n)"
    using tiles_end [of "mem s3" ?H bs ?e] by (simp add: tiles_append)
  have low: "\<forall>x. unat x < ?H \<longrightarrow> mem s3 x = mem s2' x" using P(3) fe by (simp add: s2'_def f2)
  have "s3\<lparr>heap_end := heap_end s3 + w\<rparr> = s2'\<lparr>mem := mem s3\<rparr>"
    unfolding s2'_def f3(2) by (subst m3) simp
  note e3 = this
  show "heap_inv (bs @ [(4096 * n, True)]) (s3\<lparr>heap_end := heap_end s3 + w\<rparr>)"
    unfolding heap_inv_def e3 using heap_base_write(1) [OF base low] T e' by (simp add: s2'_def)
  have st: "static_byte s2' = static_byte s2" by (rule static_view) (simp_all add: s2'_def)
  show "static_byte (s3\<lparr>heap_end := heap_end s3 + w\<rparr>) x \<and> mem s3 x = mem s x" if x: "static_byte s x" for x
  proof -
    have "unat x < ?H" using x by (simp add: static_byte_def)
    then have "mem s3 x = mem s2 x" using low by (simp add: s2'_def)
    then show ?thesis unfolding e3 static_write [OF base low] st using static_evolves [OF ev x] by simp
  qed
qed

lemma heap_merge_last:
  assumes inv: "heap_inv (xs @ [(n, True), (k, True)]) s" and b: "b = 0x200000 + span xs"
  shows "heap_inv (xs @ [(n + k, True)]) (put64 (of_nat b) (of_nat (n + k)) s)"
    "\<And>x. unat x < b \<or> b + 8 \<le> unat x \<Longrightarrow> mem (put64 (of_nat b) (of_nat (n + k)) s) x = mem s x"
proof -
  let ?H = "0x200000 :: nat" and ?e = "unat (heap_end s)"
  have T: "tiles (mem s) ?H xs b" "tiles (mem s) b [(n, True), (k, True)] ?e"
    using heap_inv_tiles [OF inv] unfolding b by (simp_all add: tiles_append)
  have e: "b + n + k = ?e" "32 \<le> n" "?e \<le> 0x1200000" using T(2) heap_inv_end [OF inv] by simp_all
  then have b16: "b + 16 \<le> 2 ^ 64" by simp
  note S = store_size [OF b16, where m = "mem s" and v = "of_nat (n + k)"]
  let ?m = "store64 (mem s) (of_nat b) (of_nat (n + k))"
  have "unat (of_nat (n + k) :: u64) = n + k" using e by (intro unat_of_nat_small) simp
  then have "tiles ?m b [(n + k, True)] ?e" using S(1,2) T(2) e by (simp add: mod_eq_0_iff_dvd)
  moreover have "agree ?H b (mem s) ?m" using S(3) by (simp add: agree_def)
  then have "tiles ?m ?H xs b" using tiles_agree [OF _ T(1)] b16 by simp
  ultimately have "tiles ?m ?H (xs @ [(n + k, True)]) ?e" by (simp add: tiles_append b)
  then have "heap_inv (xs @ [(n + k, True)]) (s\<lparr>mem := ?m\<rparr>)"
    using S(3) b by (intro heap_write [OF inv]) auto
  then show "heap_inv (xs @ [(n + k, True)]) (put64 (of_nat b) (of_nat (n + k)) s)" by (simp add: put64_def)
  show "mem (put64 (of_nat b) (of_nat (n + k)) s) x = mem s x" if "unat x < b \<or> b + 8 \<le> unat x" for x
    using S(3) [OF that] by simp
qed

lemma kheap_expand_eq:
  assumes w: "w = (let expand = kheap_align_up t PMM_PAGE_SIZE
      in if expand < PMM_PAGE_SIZE then PMM_PAGE_SIZE else expand)"
    and le: "\<not> heap_end s + w > KHEAP_START + KHEAP_MAX_SIZE"
    and s1: "s1 = serial_write '' bytes\<newline>'' (serial_write_dec_u64 w (serial_write ''kheap: expanding by '' s))"
    and s2: "s2 = kheap_map_region (heap_end s1) w s1" and s3: "s3 = put_header (heap_end s2) w s2"
    and l: "kheap_last (heap_start s3) 0 s3 = Some l" and s4: "s4 = s3\<lparr>heap_end := heap_end s3 + w\<rparr>"
  shows "kheap_expand t s = Some (True,
    if l \<noteq> 0 \<and> block_free s4 l then put64 l (block_size s4 l + block_size s4 (heap_end s2)) s4 else s4)"
  using le l unfolding s4 s3 s2 s1 w kheap_expand_def Let_def
  by (simp split del: if_split)

lemma kheap_expand_ok:
  fixes s :: "'a kheap_state_scheme"
  assumes inv: "heap_inv bs s" and t: "unat t \<le> 2 ^ 63 + 2 ^ 12"
    and E: "E = expand_bytes (unat t)" and max: "unat (heap_end s) + E \<le> 0x1200000"
    and room: "4 * (E div 4096) \<le> card {f \<in> free_frames s. f < 512}"
  shows "\<exists>s'. kheap_expand t s = Some (True, s') \<and> heap_inv (grow E bs) s' \<and>
    (\<forall>x. 0x200000 \<le> unat x \<longrightarrow> unat x < unat (heap_end s) \<longrightarrow> unat x \<notin> free_hdrs 0x200000 bs \<longrightarrow> mem s' x = mem s x) \<and>
    (\<forall>x. static_byte s x \<longrightarrow> static_byte s' x \<and> mem s' x = mem s x) \<and> same_but_heap s s' \<and>
    card {f \<in> free_frames s. f < 512} \<le> card {f \<in> free_frames s'. f < 512} + 4 * (E div 4096)"
proof -
  let ?H = "0x200000 :: nat" and ?e = "unat (heap_end s)"
  define w where "w = (let expand = kheap_align_up t PMM_PAGE_SIZE
    in if expand < PMM_PAGE_SIZE then PMM_PAGE_SIZE else expand)"
  have uw: "unat w = E" using unat_expand [OF t] by (simp add: w_def E)
  have En: "E = 4096 * (E div 4096)" "4096 \<le> E" using expand_bytes_facts [of "unat t"] E by auto
  then have n: "unat w = 4096 * (E div 4096)" "0 < E div 4096" using uw by simp_all
  define s1 where "s1 = serial_write '' bytes\<newline>'' (serial_write_dec_u64 w (serial_write ''kheap: expanding by '' s))"
  have "s1 = s\<lparr>outs := outs s1\<rparr>" by (simp add: s1_def print_eqs)
  then obtain o1 where s1: "s1 = s\<lparr>outs := o1\<rparr>" by blast
  have inv1: "heap_inv bs s1" and max1: "unat (heap_end s1) + 4096 * (E div 4096) \<le> 0x1200000"
    and room1: "4 * (E div 4096) \<le> card {f \<in> free_frames s1. f < 512}"
    using inv room max En(1) by (simp_all add: s1)
  define s2 where "s2 = kheap_map_region (heap_end s1) w s1"
  define s3 where "s3 = put_header (heap_end s2) w s2"
  note A = kheap_append [OF inv1 n max1 room1 s2_def s3_def, folded En(1)]
  define s4 where "s4 = s3\<lparr>heap_end := heap_end s3 + w\<rparr>"
  have e1: "heap_end s1 = heap_end s" by (simp add: s1)
  obtain xs k f where bs: "bs = xs @ [(k, f)]" using heap_inv_nonempty [OF inv] by (metis rev_exhaust surj_pair)
  define b where "b = ?H + span xs"
  have inv4: "heap_inv (bs @ [(E, True)]) s4" using A(1) by (simp add: s4_def)
  have m4: "mem s4 = mem s3" by (simp add: s4_def)
  have u4: "unat (heap_end s4) = ?e + E" using unat_add_small [of "heap_end s" w] max A(3) by (simp add: s4_def uw e1)
  have "tiles (mem s3) ?H (xs @ (k, f) # [(E, True)]) (?e + E)"
    using heap_inv_tiles [OF inv4] unfolding m4 u4 by (simp add: bs)
  then have T4: "tiles (mem s3) ?H xs b" "tiles (mem s3) b ((k, f) # [(E, True)]) (?e + E)"
    unfolding tiles_append b_def by blast+
  have Te: "tiles (mem s3) (b + k) ((E, True) # []) (?e + E)" and bk: "b + k = ?e" "32 \<le> k" using T4(2) by auto
  have T3: "tiles (mem s3) ?H bs ?e" using T4 bk by (simp add: bs tiles_append b_def)
  have last: "kheap_last (heap_start s3) 0 s3 = Some (of_nat b)"
    using kheap_last_tiles [of s3 ?H bs 0] T3 max A(2,3) by (simp add: bs b_def e1)
  have ub: "unat (of_nat b :: u64) = b" using bk max by (intro unat_of_nat_small) simp
  then have nz: "(of_nat b :: u64) \<noteq> 0" by (auto simp: b_def)
  have he: "heap_end s2 = of_nat (b + k)" unfolding bk by (simp add: A(4) e1)
  have bz: "block_size s4 (of_nat b) + block_size s4 (heap_end s2) = of_nat (k + E)"
    using block_word(1) [OF T4(2)] block_word(1) [OF Te] unfolding m4 he by simp
  have sm4: "same_but_heap s s4"
    using same_but_heap_trans [OF same_but_heap_trans [OF _ A(7)], of s s4] by (simp add: s1 s4_def)
  have st1: "static_byte s1 = static_byte s" by (rule static_view) (simp_all add: s1)
  have st4: "static_byte s4 x \<and> mem s4 x = mem s x" if "static_byte s x" for x
    using A(6) [of x] that unfolding st1 by (simp add: s4_def s1)
  have bf: "block_free s4 (of_nat b) \<longleftrightarrow> f" using T4(2) by (simp add: m4 blk_free_def)
  have "heap_end s + w \<le> KHEAP_START + KHEAP_MAX_SIZE"
    using unat_add_small [of "heap_end s" w] max by (simp add: word_le_nat_alt uw)
  then have go: "kheap_expand t s = Some (True, if f then put64 (of_nat b) (of_nat (k + E)) s4 else s4)"
    using kheap_expand_eq [OF w_def _ s1_def s2_def s3_def last s4_def] bz bf nz by (simp add: linorder_not_less)
  have fr: "free_frames s1 = free_frames s" "free_frames s4 = free_frames s3"
    by (simp_all add: s1 s4_def free_frames_def frame_used_def)
  have c4: "card {f \<in> free_frames s. f < 512} \<le> card {f \<in> free_frames s4. f < 512} + 4 * (E div 4096)" using A(8) unfolding fr .
  show ?thesis
  proof (cases f)
    case True
    then have "heap_inv (xs @ [(k, True), (E, True)]) s4" using inv4 by (simp add: bs)
    note M = heap_merge_last [OF this b_def]
    have "mem (put64 (of_nat b) (of_nat (k + E)) s4) x = mem s x"
      if "?H \<le> unat x" "unat x < ?e" "unat x \<notin> free_hdrs ?H bs" for x
    proof -
      have "free_hdrs a (xs @ [(k, True)]) = free_hdrs a xs \<union> {a + span xs..<a + span xs + 8}" for a
        by (induction a xs rule: free_hdrs.induct) (auto simp: add.assoc)
      then have "unat x < b \<or> b + 8 \<le> unat x" using that(3) True by (auto simp: bs b_def)
      from M(2) [OF this] A(5) [OF that(1)] that(2) show ?thesis by (simp add: m4 e1 s1)
    qed
    moreover have "grow E bs = xs @ [(k + E, True)]" using True by (simp add: grow_def bs)
    moreover have "static_byte (put64 (of_nat b) (of_nat (k + E)) s4) x \<and> mem (put64 (of_nat b) (of_nat (k + E)) s4) x = mem s x"
      if x: "static_byte s x" for x
    proof -
      let ?m = "store64 (mem s4) (of_nat b) (of_nat (k + E))"
      have low: "\<forall>x. unat x < ?H \<longrightarrow> ?m x = mem s4 x" using M(2) by (simp add: b_def)
      have "unat x < ?H" using x by (simp add: static_byte_def)
      then show ?thesis
        using st4 [OF x] low static_write [OF heap_inv_base [OF inv4] low] by (simp add: put64_def)
    qed
    moreover have "same_but_heap s (put64 (of_nat b) (of_nat (k + E)) s4)"
      by (rule same_but_heap_trans [OF sm4]) simp
    moreover have "free_frames (put64 (of_nat b) (of_nat (k + E)) s4) = free_frames s4" by (simp add: put64_def)
    ultimately show ?thesis using go M(1) True c4 by simp
  next
    case False
    then have "grow E bs = bs @ [(E, True)]" by (simp add: grow_def bs)
    then show ?thesis using go inv4 False A(5) st4 sm4 c4 by (simp add: m4 e1 s1)
  qed
qed



section \<open>\<open>kmalloc\<close>\<close>

text \<open>
  The allocator on lists of blocks: first fit, after one growth if nothing fits and the
  heap may still grow.
\<close>

definition heap_alloc :: "nat \<Rightarrow> blocks \<Rightarrow> (nat \<times> blocks) option" where
  "heap_alloc t bs =
     (case first_fit t 0x200000 bs of
        Some r \<Rightarrow> Some r
      | None \<Rightarrow> if span bs + expand_bytes t > 0x1000000 then None
                else first_fit t 0x200000 (grow (expand_bytes t) bs))"

text \<open>A growth that takes place finds its frames below the heap.\<close>

definition heap_room :: "nat \<Rightarrow> blocks \<Rightarrow> 'a kheap_state_scheme \<Rightarrow> bool" where
  "heap_room t bs s \<longleftrightarrow>
     (first_fit t 0x200000 bs = None \<longrightarrow> span bs + expand_bytes t \<le> 0x1000000 \<longrightarrow>
        4 * (expand_bytes t div 4096) \<le> card {f \<in> free_frames s. f < 512})"

text \<open>The result of \<open>kmalloc\<close>, which took at most \<open>c\<close> frames.\<close>

definition malloc_done :: "blocks \<Rightarrow> blocks \<Rightarrow> nat \<Rightarrow> nat \<Rightarrow> nat \<Rightarrow> 'a kheap_state_scheme \<Rightarrow> 'a kheap_state_scheme \<Rightarrow> bool" where
  "malloc_done bs bs' p n c s s' \<longleftrightarrow> heap_inv bs' s' \<and> same_but_heap s s' \<and>
     (\<exists>k\<ge>n. live 0x200000 bs' = insert (p, k) (live 0x200000 bs) \<and>
        (\<forall>q l. (q, l) \<in> live 0x200000 bs \<longrightarrow> q + l \<le> p \<or> p + k \<le> q)) \<and>
     (\<forall>q l x. (q, l) \<in> live 0x200000 bs \<longrightarrow> q \<le> unat x \<longrightarrow> unat x < q + l \<longrightarrow> mem s' x = mem s x) \<and>
     (\<forall>x. static_byte s x \<longrightarrow> static_byte s' x \<and> mem s' x = mem s x) \<and>
     card {f \<in> free_frames s. f < 512} \<le> card {f \<in> free_frames s'. f < 512} + c"

lemma heap_take_done:
  assumes inv: "heap_inv bs s" and t: "unat t = need_bytes n" and fit: "first_fit (unat t) 0x200000 bs = Some (b, bs')"
  shows "\<exists>s'. kmalloc_take t (of_nat b) s = (of_nat (b + 16), s') \<and> malloc_done bs bs' (b + 16) n 0 s s'"
proof -
  have t32: "32 \<le> unat t" "unat t mod 8 = 0" using need_bytes_facts [of n] t by simp_all
  from heap_take [OF inv t32 fit] obtain m k where
    mk: "kmalloc_take t (of_nat b) s = (of_nat (b + 16), s\<lparr>mem := m\<rparr>)" "heap_inv bs' (s\<lparr>mem := m\<rparr>)"
      "unat t \<le> k + 16" "live 0x200000 bs' = insert (b + 16, k) (live 0x200000 bs)"
      "\<forall>q l. (q, l) \<in> live 0x200000 bs \<longrightarrow> q + l \<le> b \<or> b + k + 32 \<le> q"
      "\<forall>q l x. (q, l) \<in> live 0x200000 bs \<longrightarrow> q \<le> unat x \<longrightarrow> unat x < q + l \<longrightarrow> m x = mem s x"
      "\<forall>x. unat x < 0x200000 \<longrightarrow> m x = mem s x" by blast
  have "n \<le> k" using mk(3) t need_bytes_facts(1) [of n] by simp
  moreover have "q + l \<le> b + 16 \<or> b + 16 + k \<le> q" if "(q, l) \<in> live 0x200000 bs" for q l
    using mk(5) that by fastforce
  moreover have "static_byte (s\<lparr>mem := m\<rparr>) x \<and> m x = mem s x" if "static_byte s x" for x
    using that mk(7) static_write [OF heap_inv_base [OF inv] mk(7)] by (simp add: static_byte_def)
  ultimately have "malloc_done bs bs' (b + 16) n 0 s (s\<lparr>mem := m\<rparr>)"
    unfolding malloc_done_def using mk(2,4,6) by auto
  then show ?thesis using mk(1) by blast
qed

lemma malloc_done_after_grow:
  assumes inv: "heap_inv bs s"
    and keep: "\<forall>x. 0x200000 \<le> unat x \<longrightarrow> unat x < unat (heap_end s) \<longrightarrow> unat x \<notin> free_hdrs 0x200000 bs \<longrightarrow> mem s1 x = mem s x"
    and st: "\<forall>x. static_byte s x \<longrightarrow> static_byte s1 x \<and> mem s1 x = mem s x"
    and sm: "same_but_heap s s1" and fr: "card {f \<in> free_frames s. f < 512} \<le> card {f \<in> free_frames s1. f < 512} + c"
    and D: "malloc_done (grow e bs) bs' p n 0 s1 s'"
  shows "malloc_done bs bs' p n c s s'"
proof -
  have "mem s' x = mem s x" if "(q, l) \<in> live 0x200000 bs" "q \<le> unat x" "unat x < q + l" for q l x
  proof -
    note T = heap_inv_tiles [OF inv]
    have "unat x \<notin> free_hdrs 0x200000 bs" using live_free_hdrs [OF T that(1)] that(2,3) by fastforce
    then have "mem s1 x = mem s x" using keep live_bounds(1,2) [OF T that(1)] that(2,3) by auto
    then show ?thesis using D that unfolding malloc_done_def live_grow by auto
  qed
  moreover have "static_byte s' x \<and> mem s' x = mem s x" if "static_byte s x" for x
    using st D that unfolding malloc_done_def by auto
  moreover have "same_but_heap s s'"
    using same_but_heap_trans [OF sm] D unfolding malloc_done_def by blast
  moreover have "card {f \<in> free_frames s. f < 512} \<le> card {f \<in> free_frames s'. f < 512} + c" using fr D unfolding malloc_done_def by simp
  ultimately show ?thesis using D unfolding malloc_done_def live_grow by blast
qed

text \<open>One round of \<open>retry\<close>: a fit, a heap at its limit, or a growth followed by another round.\<close>

lemma kmalloc_retry_fit:
  assumes "heap_inv bs s" "first_fit (unat t) 0x200000 bs = Some (b, bs')"
  shows "kmalloc_retry t s = Some (kmalloc_take t (of_nat b) s)"
  using kmalloc_find_tiles [OF heap_inv_tiles [OF assms(1)], of t] heap_inv_start [OF assms(1)] assms(2)
  by (subst kmalloc_retry.simps) simp

lemma kmalloc_retry_grow:
  assumes "heap_inv bs s" "first_fit (unat t) 0x200000 bs = None"
  shows "kheap_expand t s = Some (True, s') \<Longrightarrow> kmalloc_retry t s = kmalloc_retry t s'"
    "kheap_expand t s = Some (False, s') \<Longrightarrow> kmalloc_retry t s = Some (0, s')"
  using kmalloc_find_tiles [OF heap_inv_tiles [OF assms(1)], of t] heap_inv_start [OF assms(1)] assms(2)
  by (subst kmalloc_retry.simps, simp)+

lemma kheap_expand_limit:
  assumes inv: "heap_inv bs s" and t: "unat t \<le> 2 ^ 63 + 2 ^ 12" and max: "span bs + expand_bytes (unat t) > 0x1000000"
  shows "kheap_expand t s = Some (False, serial_write ''kheap: max size reached\<newline>'' s)"
proof -
  define w where "w = (let expand = kheap_align_up t PMM_PAGE_SIZE
    in if expand < PMM_PAGE_SIZE then PMM_PAGE_SIZE else expand)"
  have uw: "unat w = expand_bytes (unat t)" unfolding w_def by (rule unat_expand [OF t])
  have e: "unat (heap_end s) = 0x200000 + span bs" by (rule tiles_end [OF heap_inv_tiles [OF inv]])
  have "unat (heap_end s + w) = unat (heap_end s) + expand_bytes (unat t)"
    using unat_add_small [of "heap_end s" w] uw t expand_bytes_facts(4) [of "unat t"] heap_inv_end [OF inv] by simp
  then have "heap_end s + w > KHEAP_START + KHEAP_MAX_SIZE" using max e by (simp add: word_less_nat_alt)
  then show ?thesis unfolding kheap_expand_def Let_def w_def by (simp split del: if_split)
qed

lemma kmalloc_outcome:
  fixes s :: "'a kheap_state_scheme"
  assumes inv: "heap_inv bs s" and sz: "sz \<noteq> 0" "unat sz \<le> 2 ^ 63" and room: "heap_room (need_bytes (unat sz)) bs s"
  shows "case heap_alloc (need_bytes (unat sz)) bs of
      None \<Rightarrow> kmalloc sz s = Some (0, serial_write ''kheap: max size reached\<newline>'' s)
    | Some (b, bs') \<Rightarrow> \<exists>s'. kmalloc sz s = Some (of_nat (b + 16), s') \<and> malloc_done bs bs' (b + 16) (unat sz)
        (if first_fit (need_bytes (unat sz)) 0x200000 bs = None then 4 * (expand_bytes (need_bytes (unat sz)) div 4096) else 0) s s'"
proof -
  define t where "t = (let need = kheap_align_up (sz + HEADER_SIZE) 8
    in if need < KHEAP_MIN_BLOCK then KHEAP_MIN_BLOCK else need)"
  have t: "unat t = need_bytes (unat sz)" unfolding t_def by (rule unat_need [OF sz(2)])
  have km: "kmalloc sz s = kmalloc_retry t s" using sz(1) by (simp add: kmalloc_def t_def Let_def)
  show ?thesis
  proof (cases "first_fit (unat t) 0x200000 bs")
    case (Some r)
    obtain b bs' where r: "r = (b, bs')" by (cases r)
    note fit = Some [unfolded r]
    from heap_take_done [OF inv t fit] kmalloc_retry_fit [OF inv fit] show ?thesis
      using fit t by (auto simp: km heap_alloc_def)
  next
    case None
    let ?E = "expand_bytes (unat t)"
    have tb: "unat t \<le> 2 ^ 63 + 2 ^ 12" using t need_bytes_facts(4) [of "unat sz"] sz(2) by simp
    have e: "unat (heap_end s) = 0x200000 + span bs" by (rule tiles_end [OF heap_inv_tiles [OF inv]])
    show ?thesis
    proof (cases "span bs + ?E > 0x1000000")
      case True
      from kmalloc_retry_grow(2) [OF inv None kheap_expand_limit [OF inv tb True]] show ?thesis
        using True None t by (simp add: km heap_alloc_def)
    next
      case False
      have "unat (heap_end s) + ?E \<le> 0x1200000" "4 * (?E div 4096) \<le> card {f \<in> free_frames s. f < 512}"
        using False e room None t by (simp_all add: heap_room_def)
      from kheap_expand_ok [OF inv tb refl this] obtain s1 where
        s1: "kheap_expand t s = Some (True, s1)" "heap_inv (grow ?E bs) s1"
          "\<forall>x. 0x200000 \<le> unat x \<longrightarrow> unat x < unat (heap_end s) \<longrightarrow> unat x \<notin> free_hdrs 0x200000 bs \<longrightarrow> mem s1 x = mem s x"
          "\<forall>x. static_byte s x \<longrightarrow> static_byte s1 x \<and> mem s1 x = mem s x" "same_but_heap s s1"
          "card {f \<in> free_frames s. f < 512} \<le> card {f \<in> free_frames s1. f < 512} + 4 * (?E div 4096)"
        by blast
      obtain b bs' where ff: "first_fit (unat t) 0x200000 (grow ?E bs) = Some (b, bs')"
        using first_fit_grow [OF None expand_bytes_facts(1)] by blast
      from heap_take_done [OF s1(2) t ff] obtain s' where
        s': "kmalloc_take t (of_nat b) s1 = (of_nat (b + 16), s')" "malloc_done (grow ?E bs) bs' (b + 16) (unat sz) 0 s1 s'" by blast
      have "kmalloc sz s = Some (of_nat (b + 16), s')"
        using kmalloc_retry_grow(1) [OF inv None s1(1)] kmalloc_retry_fit [OF s1(2) ff] s'(1) by (simp add: km)
      then show ?thesis
        using malloc_done_after_grow [OF inv s1(3,4,5,6) s'(2)] False None ff t by (simp add: heap_alloc_def)
    qed
  qed
qed



section \<open>The interface of the heap\<close>

text \<open>The blocks of a heap are read off its memory.\<close>

function heap_walk :: "memory \<Rightarrow> nat \<Rightarrow> nat \<Rightarrow> blocks" where
  "heap_walk m a e =
     (if a < e \<and> 0 < blk_size m a then (blk_size m a, blk_free m a) # heap_walk m (a + blk_size m a) e else [])"
  by pat_completeness auto
termination
  by (relation "measure (\<lambda>(m, a, e). e - a)") auto

declare heap_walk.simps [simp del]

lemma heap_walk_tiles: "tiles m a bs e \<Longrightarrow> heap_walk m a e = bs"
proof (induction m a bs e rule: tiles.induct)
  case (1 m a e)
  then show ?case by (simp add: heap_walk.simps)
next
  case (2 m a n f bs e)
  then show ?case using tiles_bounds [of m a n f bs e] by (subst heap_walk.simps) auto
qed

definition heap_blocks :: "'a kheap_state_scheme \<Rightarrow> blocks" where
  "heap_blocks s = heap_walk (mem s) 0x200000 (unat (heap_end s))"

definition heap_ok :: "'a kheap_state_scheme \<Rightarrow> bool" where
  "heap_ok s \<longleftrightarrow> heap_inv (heap_blocks s) s"

definition payloads :: "'a kheap_state_scheme \<Rightarrow> (nat \<times> nat) set" where
  "payloads s = live 0x200000 (heap_blocks s)"

definition kmalloc_room :: "u64 \<Rightarrow> 'a kheap_state_scheme \<Rightarrow> bool" where
  "kmalloc_room sz s \<longleftrightarrow> unat sz \<le> 2 ^ 63 \<and> heap_room (need_bytes (unat sz)) (heap_blocks s) s"

lemma heap_ok_outs [simp]: "heap_ok (s\<lparr>outs := x\<rparr>) = heap_ok s" "payloads (s\<lparr>outs := x\<rparr>) = payloads s"
  "kmalloc_room sz (s\<lparr>outs := x\<rparr>) = kmalloc_room sz s"
  by (simp_all add: heap_ok_def payloads_def heap_blocks_def kmalloc_room_def heap_room_def)

lemma heap_inv_blocks: "heap_inv bs s \<Longrightarrow> heap_blocks s = bs"
  unfolding heap_blocks_def by (rule heap_walk_tiles [OF heap_inv_tiles])

lemma heap_inv_ok: "heap_inv bs s \<Longrightarrow> heap_ok s" "heap_inv bs s \<Longrightarrow> payloads s = live 0x200000 bs"
  by (simp_all add: heap_ok_def payloads_def heap_inv_blocks)

lemma payload_bounds:
  assumes "heap_ok s" "(p, k) \<in> payloads s"
  shows "0x200010 \<le> p" "p + k \<le> 0x1200000" "16 \<le> k" "p mod 8 = 0" "unat (of_nat p :: u64) = p"
proof -
  have inv: "heap_inv (heap_blocks s) s" using assms(1) by (simp add: heap_ok_def)
  note B = live_bounds [OF heap_inv_tiles [OF inv] assms(2) [unfolded payloads_def]]
  show "0x200010 \<le> p" "p + k \<le> 0x1200000" "16 \<le> k" "p mod 8 = 0"
    using B heap_inv_end [OF inv] by simp_all
  then show "unat (of_nat p :: u64) = p" by (intro unat_of_nat_small) simp
qed

text \<open>
  What the clients of the heap, tasks and files, rely on: a payload handed out is large
  enough and shares no byte with another one, and neither operation changes a payload in
  use.
\<close>

locale heap_allocator =
  fixes malloc :: "u64 \<Rightarrow> 's \<Rightarrow> (u64 \<times> 's) option" and release :: "u64 \<Rightarrow> 's \<Rightarrow> 's option"
    and ok :: "'s \<Rightarrow> bool" and owned :: "'s \<Rightarrow> (nat \<times> nat) set" and byte :: "'s \<Rightarrow> u64 \<Rightarrow> u8"
    and room :: "u64 \<Rightarrow> 's \<Rightarrow> bool" and fixed :: "'s \<Rightarrow> u64 \<Rightarrow> bool"
  assumes malloc_returns: "ok s \<Longrightarrow> room n s \<Longrightarrow> \<exists>p s'. malloc n s = Some (p, s')"
    and malloc_law: "ok s \<Longrightarrow> room n s \<Longrightarrow> malloc n s = Some (p, s') \<Longrightarrow>
      ok s' \<and> (\<forall>q l x. (q, l) \<in> owned s \<longrightarrow> q \<le> unat x \<longrightarrow> unat x < q + l \<longrightarrow> byte s' x = byte s x) \<and>
      (\<forall>x. fixed s x \<longrightarrow> fixed s' x \<and> byte s' x = byte s x) \<and>
      (if p = 0 then owned s' = owned s
       else \<exists>k\<ge>unat n. owned s' = insert (unat p, k) (owned s) \<and>
              (\<forall>q l. (q, l) \<in> owned s \<longrightarrow> q + l \<le> unat p \<or> unat p + k \<le> q))"
    and release_law: "ok s \<Longrightarrow> (unat p, k) \<in> owned s \<Longrightarrow>
      \<exists>s'. release p s = Some s' \<and> ok s' \<and> owned s' = owned s - {(unat p, k)} \<and>
        (\<forall>q l x. (q, l) \<in> owned s' \<longrightarrow> q \<le> unat x \<longrightarrow> unat x < q + l \<longrightarrow> byte s' x = byte s x) \<and>
        (\<forall>x. fixed s x \<longrightarrow> fixed s' x \<and> byte s' x = byte s x)"
    and owned_nonempty: "ok s \<Longrightarrow> (q, l) \<in> owned s \<Longrightarrow> 0 < l"
begin

lemma malloc_new:
  assumes "ok s" "room n s" "malloc n s = Some (p, s')" "p \<noteq> 0"
  obtains k where "unat n \<le> k" "owned s' = insert (unat p, k) (owned s)" "(unat p, k) \<notin> owned s"
proof -
  from malloc_law [OF assms(1-3)] assms(4) obtain k where
    k: "unat n \<le> k" "owned s' = insert (unat p, k) (owned s)" "\<forall>q l. (q, l) \<in> owned s \<longrightarrow> q + l \<le> unat p \<or> unat p + k \<le> q"
    and ok': "ok s'" by auto
  have "0 < k" using owned_nonempty [OF ok', of "unat p" k] k(2) by simp
  then have "(unat p, k) \<notin> owned s" using k(3) by fastforce
  from that [OF k(1,2) this] show thesis .
qed

lemma malloc_release:
  assumes "ok s" "room n s" "malloc n s = Some (p, s')" "p \<noteq> 0"
  shows "\<exists>s''. release p s' = Some s'' \<and> ok s'' \<and> owned s'' = owned s \<and>
    (\<forall>q l x. (q, l) \<in> owned s \<longrightarrow> q \<le> unat x \<longrightarrow> unat x < q + l \<longrightarrow> byte s'' x = byte s x)"
proof -
  obtain k where k: "owned s' = insert (unat p, k) (owned s)" "(unat p, k) \<notin> owned s"
    using malloc_new [OF assms] by metis
  have ok': "ok s'" and keep: "\<And>q l x. (q, l) \<in> owned s \<Longrightarrow> q \<le> unat x \<Longrightarrow> unat x < q + l \<Longrightarrow> byte s' x = byte s x"
    using malloc_law [OF assms(1-3)] by blast+
  from release_law [OF ok', of p k] k obtain s'' where
    s'': "release p s' = Some s''" "ok s''" "owned s'' = owned s"
      "\<forall>q l x. (q, l) \<in> owned s'' \<longrightarrow> q \<le> unat x \<longrightarrow> unat x < q + l \<longrightarrow> byte s'' x = byte s' x" by auto
  then show ?thesis using keep by auto
qed

end

lemma kheap_malloc_law:
  fixes s :: "'a kheap_state_scheme"
  assumes ok: "heap_ok s" and room: "kmalloc_room n s"
  shows "\<exists>p s'. kmalloc n s = Some (p, s')"
    "kmalloc n s = Some (p, s') \<Longrightarrow> heap_ok s' \<and>
      (\<forall>q l x. (q, l) \<in> payloads s \<longrightarrow> q \<le> unat x \<longrightarrow> unat x < q + l \<longrightarrow> mem s' x = mem s x) \<and>
      (\<forall>x. static_byte s x \<longrightarrow> static_byte s' x \<and> mem s' x = mem s x) \<and>
      (if p = 0 then payloads s' = payloads s
       else \<exists>k\<ge>unat n. payloads s' = insert (unat p, k) (payloads s) \<and>
              (\<forall>q l. (q, l) \<in> payloads s \<longrightarrow> q + l \<le> unat p \<or> unat p + k \<le> q))"
proof -
  let ?bs = "heap_blocks s"
  have inv: "heap_inv ?bs s" using ok by (simp add: heap_ok_def)
  have fail: "heap_ok (serial_write str s)" "payloads (serial_write str s) = payloads s"
    "mem (serial_write str s) = mem s" "static_byte (serial_write str s) = static_byte s" for str
    using ok by (simp_all add: print_eqs static_view [of "s\<lparr>outs := _\<rparr>" s])
  have "(\<exists>p s'. kmalloc n s = Some (p, s')) \<and> (\<forall>p s'. kmalloc n s = Some (p, s') \<longrightarrow> heap_ok s' \<and>
      (\<forall>q l x. (q, l) \<in> payloads s \<longrightarrow> q \<le> unat x \<longrightarrow> unat x < q + l \<longrightarrow> mem s' x = mem s x) \<and>
      (\<forall>x. static_byte s x \<longrightarrow> static_byte s' x \<and> mem s' x = mem s x) \<and>
      (if p = 0 then payloads s' = payloads s
       else \<exists>k\<ge>unat n. payloads s' = insert (unat p, k) (payloads s) \<and>
              (\<forall>q l. (q, l) \<in> payloads s \<longrightarrow> q + l \<le> unat p \<or> unat p + k \<le> q)))"
  proof (cases "n = 0")
    case True
    then show ?thesis using ok by (simp add: kmalloc_def)
  next
    case False
    note O = kmalloc_outcome [OF inv False, of] room [unfolded kmalloc_room_def]
    show ?thesis
    proof (cases "heap_alloc (need_bytes (unat n)) ?bs")
      case None
      then have "kmalloc n s = Some (0, serial_write ''kheap: max size reached\<newline>'' s)" using O by simp
      then show ?thesis using fail by simp
    next
      case (Some r)
      then obtain b bs' s' where s': "kmalloc n s = Some (of_nat (b + 16), s')"
        "malloc_done ?bs bs' (b + 16) (unat n)
          (if first_fit (need_bytes (unat n)) 0x200000 ?bs = None then 4 * (expand_bytes (need_bytes (unat n)) div 4096) else 0) s s'" using O by (cases r) auto
      note D = s'(2) [unfolded malloc_done_def]
      have inv': "heap_inv bs' s'" using D by blast
      obtain k where k: "k \<ge> unat n" "live 0x200000 bs' = insert (b + 16, k) (live 0x200000 ?bs)"
        "\<forall>q l. (q, l) \<in> live 0x200000 ?bs \<longrightarrow> q + l \<le> b + 16 \<or> b + 16 + k \<le> q" using D by blast
      have ok': "heap_ok s'" and P: "payloads s' = insert (b + 16, k) (payloads s)"
        using heap_inv_ok [OF inv'] k(2) by (simp_all add: payloads_def)
      have u: "unat (of_nat (b + 16) :: u64) = b + 16" using payload_bounds(5) [OF ok', of "b + 16" k] P by simp
      then have nz: "(of_nat (b + 16) :: u64) \<noteq> 0" by auto
      show ?thesis using s'(1) ok' P k D u nz unfolding payloads_def by auto
    qed
  qed
  then show "\<exists>p s'. kmalloc n s = Some (p, s')"
    "kmalloc n s = Some (p, s') \<Longrightarrow> heap_ok s' \<and>
      (\<forall>q l x. (q, l) \<in> payloads s \<longrightarrow> q \<le> unat x \<longrightarrow> unat x < q + l \<longrightarrow> mem s' x = mem s x) \<and>
      (\<forall>x. static_byte s x \<longrightarrow> static_byte s' x \<and> mem s' x = mem s x) \<and>
      (if p = 0 then payloads s' = payloads s
       else \<exists>k\<ge>unat n. payloads s' = insert (unat p, k) (payloads s) \<and>
              (\<forall>q l. (q, l) \<in> payloads s \<longrightarrow> q + l \<le> unat p \<or> unat p + k \<le> q))" by blast+
qed

lemma kmalloc_same:
  assumes ok: "heap_ok s" and room: "kmalloc_room n s" and r: "kmalloc n s = Some (p, s')"
  shows "same_but_heap s s'"
proof (cases "n = 0")
  case True
  then show ?thesis using r by (simp add: kmalloc_def)
next
  case False
  have inv: "heap_inv (heap_blocks s) s" using ok by (simp add: heap_ok_def)
  from kmalloc_outcome [OF inv False] room [unfolded kmalloc_room_def] r show ?thesis
    by (auto simp: malloc_done_def print_eqs split: option.splits)
qed

lemma kmalloc_frames:
  assumes ok: "heap_ok s" and room: "kmalloc_room n s" and r: "kmalloc n s = Some (p, s')"
  shows "card {f \<in> free_frames s. f < 512} \<le> card {f \<in> free_frames s'. f < 512} + 4 * (expand_bytes (need_bytes (unat n)) div 4096)"
proof (cases "n = 0")
  case True
  then show ?thesis using r by (simp add: kmalloc_def)
next
  case False
  have inv: "heap_inv (heap_blocks s) s" using ok by (simp add: heap_ok_def)
  from kmalloc_outcome [OF inv False] room [unfolded kmalloc_room_def] r show ?thesis
    by (auto simp: malloc_done_def print_eqs split: option.splits if_splits)
qed

lemma kfree_same:
  assumes "heap_ok s" "(unat p, k) \<in> payloads s" "kfree p s = Some s'"
  shows "\<exists>m. s' = s\<lparr>mem := m\<rparr>"
proof -
  have inv: "heap_inv (heap_blocks s) s" using assms(1) by (simp add: heap_ok_def)
  have p: "of_nat (unat p) = p" by simp
  from heap_kfree [OF inv assms(2) [unfolded payloads_def], unfolded p] assms(3) show ?thesis
    by (metis option.inject)
qed

interpretation kheap: heap_allocator kmalloc kfree heap_ok payloads mem kmalloc_room static_byte
proof
  fix s :: "'a kheap_state_scheme" and n p :: u64 and k q l :: nat and s' :: "'a kheap_state_scheme"
  assume ok: "heap_ok s"
  show "\<exists>p s'. kmalloc n s = Some (p, s')" if "kmalloc_room n s"
    by (rule kheap_malloc_law(1) [OF ok that])
  show "heap_ok s' \<and> (\<forall>q l x. (q, l) \<in> payloads s \<longrightarrow> q \<le> unat x \<longrightarrow> unat x < q + l \<longrightarrow> mem s' x = mem s x) \<and>
      (\<forall>x. static_byte s x \<longrightarrow> static_byte s' x \<and> mem s' x = mem s x) \<and>
      (if p = 0 then payloads s' = payloads s
       else \<exists>k\<ge>unat n. payloads s' = insert (unat p, k) (payloads s) \<and>
              (\<forall>q l. (q, l) \<in> payloads s \<longrightarrow> q + l \<le> unat p \<or> unat p + k \<le> q))"
    if "kmalloc_room n s" "kmalloc n s = Some (p, s')"
    by (rule kheap_malloc_law(2) [OF ok that])
  show "0 < l" if "(q, l) \<in> payloads s" using payload_bounds(3) [OF ok that] by simp
  show "\<exists>s'. kfree p s = Some s' \<and> heap_ok s' \<and> payloads s' = payloads s - {(unat p, k)} \<and>
        (\<forall>q l x. (q, l) \<in> payloads s' \<longrightarrow> q \<le> unat x \<longrightarrow> unat x < q + l \<longrightarrow> mem s' x = mem s x) \<and>
        (\<forall>x. static_byte s x \<longrightarrow> static_byte s' x \<and> mem s' x = mem s x)"
    if p: "(unat p, k) \<in> payloads s"
  proof -
    have inv: "heap_inv (heap_blocks s) s" using ok by (simp add: heap_ok_def)
    obtain m xs n ys where m: "kfree (of_nat (unat p)) s = Some (s\<lparr>mem := m\<rparr>)"
      "heap_inv (coalesce (xs @ (n, True) # ys)) (s\<lparr>mem := m\<rparr>)"
      "live 0x200000 (coalesce (xs @ (n, True) # ys)) = payloads s - {(unat p, k)}"
      "\<And>q l x. (q, l) \<in> payloads s - {(unat p, k)} \<Longrightarrow> q \<le> unat x \<Longrightarrow> unat x < q + l \<Longrightarrow> m x = mem s x"
      "\<And>x. unat x < 0x200000 \<Longrightarrow> m x = mem s x"
      using heap_kfree [OF inv p [unfolded payloads_def]] unfolding payloads_def by metis
    have "\<forall>x. unat x < 0x200000 \<longrightarrow> m x = mem s x" using m(5) by blast
    note st = static_write [OF heap_inv_base [OF inv] this]
    have st': "static_byte (s\<lparr>mem := m\<rparr>) x \<and> m x = mem s x" if "static_byte s x" for x
      using that m(5) [of x] unfolding st by (simp add: static_byte_def)
    have P: "payloads (s\<lparr>mem := m\<rparr>) = payloads s - {(unat p, k)}" using heap_inv_ok(2) [OF m(2)] m(3) by simp
    then show ?thesis using m(1,4) st' heap_inv_ok(1) [OF m(2)] by (intro exI [of _ "s\<lparr>mem := m\<rparr>"]) simp
  qed
qed



section \<open>\<open>kheap_init\<close>\<close>

lemma kheap_init_ok:
  fixes s :: "'a kheap_state_scheme"
  assumes ok: "vmm_ok s" and low: "table_frames s \<subseteq> {..<512}" and room: "64 \<le> card {f \<in> free_frames s. f < 512}"
  shows "heap_inv [(65536, True)] (kheap_init s)"
    "card {f \<in> free_frames s. f < 512} \<le> card {f \<in> free_frames (kheap_init s). f < 512} + 64"
    "\<And>x. static_byte s x \<Longrightarrow> static_byte (kheap_init s) x \<and> mem (kheap_init s) x = mem s x"
    "\<exists>m o' b u. kheap_init s = s\<lparr>mem := m, outs := o', bitmap := b, used_frames := u, heap_start := 0x200000,
       heap_end := 0x210000, free_list := 0x200000\<rparr>"
proof -
  define s1 where "s1 = serial_write ''\<newline>'' (serial_write_dec_u64 KHEAP_INITIAL_SIZE (serial_write '' size=''
    (serial_write_hex_u64 KHEAP_START (serial_write ''kheap: mapping heap at ''
      (s\<lparr>heap_start := KHEAP_START, heap_end := KHEAP_START + KHEAP_INITIAL_SIZE\<rparr>)))))"
  have "s1 = s\<lparr>heap_start := 0x200000, heap_end := 0x210000, outs := outs s1\<rparr>" by (simp add: s1_def print_eqs)
  then obtain o1 where s1: "s1 = s\<lparr>heap_start := 0x200000, heap_end := 0x210000, outs := o1\<rparr>" by blast
  have v: "vmm_ok s1 = vmm_ok s" "table_frames s1 = table_frames s" "free_frames s1 = free_frames s"
    using vmm_view [of s1 s] by (simp_all add: s1 free_frames_def frame_used_def)
  define s2 where "s2 = kheap_map_region 0x200000 65536 s1"
  have ok1: "vmm_ok s1" and low1: "table_frames s1 \<subseteq> {..<512}" and room1: "4 * 16 \<le> card {f \<in> free_frames s1. f < 512}"
    and w: "unat (65536 :: u64) = 4096 * 16" using ok low room v by simp_all
  obtain gs where gs: "length gs = 16" "fresh_run 0x200000 gs 3 s1 s2" "table_frames s2 \<subseteq> {..<512}"
    "free_frames s1 - free_frames s2 \<subseteq> {..<512}" "\<And>x. 0x200000 \<le> unat x \<Longrightarrow> mem s2 x = mem s1 x"
    by (rule kheap_map_region_fresh [OF ok1 low1 room1 w, where start = "0x200000", folded s2_def], rule that)
  have ev: "evolves s1 s2" by (rule fresh_run_evolves [OF gs(2)])
  obtain m b u where s2: "s2 = s1\<lparr>mem := m, bitmap := b, used_frames := u\<rparr>"
    using evolves_same [OF ev] unfolding same_but_tables_def by blast
  define s3 where "s3 = s2\<lparr>free_list := 0x200000\<rparr>"
  have v3: "vmm_leaf s3 = vmm_leaf s2" "vmm_ok s3 = vmm_ok s2" "table_frames s3 = table_frames s2" "free_frames s3 = free_frames s2"
    using vmm_view [of s3 s2] by (simp_all add: s3_def free_frames_def frame_used_def)
  note R = gs(2) [unfolded fresh_run_def]
  have pn: "page_no (0x200000 :: u64) = 512" by (simp add: page_no_eq)
  have lk: "vmm_leaf s2 va = frame_addr (gs ! (page_no va - 512)) OR 3" if "512 \<le> page_no va" "page_no va < 512 + 16" for va
    unfolding fresh_run_leaf [OF gs(2)] using page_run_lookup [of "0x200000" gs 3 "vmm_leaf s1" va] that gs(1) by (simp add: pn)
  have "set gs \<subseteq> {..<32768} - free_frames s3 - table_frames s3"
    unfolding v3 using R free_frames_bound by blast
  then have "heap_pages gs s3"
    unfolding heap_pages_def v3 using R gs(1) lk by (simp add: s3_def s2 s1)
  then have base: "heap_base s3"
    unfolding heap_base_def v3 using evolves_ok [OF ev] gs(3) by (auto simp: s3_def s2 s1)
  define s4 where "s4 = put_header 0x200000 65536 s3"
  have s4: "s4 = s3\<lparr>mem := mem s4\<rparr>" by (simp add: s4_def put_header_def put64_def put32_def)
  have h16: "(0x200000 :: nat) + 16 \<le> 2 ^ 64" by simp
  note P = put_header_mem [OF h16, where v = 65536 and s = s3, simplified, folded s4_def]
  have "\<forall>x. unat x < 0x200000 \<longrightarrow> mem s4 x = mem s3 x" using P(3) by simp
  note low4 = this
  from heap_base_write [OF base low4] have "heap_base s4" using s4 by simp
  moreover have "unat (heap_end s4) = 0x210000" by (subst s4) (simp add: s3_def s2 s1)
  ultimately have inv: "heap_inv [(65536, True)] s4" using P(1,2) by (simp add: heap_inv_def)
  have init: "kheap_init s = serial_write ''kheap: ready\<newline>'' s4"
  proof -
    have "heap_start s1 = 0x200000" "heap_start s2 = 0x200000" by (simp_all add: s1 s2)
    then show ?thesis
      unfolding kheap_init_def s4_def s3_def Let_def by (simp add: s2_def s1_def print_eqs)
  qed
  show "heap_inv [(65536, True)] (kheap_init s)" using inv unfolding init by (simp add: print_eqs)
  have "free_frames (kheap_init s) = free_frames s2"
    unfolding init by (simp add: print_eqs) (subst s4, simp add: v3)
  moreover have "card {f \<in> free_frames s. f < 512} \<le> card {f \<in> free_frames s2. f < 512} + 64"
    using free_low_card [OF ev, of 64 512] fresh_run_card [OF gs(2)] gs(1) v(3) by simp
  ultimately show "card {f \<in> free_frames s. f < 512} \<le> card {f \<in> free_frames (kheap_init s). f < 512} + 64" by simp
  have "static_byte (s3\<lparr>mem := mem s4\<rparr>) = static_byte s3" by (rule static_write [OF base low4])
  then have st4: "static_byte s4 = static_byte s3" using s4 by simp
  have st: "static_byte s3 = static_byte s2" "static_byte s1 = static_byte s" by (rule static_view; simp add: s3_def s1)+
  have "kheap_init s = s4\<lparr>outs := outs (kheap_init s)\<rparr>" unfolding init by (simp add: print_eqs)
  then obtain o5 where s5: "kheap_init s = s4\<lparr>outs := o5\<rparr>" by blast
  have v5: "static_byte (kheap_init s) = static_byte s4" by (rule static_view; simp add: s5)
  show "static_byte (kheap_init s) x \<and> mem (kheap_init s) x = mem s x" if "static_byte s x" for x
  proof -
    have "static_byte s1 x" using that st by simp
    note e = static_evolves [OF ev this]
    have "unat x < 0x200000" using that by (simp add: static_byte_def)
    then have "mem s4 x = mem s3 x" using low4 by blast
    then show ?thesis using e st st4 v5 by (simp add: s5 s3_def s1)
  qed
  have "kheap_init s = s\<lparr>mem := mem s4, outs := o5, bitmap := b, used_frames := u, heap_start := 0x200000,
      heap_end := 0x210000, free_list := 0x200000\<rparr>"
    by (subst s5, subst s4, cases s) (simp add: s3_def s2 s1)
  then show "\<exists>m o' b u. kheap_init s = s\<lparr>mem := m, outs := o', bitmap := b, used_frames := u, heap_start := 0x200000,
       heap_end := 0x210000, free_list := 0x200000\<rparr>" by blast
qed



section \<open>Runs of the heap\<close>

text \<open>Clients write into the payloads they own; the headers lie outside.\<close>

lemma tiles_payload_write:
  assumes "tiles m a bs e" "(q, l) \<in> live a bs" "e \<le> 2 ^ 64" "\<forall>x. unat x < q \<or> q + l \<le> unat x \<longrightarrow> m' x = m x"
  shows "tiles m' a bs e"
  using assms
proof (induction m a bs e rule: tiles.induct)
  case (2 m a n f bs e)
  have T: "tiles m (a + n) bs e" and n: "32 \<le> n" and ae: "a + n \<le> e" using "2.prems"(1) tiles_bounds [of m a n f bs e] by auto
  have q: "(q = a + 16 \<and> l = n - 16) \<or> (a + n + 16 \<le> q \<and> (q, l) \<in> live (a + n) bs)"
    using "2.prems"(2) live_bounds(1) [OF T] by (auto split: if_splits)
  then have "agree a (a + 16) m m'" using "2.prems"(4) n by (auto simp: agree_def)
  from agree_blk [OF this] have h: "blk_size m' a = blk_size m a" "blk_free m' a = blk_free m a"
    using ae n "2.prems"(3) by simp_all
  have "tiles m' (a + n) bs e"
  proof (cases "(q, l) \<in> live (a + n) bs")
    case True
    then show ?thesis using "2.IH" T "2.prems" by blast
  next
    case False
    then have "agree (a + n) e m m'" using q "2.prems"(4) n by (auto simp: agree_def)
    then show ?thesis using tiles_agree [OF _ T] "2.prems"(3) by blast
  qed
  then show ?case using "2.prems"(1) h by simp
qed simp

lemma payload_write:
  assumes ok: "heap_ok s" and q: "(q, l) \<in> payloads s" and m: "\<forall>x. unat x < q \<or> q + l \<le> unat x \<longrightarrow> m x = mem s x"
  shows "heap_ok (s\<lparr>mem := m\<rparr>)" "payloads (s\<lparr>mem := m\<rparr>) = payloads s"
    "heap_blocks (s\<lparr>mem := m\<rparr>) = heap_blocks s"
proof -
  have inv: "heap_inv (heap_blocks s) s" using ok by (simp add: heap_ok_def)
  have "tiles m 0x200000 (heap_blocks s) (unat (heap_end s))"
    by (rule tiles_payload_write [OF heap_inv_tiles [OF inv] q [unfolded payloads_def] _ m])
      (use heap_inv_end [OF inv] in simp)
  then have inv': "heap_inv (heap_blocks s) (s\<lparr>mem := m\<rparr>)"
    using m payload_bounds(1) [OF ok q] heap_inv_nonempty [OF inv] by (intro heap_write [OF inv]) auto
  then show "heap_ok (s\<lparr>mem := m\<rparr>)" "payloads (s\<lparr>mem := m\<rparr>) = payloads s"
    using heap_inv_ok [OF inv'] by (simp_all add: payloads_def)
  show "heap_blocks (s\<lparr>mem := m\<rparr>) = heap_blocks s" by (rule heap_inv_blocks [OF inv'])
qed

text \<open>
  Runs of the heap: allocations, and releases of and writes to payloads whose addresses are
  not in \<open>K\<close>, in any order.
\<close>

inductive heap_run :: "nat set \<Rightarrow> 'a kheap_state_scheme \<Rightarrow> 'a kheap_state_scheme \<Rightarrow> bool" for K s where
  run_start: "heap_run K s s"
| run_malloc: "heap_run K s t \<Longrightarrow> kmalloc_room n t \<Longrightarrow> kmalloc n t = Some (p, u) \<Longrightarrow> heap_run K s u"
| run_free: "heap_run K s t \<Longrightarrow> (unat p, k) \<in> payloads t \<Longrightarrow> unat p \<notin> K \<Longrightarrow> kfree p t = Some u \<Longrightarrow> heap_run K s u"
| run_write: "heap_run K s t \<Longrightarrow> (q, l) \<in> payloads t \<Longrightarrow> q \<notin> K \<Longrightarrow>
    \<forall>x. unat x < q \<or> q + l \<le> unat x \<longrightarrow> m x = mem t x \<Longrightarrow> heap_run K s (t\<lparr>mem := m\<rparr>)"

lemma payload_disjoint:
  assumes "heap_ok s" "(p, k) \<in> payloads s" "(q, l) \<in> payloads s" "p \<noteq> q"
  shows "p + k + 16 \<le> q \<or> q + l + 16 \<le> p"
  using assms live_disjoint [OF heap_inv_tiles] unfolding heap_ok_def payloads_def by blast


section \<open>Properties of the heap\<close>

text \<open>A heap after boot, for the witnesses.\<close>

definition cold_kheap :: kheap_state where
  "cold_kheap = vmm_state.extend cold_vmm \<lparr>heap_start = 0, heap_end = 0, free_list = 0\<rparr>"

definition boot_kheap :: kheap_state where
  "boot_kheap = kheap_init (vmm_init (boot_pmm cold_kheap))"

lemma boot_vmm_low:
  assumes "pmm_wf s"
  defines "s' \<equiv> vmm_init (boot_pmm s)"
  shows "vmm_ok s'" "table_frames s' \<subseteq> {..<512}" "203 \<le> card {f \<in> free_frames s'. f < 512}"
proof -
  have st: "vmm_started (boot_pmm s) s'" unfolding s'_def by (rule boot_vmm_started [OF assms(1)])
  note F = boot_pmm_facts(2) [OF assms(1)]
  let ?T = "free_frames (boot_pmm s) - free_frames s'"
  show "vmm_ok s'" using st by (simp add: vmm_started_def)
  have "card ?T = card (free_frames (boot_pmm s)) - card (free_frames s')"
    using st by (intro card_Diff_subset) (auto simp: vmm_started_def)
  moreover have "card (free_frames (boot_pmm s)) \<le> card (free_frames s') + 5"
    using st unfolding vmm_started_def by blast
  ultimately have c: "card ?T \<le> 5" by linarith
  have sub: "free_frames s' \<subseteq> {304..<32768}" using st F by (auto simp: vmm_started_def)
  have "?T \<subseteq> {..<512}"
  proof
    fix f assume f: "f \<in> ?T"
    show "f \<in> {..<512}"
    proof (rule ccontr)
      assume "f \<notin> {..<512}"
      moreover have "f < g" if "g \<in> free_frames s'" for g
        using st f that unfolding vmm_started_def by blast
      ultimately have "{304..<512} \<subseteq> ?T" unfolding F by fastforce
      then have "card {304..<512 :: nat} \<le> card ?T" by (intro card_mono) auto
      then show False using c by simp
    qed
  qed
  then show "table_frames s' \<subseteq> {..<512}" using st by (auto simp: vmm_started_def)
  have "{304..<512} \<subseteq> {f \<in> free_frames s'. f < 512} \<union> ?T" using F by auto
  then have "card {304..<512 :: nat} \<le> card ({f \<in> free_frames s'. f < 512} \<union> ?T)" by (intro card_mono) auto
  also have "\<dots> \<le> card {f \<in> free_frames s'. f < 512} + card ?T" by (rule card_Un_le)
  finally show "203 \<le> card {f \<in> free_frames s'. f < 512}" using c by simp
qed

lemma boot_heap_facts:
  fixes s :: "'a kheap_state_scheme"
  assumes "pmm_wf s"
  defines "s' \<equiv> kheap_init (vmm_init (boot_pmm s))"
  shows "heap_inv [(65536, True)] s'" "139 \<le> card {f \<in> free_frames s'. f < 512}"
    "\<And>x. unat x < 304 * 4096 \<Longrightarrow> static_byte s' x"
proof -
  note L = boot_vmm_low [OF assms(1)]
  have "64 \<le> card {f \<in> free_frames (vmm_init (boot_pmm s)). f < 512}" using L(3) by simp
  note K = kheap_init_ok [OF L(1,2) this]
  show "heap_inv [(65536, True)] s'" "139 \<le> card {f \<in> free_frames s'. f < 512}"
    unfolding s'_def using K(1,2) L(3) by simp_all
  have st: "vmm_started (boot_pmm s) (vmm_init (boot_pmm s))" by (rule boot_vmm_started [OF assms(1)])
  have F: "table_frames (vmm_init (boot_pmm s)) \<union> free_frames (vmm_init (boot_pmm s)) \<subseteq> {304..<32768}"
    using st boot_pmm_facts(2) [OF assms(1)] unfolding vmm_started_def by blast
  show "static_byte s' x" if "unat x < 304 * 4096" for x
  proof -
    have "unat x div 4096 < 304" using that by (simp add: div_less_iff_less_mult)
    then have "unat x div 4096 \<notin> {304..<32768}" by simp
    then have "static_byte (vmm_init (boot_pmm s)) x" using F that by (auto simp: static_byte_def)
    then show ?thesis unfolding s'_def using K(3) by blast
  qed
qed

lemma boot_kheap_facts:
  "heap_inv [(65536, True)] boot_kheap" "139 \<le> card {f \<in> free_frames boot_kheap. f < 512}"
proof -
  have "pmm_wf cold_kheap" by (simp add: cold_kheap_def cold_vmm_def cold_pmm_def pmm_wf_def pmm_state.defs vmm_state.defs)
  from boot_heap_facts(1,2) [OF this]
  show "heap_inv [(65536, True)] boot_kheap" "139 \<le> card {f \<in> free_frames boot_kheap. f < 512}"
    unfolding boot_kheap_def .
qed

lemma boot_heap_ok: "heap_ok boot_kheap" "payloads boot_kheap = {}" "heap_blocks boot_kheap = [(65536, True)]"
  using heap_inv_ok [OF boot_kheap_facts(1)] heap_inv_blocks [OF boot_kheap_facts(1)] by simp_all

text \<open>
  C2 \<open>kmalloc\<close> implements first fit on the list of blocks: it returns the payload of the
  first free block that is large enough, split when at least 32 bytes remain; when none
  fits it grows the heap by whole pages, merging the new block into a free last block, and
  takes the block from there; when the heap would pass 16 MiB it returns 0. It always
  returns, and the blocks keep filling the heap exactly.
\<close>

theorem kmalloc_refines:
  assumes "heap_inv bs s" "sz \<noteq> 0" "unat sz \<le> 2 ^ 63" "heap_room (need_bytes (unat sz)) bs s"
  shows "case heap_alloc (need_bytes (unat sz)) bs of
      None \<Rightarrow> kmalloc sz s = Some (0, serial_write ''kheap: max size reached\<newline>'' s)
    | Some (b, bs') \<Rightarrow> \<exists>s'. kmalloc sz s = Some (of_nat (b + 16), s') \<and> heap_inv bs' s'"
  using kmalloc_outcome [OF assms] by (auto simp: malloc_done_def split: option.splits)

theorem kmalloc_refines_witness:
  "\<exists>s'. kmalloc 100000 boot_kheap = Some (0x200010, s') \<and> heap_inv [(100016, False), (67920, True)] s'"
proof -
  have n: "unat (100000 :: u64) = 100000" by simp
  have e: "heap_alloc (need_bytes 100000) [(65536, True)] = Some (0x200000, [(100016, False), (67920, True)])"
    by (simp add: heap_alloc_def need_bytes_def expand_bytes_def grow_def take_block_def)
  have r: "heap_room (need_bytes 100000) [(65536, True)] boot_kheap"
    using boot_kheap_facts(2) by (simp add: heap_room_def need_bytes_def expand_bytes_def)
  show ?thesis
    using kmalloc_refines [OF boot_kheap_facts(1), of 100000] r by (simp add: n e)
qed

text \<open>
  C8 A block from \<open>kmalloc\<close> is memory the caller owns: its payload has at least the bytes
  asked for, starts at a multiple of 8, lies in the heap and shares no byte with a payload
  in use; and \<open>kmalloc\<close> changes no byte of any payload in use.
\<close>

theorem kmalloc_safe:
  assumes "heap_ok s" "kmalloc_room sz s" "kmalloc sz s = Some (p, s')" "p \<noteq> 0"
  shows "heap_ok s' \<and> unat p mod 8 = 0 \<and>
    (\<exists>k\<ge>unat sz. payloads s' = insert (unat p, k) (payloads s) \<and> 0x200000 < unat p \<and> unat p + k \<le> 0x1200000 \<and>
       (\<forall>q l. (q, l) \<in> payloads s \<longrightarrow> q + l \<le> unat p \<or> unat p + k \<le> q)) \<and>
    (\<forall>q l x. (q, l) \<in> payloads s \<longrightarrow> q \<le> unat x \<longrightarrow> unat x < q + l \<longrightarrow> mem s' x = mem s x)"
proof -
  note L = kheap.malloc_law [OF assms(1-3)]
  then obtain k where ok: "heap_ok s'" and k: "unat sz \<le> k" "payloads s' = insert (unat p, k) (payloads s)"
    "\<forall>q l. (q, l) \<in> payloads s \<longrightarrow> q + l \<le> unat p \<or> unat p + k \<le> q" using assms(4) by auto
  have "(unat p, k) \<in> payloads s'" using k(2) by simp
  note B = payload_bounds [OF ok this]
  have "0x200000 < unat p" using B(1) by simp
  then show ?thesis using L ok k B(2,4) by blast
qed

theorem kmalloc_safe_witness:
  "\<exists>p s'. kmalloc 24 boot_kheap = Some (p, s') \<and> p \<noteq> 0 \<and> unat p mod 8 = 0"
proof -
  have e: "heap_alloc (need_bytes 24) [(65536, True)] = Some (0x200000, [(40, False), (65496, True)])"
    by (simp add: heap_alloc_def need_bytes_def take_block_def)
  have r: "heap_room (need_bytes 24) [(65536, True)] boot_kheap" by (simp add: heap_room_def need_bytes_def)
  obtain s' where s': "kmalloc 24 boot_kheap = Some (0x200010, s')"
    using kmalloc_outcome [OF boot_kheap_facts(1), of 24] r e by auto
  have "kmalloc_room 24 boot_kheap" using r by (simp add: kmalloc_room_def boot_heap_ok)
  from kmalloc_safe [OF boot_heap_ok(1) this s'] s' show ?thesis by simp
qed


text \<open>
  C9 Freeing a payload in use gives back exactly that payload: \<open>kfree\<close> returns, every
  other payload stays in use with its contents, and no two free blocks are left next to
  each other.
\<close>

theorem kfree_refines:
  assumes "heap_ok s" "(unat p, k) \<in> payloads s"
  shows "\<exists>s'. kfree p s = Some s' \<and> heap_ok s' \<and> payloads s' = payloads s - {(unat p, k)} \<and>
    (\<forall>q l x. (q, l) \<in> payloads s' \<longrightarrow> q \<le> unat x \<longrightarrow> unat x < q + l \<longrightarrow> mem s' x = mem s x) \<and>
    (\<forall>i. Suc i < length (heap_blocks s') \<longrightarrow> \<not> (snd (heap_blocks s' ! i) \<and> snd (heap_blocks s' ! Suc i)))"
proof -
  have inv: "heap_inv (heap_blocks s) s" using assms(1) by (simp add: heap_ok_def)
  obtain m xs n ys where m: "kfree (of_nat (unat p)) s = Some (s\<lparr>mem := m\<rparr>)"
    "heap_inv (coalesce (xs @ (n, True) # ys)) (s\<lparr>mem := m\<rparr>)"
    using heap_kfree [OF inv assms(2) [unfolded payloads_def]] by metis
  let ?s = "s\<lparr>mem := m\<rparr>"
  have bs: "heap_blocks ?s = coalesce (xs @ (n, True) # ys)" by (rule heap_inv_blocks [OF m(2)])
  have "\<not> (snd (heap_blocks ?s ! i) \<and> snd (heap_blocks ?s ! Suc i))" if "Suc i < length (heap_blocks ?s)" for i
  proof -
    have "heap_blocks ?s = take i (heap_blocks ?s) @ heap_blocks ?s ! i # heap_blocks ?s ! Suc i # drop (Suc (Suc i)) (heap_blocks ?s)"
      using that by (simp add: Cons_nth_drop_Suc)
    then show ?thesis unfolding bs using coalesce_no_adjacent by (metis prod.collapse)
  qed
  then show ?thesis using kheap.release_law [OF assms] m(1) by auto
qed

theorem kfree_refines_witness:
  "\<exists>s s'. kmalloc 24 boot_kheap = Some (0x200010, s) \<and> kfree 0x200010 s = Some s' \<and> payloads s' = {}"
proof -
  have e: "heap_alloc (need_bytes 24) [(65536, True)] = Some (0x200000, [(40, False), (65496, True)])"
    by (simp add: heap_alloc_def need_bytes_def take_block_def)
  obtain s where s: "kmalloc 24 boot_kheap = Some (0x200010, s)" "heap_inv [(40, False), (65496, True)] s"
    using kmalloc_outcome [OF boot_kheap_facts(1), of 24] e by (auto simp: heap_room_def need_bytes_def malloc_done_def)
  have P: "payloads s = {(0x200010, 24)}" using heap_inv_ok(2) [OF s(2)] by simp
  then have "(unat (0x200010 :: u64), 24) \<in> payloads s" by simp
  from kfree_refines [OF heap_inv_ok(1) [OF s(2)] this] s(1) P show ?thesis by auto
qed

text \<open>
  C27 \<open>kmalloc\<close> followed by \<open>kfree\<close> of its result restores the payloads in use, with their
  contents.
\<close>

theorem kmalloc_kfree_roundtrip:
  assumes "heap_ok s" "kmalloc_room sz s" "kmalloc sz s = Some (p, s')" "p \<noteq> 0"
  shows "\<exists>s''. kfree p s' = Some s'' \<and> heap_ok s'' \<and> payloads s'' = payloads s \<and>
    (\<forall>q l x. (q, l) \<in> payloads s \<longrightarrow> q \<le> unat x \<longrightarrow> unat x < q + l \<longrightarrow> mem s'' x = mem s x)"
  by (rule kheap.malloc_release [OF assms])

theorem kmalloc_kfree_roundtrip_witness:
  "\<exists>p s' s''. kmalloc 100000 boot_kheap = Some (p, s') \<and> kfree p s' = Some s'' \<and> payloads s'' = {}"
proof -
  have r: "heap_room (need_bytes 100000) [(65536, True)] boot_kheap"
    using boot_kheap_facts(2) by (simp add: heap_room_def need_bytes_def expand_bytes_def)
  have e: "heap_alloc (need_bytes 100000) [(65536, True)] = Some (0x200000, [(100016, False), (67920, True)])"
    by (simp add: heap_alloc_def need_bytes_def expand_bytes_def grow_def take_block_def)
  obtain s' where s': "kmalloc 100000 boot_kheap = Some (0x200010, s')"
    using kmalloc_outcome [OF boot_kheap_facts(1), of 100000] r e by auto
  have "kmalloc_room 100000 boot_kheap" using r by (simp add: kmalloc_room_def boot_heap_ok)
  from kmalloc_kfree_roundtrip [OF boot_heap_ok(1) this s'] s' boot_heap_ok(2) show ?thesis by auto
qed

text \<open>
  C24 \<open>kheap_init\<close>, with the tables and enough free frames below 2 MiB, leaves one free
  block of 64 KiB; every page of the heap is mapped, writable for the kernel only, each to
  a frame of its own that is neither free nor a page table.
\<close>

theorem kheap_init_establishes:
  assumes "vmm_ok s" "table_frames s \<subseteq> {..<512}" "64 \<le> card {f \<in> free_frames s. f < 512}"
  shows "heap_blocks (kheap_init s) = [(65536, True)] \<and> heap_ok (kheap_init s) \<and> payloads (kheap_init s) = {} \<and>
    (\<exists>fs. length fs = 16 \<and> distinct fs \<and>
       set fs \<inter> (free_frames (kheap_init s) \<union> table_frames (kheap_init s)) = {} \<and>
       (\<forall>va. 0x200000 \<le> unat va \<longrightarrow> unat va < 0x210000 \<longrightarrow>
          vmm_leaf (kheap_init s) va = frame_addr (fs ! (unat va div 4096 - 512)) OR 3))"
proof -
  let ?s = "kheap_init s"
  note inv = kheap_init_ok(1) [OF assms]
  have bs: "heap_blocks ?s = [(65536, True)]" "heap_ok ?s" "payloads ?s = {}"
    using heap_inv_blocks [OF inv] heap_inv_ok [OF inv] by simp_all
  obtain fs where fs: "heap_pages fs ?s" using inv by (auto simp: heap_inv_def heap_base_def)
  have "unat (heap_end ?s) = 0x200000 + 65536" using tiles_end [OF heap_inv_tiles [OF inv]] by simp
  then have n: "length fs = 16" using fs by (simp add: heap_pages_def)
  have "vmm_leaf ?s va = frame_addr (fs ! (unat va div 4096 - 512)) OR 3" if "0x200000 \<le> unat va" "unat va < 0x210000" for va
  proof -
    have "512 \<le> unat va div 4096" "unat va div 4096 < 528" using div_le_mono [OF that(1), of 4096] that(2)
      by (simp_all add: div_less_iff_less_mult)
    then have "page_no va = unat va div 4096" "512 \<le> page_no va" "page_no va < 512 + length fs" by (simp_all add: page_no_eq n)
    then show ?thesis using fs by (simp add: heap_pages_def)
  qed
  moreover have "distinct fs" "set fs \<inter> (free_frames ?s \<union> table_frames ?s) = {}" using fs by (auto simp: heap_pages_def)
  ultimately show ?thesis using bs n by blast
qed

theorem kheap_init_establishes_witness:
  "heap_blocks (kheap_init (vmm_init (boot_pmm cold_kheap))) = [(65536, True)]"
proof -
  have wf: "pmm_wf cold_kheap" by (simp add: cold_kheap_def cold_vmm_def cold_pmm_def pmm_wf_def pmm_state.defs vmm_state.defs)
  note L = boot_vmm_low [OF wf]
  show ?thesis using kheap_init_establishes [OF L(1,2)] L(3) by simp
qed

text \<open>
  C40 The size computation of \<open>kmalloc\<close> wraps around: a request within 16 bytes of \<open>2 ^ 64\<close>
  is treated as a request for the smallest block, and succeeds with a payload far smaller
  than asked for.
\<close>

theorem kmalloc_size_overflow:
  assumes inv: "heap_inv bs s" and sz: "2 ^ 64 - 16 \<le> unat sz" and fit: "first_fit 32 0x200000 bs = Some (b, bs')"
  shows "\<exists>s'. kmalloc sz s = Some (of_nat (b + 16), s') \<and> heap_inv bs' s'"
proof -
  have "2 ^ 64 \<le> unat sz + 16" using sz by simp
  then have "unat (sz + 16) = unat sz + 16 - 2 ^ 64"
    using unat_lt2p [of sz] by (simp add: unat_word_ariths le_mod_geq)
  then have lt: "unat (sz + 16) < 16" using unat_lt2p [of sz] by simp
  have "unat (kheap_align_up (sz + 16) 8) = (unat (sz + 16) + 7) div 8 * 8"
    using unat_align_up [of "sz + 16" 3] lt by simp
  also have "\<dots> \<le> unat (sz + 16) + 7" by (rule div_times_less_eq_dividend)
  finally have small: "kheap_align_up (sz + 16) 8 < 32" using lt by (simp add: word_less_nat_alt)
  have "sz \<noteq> 0" using sz by auto
  then have km: "kmalloc sz s = kmalloc_retry 32 s" using small by (simp add: kmalloc_def Let_def)
  have fit': "first_fit (unat (32 :: u64)) 0x200000 bs = Some (b, bs')" using fit by simp
  have t: "unat (32 :: u64) = need_bytes 16" by (simp add: need_bytes_def)
  from heap_take_done [OF inv t fit'] kmalloc_retry_fit [OF inv fit'] show ?thesis
    by (auto simp: km malloc_done_def)
qed

theorem kmalloc_size_overflow_witness:
  "\<exists>s'. kmalloc 0xFFFFFFFFFFFFFFFF boot_kheap = Some (0x200010, s') \<and> heap_inv [(32, False), (65504, True)] s'"
  using kmalloc_size_overflow [OF boot_kheap_facts(1), of "0xFFFFFFFFFFFFFFFF" "0x200000" "[(32, False), (65504, True)]"]
  by (simp add: take_block_def)


text \<open>
  C17 Along every run, the heap stays well formed and a payload that nobody frees or writes
  stays in use with its contents: no sequence of \<open>kmalloc\<close>, \<open>kfree\<close> and writes of other
  owners to their own memory can change it.
\<close>

theorem heap_run_preserves:
  assumes "heap_run K s t" "heap_ok s"
  shows "heap_ok t \<and> (\<forall>q l. (q, l) \<in> payloads s \<longrightarrow> q \<in> K \<longrightarrow> (q, l) \<in> payloads t \<and>
    (\<forall>x. q \<le> unat x \<longrightarrow> unat x < q + l \<longrightarrow> mem t x = mem s x))"
  using assms
proof (induction rule: heap_run.induct)
  case run_start
  then show ?case by simp
next
  case (run_malloc t n p u)
  then have ok: "heap_ok t" by blast
  note L = kheap.malloc_law [OF ok run_malloc.hyps(2,3)]
  have "payloads t \<subseteq> payloads u" using L by (auto split: if_splits)
  then show ?case using run_malloc.IH [OF run_malloc.prems] L by fastforce
next
  case (run_free t p k u)
  then have ok: "heap_ok t" by blast
  from kheap.release_law [OF ok run_free.hyps(2)] run_free.hyps(4) have
    u: "heap_ok u" "payloads u = payloads t - {(unat p, k)}"
      "\<forall>q l x. (q, l) \<in> payloads u \<longrightarrow> q \<le> unat x \<longrightarrow> unat x < q + l \<longrightarrow> mem u x = mem t x" by auto
  have "(q, l) \<in> payloads u" if "(q, l) \<in> payloads s" "q \<in> K" for q l
    using run_free.IH [OF run_free.prems] that run_free.hyps(3) u(2) by auto
  then show ?case using u run_free.IH [OF run_free.prems] by (metis (no_types, lifting))
next
  case (run_write t q l m)
  then have ok: "heap_ok t" by blast
  note W = payload_write [OF ok run_write.hyps(2,4)]
  have "m x = mem t x" if "(p, k) \<in> payloads t" "p \<in> K" "p \<le> unat x" "unat x < p + k" for p k x
  proof -
    have "p \<noteq> q" using that(2) run_write.hyps(3) by auto
    from payload_disjoint [OF ok that(1) run_write.hyps(2) this] that run_write.hyps(4) show ?thesis by fastforce
  qed
  then have "m x = mem s x" if "(p, k) \<in> payloads s" "p \<in> K" "p \<le> unat x" "unat x < p + k" for p k x
    using that run_write.IH [OF run_write.prems] by fastforce
  then show ?case using W run_write.IH [OF run_write.prems] by simp
qed

theorem heap_run_preserves_witness:
  "\<exists>s t u. kmalloc 24 boot_kheap = Some (0x200010, s) \<and> kmalloc 8 s = Some (0x200038, t) \<and>
     kfree 0x200038 t = Some u \<and> heap_run {0x200010} s u \<and> (0x200010, 24) \<in> payloads u"
proof -
  have e: "heap_alloc (need_bytes 24) [(65536, True)] = Some (0x200000, [(40, False), (65496, True)])"
    "heap_alloc (need_bytes 8) [(40, False), (65496, True)] = Some (0x200028, [(40, False), (32, False), (65464, True)])"
    by (simp_all add: heap_alloc_def need_bytes_def take_block_def)
  obtain s where s: "kmalloc 24 boot_kheap = Some (0x200010, s)" "heap_inv [(40, False), (65496, True)] s"
    using kmalloc_outcome [OF boot_kheap_facts(1), of 24] e by (auto simp: heap_room_def need_bytes_def malloc_done_def)
  have r: "heap_room (need_bytes 8) [(40, False), (65496, True)] s" by (simp add: heap_room_def need_bytes_def)
  obtain t where t: "kmalloc 8 s = Some (0x200038, t)" "heap_inv [(40, False), (32, False), (65464, True)] t"
    using kmalloc_outcome [OF s(2), of 8] e r by (auto simp: malloc_done_def)
  have P: "payloads t = {(0x200010, 24), (0x200038, 16)}" "payloads s = {(0x200010, 24)}"
    using heap_inv_ok(2) [OF t(2)] heap_inv_ok(2) [OF s(2)] by auto
  have p: "(unat (0x200038 :: u64), 16) \<in> payloads t" by (simp add: P)
  obtain u where u: "kfree 0x200038 t = Some u" using kheap.release_law [OF heap_inv_ok(1) [OF t(2)] p] by blast
  have room: "kmalloc_room 8 s" using r by (simp add: kmalloc_room_def heap_inv_blocks [OF s(2)])
  have run: "heap_run {0x200010} s u"
    by (rule run_free [OF run_malloc [OF run_start room t(1)] p _ u]) simp
  from heap_run_preserves [OF run heap_inv_ok(1) [OF s(2)]] have "(0x200010, 24) \<in> payloads u" by (simp add: P)
  then show ?thesis using s(1) t(1) u run by blast
qed


end
