(* ===== verification/Task.thy ===== *)
theory Task
  imports Heap_Allocator
begin
text \<open>
  Kernel tasks, \<open>task.c\<close> and \<open>switch.S\<close>: a circular list of task control blocks on the
  heap, the round-robin scheduler and the switch of stacks.
\<close>

section \<open>Data\<close>

abbreviation (input) TASK_STACK_SIZE :: u64 where "TASK_STACK_SIZE \<equiv> 8192"
abbreviation (input) TASK_READY :: u32 where "TASK_READY \<equiv> 0"
abbreviation (input) TASK_RUNNING :: u32 where "TASK_RUNNING \<equiv> 1"
abbreviation (input) TASK_DEAD :: u32 where "TASK_DEAD \<equiv> 2"

text \<open>
  The registers a switch saves and restores; \<open>rip\<close> is the address execution goes on at,
  at a call the one after it.
\<close>

record cpu_regs =
  rbx :: u64
  rbp :: u64
  r12 :: u64
  r13 :: u64
  r14 :: u64
  r15 :: u64
  rsp :: u64
  rip :: u64

record task_state = kheap_state +
  next_id :: u64
  current_task :: u64
  task_list :: u64
  cpu :: cpu_regs
  interrupts_on :: bool

text \<open>\<open>struct task\<close>: \<open>id\<close> at 0, \<open>rsp\<close> at 8, \<open>state\<close> at 16, \<open>stack\<close> at 24, \<open>next\<close> at 32.\<close>

abbreviation (input) sizeof_task :: u64 where "sizeof_task \<equiv> 40"

abbreviation task_id :: "'a machine_scheme \<Rightarrow> u64 \<Rightarrow> u64" where "task_id s t \<equiv> get64 s t"
abbreviation task_rsp :: "'a machine_scheme \<Rightarrow> u64 \<Rightarrow> u64" where "task_rsp s t \<equiv> get64 s (t + 8)"
abbreviation task_status :: "'a machine_scheme \<Rightarrow> u64 \<Rightarrow> u32" where "task_status s t \<equiv> get32 s (t + 16)"
abbreviation task_stack :: "'a machine_scheme \<Rightarrow> u64 \<Rightarrow> u64" where "task_stack s t \<equiv> get64 s (t + 24)"
abbreviation task_next :: "'a machine_scheme \<Rightarrow> u64 \<Rightarrow> u64" where "task_next s t \<equiv> get64 s (t + 32)"


section \<open>The switch\<close>

definition push :: "u64 \<Rightarrow> 'a task_state_scheme \<Rightarrow> 'a task_state_scheme" where
  "push v s =
     (let sp = rsp (cpu s) - 8
      in put64 sp v (s\<lparr>cpu := (cpu s)\<lparr>rsp := sp\<rparr>\<rparr>))"

definition pop :: "'a task_state_scheme \<Rightarrow> u64 \<times> 'a task_state_scheme" where
  "pop s = (get64 s (rsp (cpu s)), s\<lparr>cpu := (cpu s)\<lparr>rsp := rsp (cpu s) + 8\<rparr>\<rparr>)"

text \<open>\<open>switch_to\<close>, entered by a call, which has pushed the return address.\<close>

definition switch_to :: "u64 \<Rightarrow> u64 \<Rightarrow> 'a task_state_scheme \<Rightarrow> 'a task_state_scheme" where
  "switch_to old_rsp new_rsp s =
     (let s = push (rip (cpu s)) s;
          s = push (rbx (cpu s)) s;
          s = push (rbp (cpu s)) s;
          s = push (r12 (cpu s)) s;
          s = push (r13 (cpu s)) s;
          s = push (r14 (cpu s)) s;
          s = push (r15 (cpu s)) s;
          s = put64 old_rsp (rsp (cpu s)) s;
          s = s\<lparr>cpu := (cpu s)\<lparr>rsp := new_rsp\<rparr>\<rparr>;
          (v, s) = pop s; s = s\<lparr>cpu := (cpu s)\<lparr>r15 := v\<rparr>\<rparr>;
          (v, s) = pop s; s = s\<lparr>cpu := (cpu s)\<lparr>r14 := v\<rparr>\<rparr>;
          (v, s) = pop s; s = s\<lparr>cpu := (cpu s)\<lparr>r13 := v\<rparr>\<rparr>;
          (v, s) = pop s; s = s\<lparr>cpu := (cpu s)\<lparr>r12 := v\<rparr>\<rparr>;
          (v, s) = pop s; s = s\<lparr>cpu := (cpu s)\<lparr>rbp := v\<rparr>\<rparr>;
          (v, s) = pop s; s = s\<lparr>cpu := (cpu s)\<lparr>rbx := v\<rparr>\<rparr>;
          (v, s) = pop s
      in s\<lparr>cpu := (cpu s)\<lparr>rip := v\<rparr>\<rparr>)"


section \<open>Operations\<close>

definition task_init :: "'a task_state_scheme \<Rightarrow> 'a task_state_scheme option" where
  "task_init s = do {
     (boot, s) \<leftarrow> kmalloc sizeof_task s;
     if boot = 0 then Some (serial_write ''task: failed to allocate boot task\<newline>'' s)
     else do {
       let s = put64 boot (next_id s) (s\<lparr>next_id := next_id s + 1\<rparr>);
       let s = put64 (boot + 8) 0 s;
       let s = put32 (boot + 16) TASK_RUNNING s;
       let s = put64 (boot + 24) 0 s;
       let s = put64 (boot + 32) boot s;
       let s = s\<lparr>current_task := boot, task_list := boot\<rparr>;
       let s = serial_write ''task: boot task id='' s;
       let s = serial_write_dec_u64 (task_id s boot) s;
       Some (serial_write ''\<newline>'' s)
     }
   }"

text \<open>
  The initial stack of a task, what \<open>switch_to\<close> pops: \<open>trampoline\<close> is the address of
  \<open>task_trampoline\<close>. The result is the stack pointer.
\<close>

definition task_frame :: "u64 \<Rightarrow> u64 \<Rightarrow> u64 \<Rightarrow> 'a task_state_scheme \<Rightarrow> u64 \<times> 'a task_state_scheme" where
  "task_frame trampoline entry stack s =
     (let sp = stack + TASK_STACK_SIZE;
          sp = sp - 8; s = put64 sp trampoline s;
          sp = sp - 8; s = put64 sp 0 s;
          sp = sp - 8; s = put64 sp 0 s;
          sp = sp - 8; s = put64 sp entry s;
          sp = sp - 8; s = put64 sp 0 s;
          sp = sp - 8; s = put64 sp 0 s;
          sp = sp - 8; s = put64 sp 0 s
      in (sp, s))"

text \<open>The walk to the predecessor of \<open>t\<close>, in \<open>task_create\<close> with \<open>t\<close> the head of the list.\<close>

partial_function (option) task_before :: "u64 \<Rightarrow> u64 \<Rightarrow> 'a task_state_scheme \<Rightarrow> u64 option" where
  "task_before t prev s = (if task_next s prev \<noteq> t then task_before t (task_next s prev) s else Some prev)"

definition task_link :: "u64 \<Rightarrow> 'a task_state_scheme \<Rightarrow> 'a task_state_scheme option" where
  "task_link t s =
     (if task_list s \<noteq> 0
      then do {
        tail \<leftarrow> task_before (task_list s) (task_list s) s;
        let s = put64 (tail + 32) t s;
        Some (put64 (t + 32) (task_list s) s)
      }
      else Some ((put64 (t + 32) t s)\<lparr>task_list := t\<rparr>))"

definition task_create :: "u64 \<Rightarrow> u64 \<Rightarrow> 'a task_state_scheme \<Rightarrow> (u64 \<times> 'a task_state_scheme) option" where
  "task_create trampoline entry s = do {
     (t, s) \<leftarrow> kmalloc sizeof_task s;
     if t = 0 then Some (0, serial_write ''task: failed to allocate TCB\<newline>'' s)
     else do {
       (stack, s) \<leftarrow> kmalloc TASK_STACK_SIZE s;
       if stack = 0
       then do {
         s \<leftarrow> kfree t (serial_write ''task: failed to allocate stack\<newline>'' s);
         Some (0, s)
       }
       else do {
         let s = put64 t (next_id s) (s\<lparr>next_id := next_id s + 1\<rparr>);
         let s = put32 (t + 16) TASK_READY s;
         let s = put64 (t + 24) stack s;
         let (sp, s) = task_frame trampoline entry stack s;
         let s = put64 (t + 8) sp s;
         s \<leftarrow> task_link t s;
         let s = serial_write ''task: created id='' s;
         let s = serial_write_dec_u64 (task_id s t) s;
         let s = serial_write '' entry='' s;
         let s = serial_write_hex_u64 entry s;
         let s = serial_write '' stack='' s;
         let s = serial_write_hex_u64 stack s;
         Some (t, serial_write ''\<newline>'' s)
       }
     }
   }"

definition task_unlink :: "u64 \<Rightarrow> 'a task_state_scheme \<Rightarrow> 'a task_state_scheme option" where
  "task_unlink t s =
     (if task_next s t = t then Some (s\<lparr>task_list := 0\<rparr>)
      else do {
        prev \<leftarrow> task_before t (task_list s) s;
        let s = put64 (prev + 32) (task_next s t) s;
        Some (if task_list s = t then s\<lparr>task_list := task_next s t\<rparr> else s)
      })"

definition task_destroy :: "u64 \<Rightarrow> 'a task_state_scheme \<Rightarrow> 'a task_state_scheme option" where
  "task_destroy t s =
     (if t = 0 then Some s
      else do {
        s \<leftarrow> task_unlink t s;
        let s = serial_write ''task: destroyed id='' s;
        let s = serial_write_dec_u64 (task_id s t) s;
        let s = serial_write ''\<newline>'' s;
        s \<leftarrow> (if task_stack s t \<noteq> 0 then kfree (task_stack s t) s else Some s);
        kfree t s
      })"

text \<open>The loops of \<open>schedule\<close>: reaping dead tasks, and the search for a task that is ready.\<close>

partial_function (option) schedule_reap :: "u64 \<Rightarrow> 'a task_state_scheme \<Rightarrow> 'a task_state_scheme option" where
  "schedule_reap t s =
     (if t \<noteq> current_task s
      then do {
        let save_next = task_next s t;
        s \<leftarrow> (if task_status s t = TASK_DEAD then task_destroy t s else Some s);
        schedule_reap save_next s
      }
      else Some s)"

partial_function (option) schedule_find :: "u64 \<Rightarrow> u64 \<Rightarrow> 'a task_state_scheme \<Rightarrow> u64 option" where
  "schedule_find start next s =
     (if task_status s next = TASK_READY then Some next
      else if task_next s next \<noteq> start then schedule_find start (task_next s next) s
      else Some (task_next s next))"

definition schedule :: "'a task_state_scheme \<Rightarrow> 'a task_state_scheme option" where
  "schedule s =
     (if current_task s = 0 \<or> task_next s (current_task s) = 0 then Some s
      else do {
        s \<leftarrow> schedule_reap (task_next s (current_task s)) s;
        next \<leftarrow> schedule_find (task_next s (current_task s)) (task_next s (current_task s)) s;
        if next = current_task s \<or> task_status s next \<noteq> TASK_READY then Some s
        else do {
          let prev = current_task s;
          let s = (if task_status s prev = TASK_RUNNING then put32 (prev + 16) TASK_READY s else s);
          let s = s\<lparr>current_task := next\<rparr>;
          let s = put32 (next + 16) TASK_RUNNING s;
          Some (switch_to (prev + 8) (task_rsp s next) s)
        }
      })"

text \<open>\<open>task_exit\<close>, up to the halt that follows when \<open>schedule\<close> comes back to the dead task.\<close>

definition task_exit :: "'a task_state_scheme \<Rightarrow> 'a task_state_scheme option" where
  "task_exit s = do {
     let s = serial_write ''task: exit id='' s;
     let s = serial_write_dec_u64 (task_id s (current_task s)) s;
     let s = serial_write ''\<newline>'' s;
     let s = put32 (current_task s + 16) TASK_DEAD s;
     schedule s
   }"

text \<open>\<open>run\<close> is what the code at an address does when it is called, \<open>None\<close> if it does not return.\<close>

definition task_trampoline ::
  "(u64 \<Rightarrow> 'a task_state_scheme \<Rightarrow> 'a task_state_scheme option) \<Rightarrow> 'a task_state_scheme \<Rightarrow> 'a task_state_scheme option"
where
  "task_trampoline run s = do {
     let entry = r12 (cpu s);
     let s = s\<lparr>interrupts_on := True\<rparr>;
     s \<leftarrow> run entry s;
     task_exit s
   }"

definition yield :: "'a task_state_scheme \<Rightarrow> 'a task_state_scheme option" where
  "yield s = schedule s"

definition task_get_current :: "'a task_state_scheme \<Rightarrow> u64" where
  "task_get_current s = current_task s"

definition task_get_list :: "'a task_state_scheme \<Rightarrow> u64" where
  "task_get_list s = task_list s"


end
