(* ===== verification/Task_Ring.thy ===== *)
theory Task_Ring
  imports Task
begin
text \<open>
  The circular list of \<open>task.c\<close> as a ring of control blocks on the heap. The stack switch
  of \<open>switch.S\<close> saves and restores a task's registers; \<open>task_destroy\<close> takes a task out of
  the ring and frees its memory, and the first loop of \<open>schedule\<close> does so for every task
  that has exited.
\<close>

section \<open>The switch of stacks\<close>

text \<open>The frame \<open>switch_to\<close> leaves on a stack, at the stack pointer it stores.\<close>

definition saved :: "memory \<Rightarrow> u64 \<Rightarrow> cpu_regs \<Rightarrow> bool" where
  "saved m sp r \<longleftrightarrow>
     load64 m sp = r15 r \<and> load64 m (sp + 8) = r14 r \<and> load64 m (sp + 16) = r13 r \<and> load64 m (sp + 24) = r12 r \<and>
     load64 m (sp + 32) = rbp r \<and> load64 m (sp + 40) = rbx r \<and> load64 m (sp + 48) = rip r \<and> rsp r = sp + 56"

definition push_frame :: "cpu_regs \<Rightarrow> memory \<Rightarrow> memory" where
  "push_frame r m =
     (let m = store64 m (rsp r - 8) (rip r); m = store64 m (rsp r - 16) (rbx r); m = store64 m (rsp r - 24) (rbp r);
          m = store64 m (rsp r - 32) (r12 r); m = store64 m (rsp r - 40) (r13 r); m = store64 m (rsp r - 48) (r14 r)
      in store64 m (rsp r - 56) (r15 r))"

lemma apart_sub:
  assumes "apart a n b k" "i + l \<le> k" "0 < l"
  shows "apart a n (b + of_nat i) l"
proof -
  have 1: "n \<le> unat (b + of_nat i - a)" using apart_byte [OF assms(1), of i] assms(2,3) by simp
  have k: "k \<le> unat (a - b)" using assms(1) by (simp add: apart_def)
  have "unat (of_nat i :: u64) = i" using k assms(2) unat_lt2p [of "a - b"] by (intro unat_of_nat_small) simp
  then have "unat (a - b - of_nat i) = unat (a - b) - i"
    using k assms(2) by (subst unat_sub) (simp_all add: word_le_nat_alt)
  moreover have "a - (b + of_nat i) = a - b - of_nat i" by simp
  ultimately have "unat (a - (b + of_nat i)) = unat (a - b) - i" by (simp only:)
  then have "l \<le> unat (a - (b + of_nat i))" using k assms(2) by linarith
  with 1 show ?thesis unfolding apart_def by blast
qed

lemma saved_cong:
  assumes "\<And>i. i < 56 \<Longrightarrow> m' (sp + of_nat i) = m (sp + of_nat i)"
  shows "saved m' sp r = saved m sp r"
proof -
  have "load64 m' (sp + of_nat j) = load64 m (sp + of_nat j)" if "j + 8 \<le> 56" for j
  proof (rule load_le_cong)
    fix i :: nat assume "i < 8"
    then show "m' (sp + of_nat j + of_nat i) = m (sp + of_nat j + of_nat i)"
      using assms [of "j + i"] that by (simp add: add.assoc)
  qed
  from this [of 0] this [of 8] this [of 16] this [of 24] this [of 32] this [of 40] this [of 48]
  show ?thesis by (simp add: saved_def)
qed

lemma saved_store_apart:
  assumes "apart a n sp 56" "n < 2 ^ 64"
  shows "saved (store_le n m a v) sp r = saved m sp r"
proof (rule saved_cong)
  fix i :: nat assume "i < 56"
  then have "n \<le> unat (sp + of_nat i - a)" by (rule apart_byte [OF assms(1)])
  then show "store_le n m a v (sp + of_nat i) = m (sp + of_nat i)" using assms(2) by (rule store_outside [rotated])
qed

lemma saved_push_frame: "saved (push_frame r m) (rsp r - 56) r"
  by (simp add: saved_def push_frame_def Let_def load_store_apart apart_def)

lemma push_frame_outside:
  assumes "56 \<le> unat (x - (rsp r - 56))"
  shows "push_frame r m x = m x"
proof -
  have "8 \<le> unat (x - (rsp r - of_nat j))" if j: "j \<le> 56" "8 \<le> j" for j
  proof -
    let ?d = "x - (rsp r - 56)"
    have u: "unat (of_nat (56 - j) :: u64) = 56 - j" by (intro unat_of_nat_small) simp
    have "x - (rsp r - of_nat j) = ?d - of_nat (56 - j)" using j by (simp add: of_nat_diff)
    moreover have "unat (?d - of_nat (56 - j)) = unat ?d - (56 - j)"
      using assms by (subst unat_sub) (simp_all only: word_le_nat_alt u)
    ultimately have "unat (x - (rsp r - of_nat j)) = unat ?d - (56 - j)" by (simp only:)
    then show ?thesis using assms j by linarith
  qed
  from this [of 8] this [of 16] this [of 24] this [of 32] this [of 40] this [of 48] this [of 56] show ?thesis
    by (simp add: push_frame_def Let_def store_outside)
qed

text \<open>
  \<open>switch_to\<close>, when the frame it pushes, the word it stores the stack pointer in and the
  frame it pops do not overlap.
\<close>

lemma switch_to_eq:
  "switch_to old_rsp new_rsp s =
     (let m = store64 (push_frame (cpu s) (mem s)) old_rsp (rsp (cpu s) - 56)
      in s\<lparr>mem := m,
           cpu := \<lparr>rbx = load64 m (new_rsp + 40), rbp = load64 m (new_rsp + 32), r12 = load64 m (new_rsp + 24),
                   r13 = load64 m (new_rsp + 16), r14 = load64 m (new_rsp + 8), r15 = load64 m new_rsp,
                   rsp = new_rsp + 56, rip = load64 m (new_rsp + 48)\<rparr>\<rparr>)"
  by (cases "cpu s") (simp add: switch_to_def push_def pop_def push_frame_def Let_def put64_def add.commute)

lemma switch_to_spec:
  assumes old: "apart old_rsp 8 (rsp (cpu s) - 56) 56" and new: "apart (rsp (cpu s) - 56) 56 new_rsp 56"
    and on: "apart old_rsp 8 new_rsp 56" and r: "saved (mem s) new_rsp r"
  defines "s' \<equiv> switch_to old_rsp new_rsp s"
  shows "cpu s' = r" "saved (mem s') (rsp (cpu s) - 56) (cpu s)" "get64 s' old_rsp = rsp (cpu s) - 56"
    "\<And>x. 56 \<le> unat (x - (rsp (cpu s) - 56)) \<Longrightarrow> 8 \<le> unat (x - old_rsp) \<Longrightarrow> mem s' x = mem s x"
    "s' = s\<lparr>mem := mem s', cpu := r\<rparr>"
proof -
  let ?m = "store64 (push_frame (cpu s) (mem s)) old_rsp (rsp (cpu s) - 56)"
  have m: "mem s' = ?m" by (simp add: s'_def switch_to_eq Let_def)
  have "saved (push_frame (cpu s) (mem s)) new_rsp r = saved (mem s) new_rsp r"
  proof (rule saved_cong)
    fix i :: nat assume "i < 56"
    then show "push_frame (cpu s) (mem s) (new_rsp + of_nat i) = mem s (new_rsp + of_nat i)"
      by (intro push_frame_outside apart_byte [OF new])
  qed
  then have "saved ?m new_rsp r" using r on by (simp add: saved_store_apart)
  then show cpu: "cpu s' = r" by (simp add: s'_def switch_to_eq Let_def saved_def)
  show "saved (mem s') (rsp (cpu s) - 56) (cpu s)"
    unfolding m using old saved_push_frame by (simp add: saved_store_apart)
  show "get64 s' old_rsp = rsp (cpu s) - 56" by (simp add: m)
  show "mem s' x = mem s x" if "56 \<le> unat (x - (rsp (cpu s) - 56))" "8 \<le> unat (x - old_rsp)" for x
    using that by (simp add: m store_outside push_frame_outside)
  show "s' = s\<lparr>mem := mem s', cpu := r\<rparr>"
    unfolding cpu [symmetric] by (simp add: s'_def switch_to_eq Let_def)
qed



section \<open>Control blocks in memory\<close>

record tcb =
  tc_id :: u64
  tc_rsp :: u64
  tc_status :: u32
  tc_stack :: u64
  tc_next :: u64

definition tcb_at :: "memory \<Rightarrow> u64 \<Rightarrow> tcb" where
  "tcb_at m t = \<lparr>tc_id = load64 m t, tc_rsp = load64 m (t + 8), tc_status = load32 m (t + 16),
     tc_stack = load64 m (t + 24), tc_next = load64 m (t + 32)\<rparr>"

lemma tcb_at_sel [simp]:
  "tc_id (tcb_at m t) = load64 m t" "tc_rsp (tcb_at m t) = load64 m (t + 8)" "tc_status (tcb_at m t) = load32 m (t + 16)"
  "tc_stack (tcb_at m t) = load64 m (t + 24)" "tc_next (tcb_at m t) = load64 m (t + 32)"
  by (simp_all add: tcb_at_def)

text \<open>A store to a field changes that field only.\<close>

lemma tcb_store:
  "tcb_at (store64 m t v) t = (tcb_at m t)\<lparr>tc_id := v\<rparr>"
  "tcb_at (store64 m (t + 8) v) t = (tcb_at m t)\<lparr>tc_rsp := v\<rparr>"
  "tcb_at (store32 m (t + 16) w) t = (tcb_at m t)\<lparr>tc_status := w\<rparr>"
  "tcb_at (store64 m (t + 24) v) t = (tcb_at m t)\<lparr>tc_stack := v\<rparr>"
  "tcb_at (store64 m (t + 32) v) t = (tcb_at m t)\<lparr>tc_next := v\<rparr>"
  by (simp_all add: tcb_at_def load_store_apart apart_def)

lemma tcb_at_cong:
  assumes "\<And>i. i < 40 \<Longrightarrow> m' (t + of_nat i) = m (t + of_nat i)"
  shows "tcb_at m' t = tcb_at m t"
proof -
  have "load_le w m' (t + of_nat j) = (load_le w m (t + of_nat j) :: 'b::len word)" if "j + w \<le> 40" for j w
  proof (rule load_le_cong)
    fix i assume "i < w"
    then show "m' (t + of_nat j + of_nat i) = m (t + of_nat j + of_nat i)"
      using assms [of "j + i"] that by (simp add: add.assoc)
  qed
  note L = this
  from L [of 0 8] L [of 8 8] L [of 16 4] L [of 24 8] L [of 32 8] show ?thesis
    by (simp add: tcb_at_def)
qed


section \<open>Memory owned on the heap\<close>

definition owns :: "'a kheap_state_scheme \<Rightarrow> u64 \<Rightarrow> nat \<Rightarrow> bool" where
  "owns s a n \<longleftrightarrow> (\<exists>k\<ge>n. (unat a, k) \<in> payloads s)"

lemma heap_ok_view:
  assumes "mem s' = mem s" "pml4 s' = pml4 s" "bitmap s' = bitmap s" "used_frames s' = used_frames s"
    "heap_start s' = heap_start s" "heap_end s' = heap_end s"
  shows "heap_ok s' = heap_ok s" "payloads s' = payloads s" "owns s' = owns s" "static_byte s' = static_byte s"
    "kmalloc_room n s' = kmalloc_room n s"
proof -
  have b: "heap_blocks s' = heap_blocks s" using assms by (simp add: heap_blocks_def)
  have f: "free_frames s' = free_frames s" using assms(3) by (simp add: free_frames_def frame_used_def)
  show "heap_ok s' = heap_ok s" "payloads s' = payloads s" "kmalloc_room n s' = kmalloc_room n s"
    using heap_view [OF assms] by (simp_all add: heap_ok_def payloads_def kmalloc_room_def heap_room_def b f)
  then show "owns s' = owns s" by (simp add: owns_def fun_eq_iff)
  show "static_byte s' = static_byte s" by (rule static_view [OF assms(1-4)])
qed

lemma heap_task_upd [simp]:
  "heap_ok (s\<lparr>task_list := t\<rparr>) = heap_ok s" "heap_ok (s\<lparr>current_task := t\<rparr>) = heap_ok s"
  "heap_ok (s\<lparr>next_id := t\<rparr>) = heap_ok s" "heap_ok (s\<lparr>cpu := r\<rparr>) = heap_ok s"
  "payloads (s\<lparr>task_list := t\<rparr>) = payloads s" "payloads (s\<lparr>current_task := t\<rparr>) = payloads s"
  "payloads (s\<lparr>next_id := t\<rparr>) = payloads s" "payloads (s\<lparr>cpu := r\<rparr>) = payloads s"
  "owns (s\<lparr>task_list := t\<rparr>) = owns s" "owns (s\<lparr>current_task := t\<rparr>) = owns s"
  "owns (s\<lparr>next_id := t\<rparr>) = owns s" "owns (s\<lparr>cpu := r\<rparr>) = owns s" "owns (s\<lparr>outs := x\<rparr>) = owns s"
  "static_byte (s\<lparr>task_list := t\<rparr>) = static_byte s" "static_byte (s\<lparr>current_task := t\<rparr>) = static_byte s"
  "static_byte (s\<lparr>next_id := t\<rparr>) = static_byte s" "static_byte (s\<lparr>cpu := r\<rparr>) = static_byte s"
  "static_byte (s\<lparr>outs := x\<rparr>) = static_byte s"
  by (rule heap_ok_view; simp)+

lemma owns_bounds: "heap_ok s \<Longrightarrow> owns s a n \<Longrightarrow> 0x200010 \<le> unat a \<and> unat a + n \<le> 0x1200000"
  using payload_bounds(1,2) [of s "unat a"] unfolding owns_def by (meson add_left_mono order_trans)

lemma owns_byte:
  assumes "heap_ok s" "owns s a n" "i < n"
  shows "unat (a + of_nat i) = unat a + i"
  using owns_bounds [OF assms(1,2)] assms(3) by (intro unat_add_of_nat) simp

lemma owns_disjoint:
  assumes "heap_ok s" "owns s a n" "owns s b k" "a \<noteq> b"
  shows "unat a + n \<le> unat b \<or> unat b + k \<le> unat a"
proof -
  obtain n' where n': "n \<le> n'" "(unat a, n') \<in> payloads s" using assms(2) by (auto simp: owns_def)
  obtain k' where k': "k \<le> k'" "(unat b, k') \<in> payloads s" using assms(3) by (auto simp: owns_def)
  have "unat a \<noteq> unat b" using assms(4) by (simp add: word_unat_eq_iff)
  from payload_disjoint [OF assms(1) n'(2) k'(2) this] n' k' show ?thesis by linarith
qed

text \<open>A write inside memory owned at \<open>b\<close>.\<close>

definition writes_in :: "u64 \<Rightarrow> nat \<Rightarrow> memory \<Rightarrow> memory \<Rightarrow> bool" where
  "writes_in b n m m' \<longleftrightarrow> (\<forall>x. unat x < unat b \<or> unat b + n \<le> unat x \<longrightarrow> m' x = m x)"

lemma writes_in_refl [simp]: "writes_in b n m m"
  by (simp add: writes_in_def)

lemma writes_in_trans: "writes_in b n m m' \<Longrightarrow> writes_in b n m' m'' \<Longrightarrow> writes_in b n m m''"
  by (simp add: writes_in_def)

lemma writes_in_store:
  assumes "unat b + n \<le> 2 ^ 63" "j + w \<le> n" "unat (b + of_nat j) = unat b + j"
  shows "writes_in b n m (store_le w m (b + of_nat j) v)"
  unfolding writes_in_def using assms by (auto intro!: store_outside_nat)

lemma owns_write:
  assumes ok: "heap_ok s" and b: "owns s b n" and w: "writes_in b n (mem s) m"
  shows "heap_ok (s\<lparr>mem := m\<rparr>)" "payloads (s\<lparr>mem := m\<rparr>) = payloads s" "owns (s\<lparr>mem := m\<rparr>) = owns s"
    "\<And>a k i. owns s a k \<Longrightarrow> a \<noteq> b \<Longrightarrow> i < k \<Longrightarrow> m (a + of_nat i) = mem s (a + of_nat i)"
    "\<And>x. static_byte s x \<Longrightarrow> static_byte (s\<lparr>mem := m\<rparr>) x \<and> m x = mem s x"
    "heap_blocks (s\<lparr>mem := m\<rparr>) = heap_blocks s"
proof -
  obtain k where k: "n \<le> k" "(unat b, k) \<in> payloads s" using b by (auto simp: owns_def)
  have m: "\<forall>x. unat x < unat b \<or> unat b + k \<le> unat x \<longrightarrow> m x = mem s x"
    using w k(1) by (auto simp: writes_in_def)
  note P = payload_write [OF ok k(2) m]
  show "heap_ok (s\<lparr>mem := m\<rparr>)" "payloads (s\<lparr>mem := m\<rparr>) = payloads s" "heap_blocks (s\<lparr>mem := m\<rparr>) = heap_blocks s" by (rule P)+
  then show "owns (s\<lparr>mem := m\<rparr>) = owns s" by (simp add: owns_def fun_eq_iff)
  show "m (a + of_nat i) = mem s (a + of_nat i)" if "owns s a k" "a \<noteq> b" "i < k" for a k i
    using owns_disjoint [OF ok that(1) b that(2)] w that(3) owns_byte [OF ok that(1,3)]
    by (auto simp: writes_in_def)
  have "\<forall>x. unat x < 0x200000 \<longrightarrow> m x = mem s x"
    using w owns_bounds [OF ok b] by (auto simp: writes_in_def)
  note low = this
  have base: "heap_base s" using ok heap_inv_base by (auto simp: heap_ok_def)
  show "static_byte (s\<lparr>mem := m\<rparr>) x \<and> m x = mem s x" if "static_byte s x" for x
    unfolding static_write [OF base low] using that low by (simp add: static_byte_def)
qed



section \<open>Rings\<close>

text \<open>
  \<open>ring nx ts\<close>: following \<open>nx\<close> from any element of \<open>ts\<close> goes through all of \<open>ts\<close> in order
  and comes back.
\<close>

fun path :: "('n \<Rightarrow> 'n) \<Rightarrow> 'n list \<Rightarrow> bool" where
  "path nx (a # b # ts) \<longleftrightarrow> nx a = b \<and> path nx (b # ts)"
| "path nx _ \<longleftrightarrow> True"

definition ring :: "('n \<Rightarrow> 'n) \<Rightarrow> 'n list \<Rightarrow> bool" where
  "ring nx ts \<longleftrightarrow> ts \<noteq> [] \<and> distinct ts \<and> path nx ts \<and> nx (last ts) = hd ts"

lemma path_Cons: "path nx (a # ts) \<longleftrightarrow> (ts \<noteq> [] \<longrightarrow> nx a = hd ts) \<and> path nx ts"
  by (cases ts) auto

lemma path_append: "path nx (xs @ ys) \<longleftrightarrow> path nx xs \<and> path nx ys \<and> (xs \<noteq> [] \<longrightarrow> ys \<noteq> [] \<longrightarrow> nx (last xs) = hd ys)"
  by (induction xs) (auto simp: path_Cons hd_append)

lemma path_cong: "(\<And>t. t \<in> set (butlast ts) \<Longrightarrow> nx' t = nx t) \<Longrightarrow> path nx' ts = path nx ts"
  by (induction nx ts rule: path.induct) auto

lemma ring_cong: "(\<And>t. t \<in> set ts \<Longrightarrow> nx' t = nx t) \<Longrightarrow> ring nx' ts = ring nx ts"
  unfolding ring_def using path_cong [of ts nx' nx] by (metis in_set_butlastD last_in_set)

lemma ring_rotate: "ring nx (xs @ ys) \<longleftrightarrow> ring nx (ys @ xs)"
  unfolding ring_def path_append by (cases "xs = []"; cases "ys = []") (auto simp: hd_append last_append)

lemma ring_next: "ring nx (c # rs) \<Longrightarrow> nx c = hd (rs @ [c])"
  by (cases rs) (auto simp: ring_def)

lemma ring_nextE:
  assumes "ring nx ts" "t \<in> set ts"
  shows "nx t \<in> set ts"
proof -
  obtain xs ys where ts: "ts = xs @ t # ys" using assms(2) by (meson split_list)
  then have "ring nx (t # ys @ xs)" using assms(1) ring_rotate [of nx xs "t # ys"] by simp
  from ring_next [OF this] have "nx t \<in> set (ys @ xs @ [t])" by (metis append.assoc hd_in_set snoc_eq_iff_butlast)
  then show ?thesis unfolding ts by auto
qed

lemma ring_remove_hd:
  assumes "ring nx (t # zs)" "zs \<noteq> []"
  shows "ring (nx(last zs := nx t)) zs"
proof -
  have d: "distinct zs" "t \<notin> set zs" and p: "path nx zs" and h: "nx t = hd zs"
    using assms by (auto simp: ring_def path_Cons)
  have "path (nx(last zs := nx t)) zs = path nx zs"
  proof (rule path_cong)
    fix u assume "u \<in> set (butlast zs)"
    then have "u \<noteq> last zs" using d(1) assms(2) by (metis append_butlast_last_id distinct_append disjoint_iff list.set_intros(1))
    then show "(nx(last zs := nx t)) u = nx u" by simp
  qed
  then show ?thesis using assms(2) d p h by (simp add: ring_def)
qed

lemma ring_insert:
  assumes "ring nx ts" "t \<notin> set ts"
  shows "ring (nx(last ts := t, t := hd ts)) (ts @ [t])"
proof -
  have r: "ts \<noteq> []" "distinct ts" "path nx ts" using assms(1) by (auto simp: ring_def)
  have "path (nx(last ts := t, t := hd ts)) ts = path nx ts"
  proof (rule path_cong)
    fix u assume u: "u \<in> set (butlast ts)"
    then have "u \<noteq> last ts" using r(1,2) by (metis append_butlast_last_id distinct_append disjoint_iff list.set_intros(1))
    moreover have "u \<noteq> t" using u assms(2) in_set_butlastD by fastforce
    ultimately show "(nx(last ts := t, t := hd ts)) u = nx u" by simp
  qed
  moreover have "last ts \<noteq> t" using r(1) assms(2) last_in_set by fastforce
  ultimately show ?thesis using r assms(2) by (simp add: ring_def path_append)
qed

text \<open>The walk that \<open>task_create\<close> and \<open>task_destroy\<close> make to find a predecessor.\<close>

lemma task_before_path:
  assumes "path (task_next s) (p # ps)" "task_next s (last (p # ps)) = t" "t \<notin> set ps"
  shows "task_before t p s = Some (last (p # ps))"
  using assms
proof (induction ps arbitrary: p)
  case Nil
  then show ?case by (subst task_before.simps) simp
next
  case (Cons q ps)
  then have "task_before t q s = Some (last (q # ps))" by simp
  then show ?case using Cons.prems by (subst task_before.simps) auto
qed

lemma task_before_ring:
  assumes r: "ring (task_next s) (xs @ t # ys)"
  shows "task_before t (hd (xs @ t # ys)) s = Some (last (t # ys @ xs))"
proof (cases xs)
  case Nil
  then show ?thesis using r task_before_path [of s t ys t] by (simp add: ring_def)
next
  case (Cons x xs')
  then have "task_before t x s = Some (last (x # xs'))"
    using r by (intro task_before_path) (auto simp: ring_def path_append path_Cons)
  then show ?thesis using Cons by simp
qed



section \<open>The ring of tasks on the heap\<close>

lemma payload_unique: "heap_ok s \<Longrightarrow> (p, k) \<in> payloads s \<Longrightarrow> (p, l) \<in> payloads s \<Longrightarrow> k = l"
  unfolding heap_ok_def payloads_def using live_unique [OF heap_inv_tiles] by blast

lemma kfree_keeps:
  assumes ok: "heap_ok s" and p: "owns s p n"
  obtains m where "kfree p s = Some (s\<lparr>mem := m\<rparr>)" "heap_ok (s\<lparr>mem := m\<rparr>)"
    "payloads (s\<lparr>mem := m\<rparr>) = {(q, l) \<in> payloads s. q \<noteq> unat p}"
    "\<And>a k. a \<noteq> p \<Longrightarrow> owns s a k \<Longrightarrow> owns (s\<lparr>mem := m\<rparr>) a k"
    "\<And>a k i. a \<noteq> p \<Longrightarrow> owns s a k \<Longrightarrow> i < k \<Longrightarrow> m (a + of_nat i) = mem s (a + of_nat i)"
    "\<And>x. static_byte s x \<Longrightarrow> static_byte (s\<lparr>mem := m\<rparr>) x \<and> m x = mem s x"
proof -
  obtain k where k: "(unat p, k) \<in> payloads s" using p by (auto simp: owns_def)
  obtain s' where s': "kfree p s = Some s'" "heap_ok s'" "payloads s' = payloads s - {(unat p, k)}"
    "\<forall>q l x. (q, l) \<in> payloads s' \<longrightarrow> q \<le> unat x \<longrightarrow> unat x < q + l \<longrightarrow> mem s' x = mem s x"
    "\<forall>x. static_byte s x \<longrightarrow> static_byte s' x \<and> mem s' x = mem s x"
    using kheap.release_law [OF ok k] by blast
  obtain m where m: "s' = s\<lparr>mem := m\<rparr>" using kfree_same [OF ok k s'(1)] by blast
  have P: "payloads s' = {(q, l) \<in> payloads s. q \<noteq> unat p}"
    using s'(3) payload_unique [OF ok k] by auto
  have own: "owns s' a j" if "a \<noteq> p" "owns s a j" for a j
    using that unfolding owns_def P by (auto simp: word_unat_eq_iff)
  have "mem s' (a + of_nat i) = mem s (a + of_nat i)" if "a \<noteq> p" "owns s a j" "i < j" for a j i
  proof -
    from own [OF that(1,2)] obtain l where "j \<le> l" "(unat a, l) \<in> payloads s'" by (auto simp: owns_def)
    then show ?thesis using s'(4) owns_byte [OF ok that(2,3)] that(3) by auto
  qed
  then show thesis using that [of m] s' own P unfolding m by auto
qed

text \<open>The addresses of all payloads a list of tasks uses, control blocks and stacks.\<close>

definition task_mem :: "memory \<Rightarrow> u64 list \<Rightarrow> u64 list" where
  "task_mem m ts = concat (map (\<lambda>t. t # (if load64 m (t + 24) = 0 then [] else [load64 m (t + 24)])) ts)"

lemma task_mem_simps [simp]:
  "task_mem m [] = []"
  "task_mem m (t # ts) = t # (if load64 m (t + 24) = 0 then [] else [load64 m (t + 24)]) @ task_mem m ts"
  "task_mem m (xs @ ys) = task_mem m xs @ task_mem m ys"
  by (simp_all add: task_mem_def)

lemma task_mem_cong: "(\<And>t. t \<in> set ts \<Longrightarrow> load64 m' (t + 24) = load64 m (t + 24)) \<Longrightarrow> task_mem m' ts = task_mem m ts"
  by (induction ts) simp_all

lemma task_mem_in: "t \<in> set ts \<Longrightarrow> t \<in> set (task_mem m ts)"
  "t \<in> set ts \<Longrightarrow> load64 m (t + 24) \<noteq> 0 \<Longrightarrow> load64 m (t + 24) \<in> set (task_mem m ts)"
  by (auto simp: task_mem_def)

lemma task_mem_cases:
  assumes "a \<in> set (task_mem m ts)"
  obtains t where "t \<in> set ts" "a = t" | t where "t \<in> set ts" "a = load64 m (t + 24)" "a \<noteq> 0"
  using assms by (auto simp: task_mem_def split: if_splits)

lemma distinct_task_mem_sub: "distinct (task_mem m (xs @ t # ys)) \<Longrightarrow> distinct (task_mem m (xs @ ys))"
  by (auto split: if_splits)

definition ring_inv :: "u64 list \<Rightarrow> 'a kheap_state_scheme \<Rightarrow> bool" where
  "ring_inv ts s \<longleftrightarrow> heap_ok s \<and> ring (task_next s) ts \<and> distinct (task_mem (mem s) ts) \<and>
     (\<forall>t\<in>set ts. owns s t 40 \<and> (task_stack s t \<noteq> 0 \<longrightarrow> owns s (task_stack s t) 8192))"

lemma ring_inv_heap: "ring_inv ts s \<Longrightarrow> heap_ok s"
  and ring_inv_ring: "ring_inv ts s \<Longrightarrow> ring (task_next s) ts"
  and ring_inv_distinct: "ring_inv ts s \<Longrightarrow> distinct (task_mem (mem s) ts)"
  and ring_inv_tcb: "ring_inv ts s \<Longrightarrow> t \<in> set ts \<Longrightarrow> owns s t 40"
  and ring_inv_stack: "ring_inv ts s \<Longrightarrow> t \<in> set ts \<Longrightarrow> task_stack s t \<noteq> 0 \<Longrightarrow> owns s (task_stack s t) 8192"
  by (simp_all add: ring_inv_def)

lemma ring_inv_rotate: "ring_inv (xs @ ys) s \<longleftrightarrow> ring_inv (ys @ xs) s"
  unfolding ring_inv_def ring_rotate [of _ xs ys] by (auto simp: Un_commute)

lemma ring_inv_nonzero: "ring_inv ts s \<Longrightarrow> t \<in> set ts \<Longrightarrow> t \<noteq> 0"
  using owns_bounds [OF ring_inv_heap ring_inv_tcb] by fastforce

text \<open>The ring is kept when links, stacks and ownership are.\<close>

lemma ring_inv_frame:
  assumes inv: "ring_inv ts s" and ok: "heap_ok s'"
    and own: "\<And>a n. a \<in> set (task_mem (mem s) ts) \<Longrightarrow> owns s a n \<Longrightarrow> owns s' a n"
    and same: "\<And>t. t \<in> set ts \<Longrightarrow> task_stack s' t = task_stack s t \<and> task_next s' t = task_next s t"
  shows "ring_inv ts s'"
proof -
  have "task_mem (mem s') ts = task_mem (mem s) ts" using same by (intro task_mem_cong) simp
  moreover have "ring (task_next s') ts = ring (task_next s) ts" using same by (intro ring_cong) simp
  ultimately show ?thesis
    using inv ok same own task_mem_in unfolding ring_inv_def by (metis (no_types, lifting))
qed

text \<open>What a step leaves of the tasks \<open>ts\<close>: everything but their links.\<close>

definition task_kept :: "u64 list \<Rightarrow> 'a task_state_scheme \<Rightarrow> 'a task_state_scheme \<Rightarrow> bool" where
  "task_kept ts s s' \<longleftrightarrow> cpu s' = cpu s \<and> current_task s' = current_task s \<and>
     (\<forall>t\<in>set ts. \<exists>n. tcb_at (mem s') t = (tcb_at (mem s) t)\<lparr>tc_next := n\<rparr>) \<and>
     (\<forall>t\<in>set ts. task_stack s t \<noteq> 0 \<longrightarrow>
        (\<forall>i<8192. mem s' (task_stack s t + of_nat i) = mem s (task_stack s t + of_nat i))) \<and>
     (\<forall>x. static_byte s x \<longrightarrow> static_byte s' x \<and> mem s' x = mem s x)"

lemma task_kept_tcb:
  assumes "task_kept ts s s'" "t \<in> set ts"
  shows "task_status s' t = task_status s t" "task_rsp s' t = task_rsp s t" "task_stack s' t = task_stack s t"
    "task_id s' t = task_id s t"
proof -
  obtain n where n: "tcb_at (mem s') t = (tcb_at (mem s) t)\<lparr>tc_next := n\<rparr>"
    using assms unfolding task_kept_def by blast
  show "task_status s' t = task_status s t" "task_rsp s' t = task_rsp s t" "task_stack s' t = task_stack s t"
    "task_id s' t = task_id s t"
    using arg_cong [OF n, of tc_status] arg_cong [OF n, of tc_rsp] arg_cong [OF n, of tc_stack] arg_cong [OF n, of tc_id]
    by simp_all
qed

lemma task_kept_refl: "task_kept ts s s"
proof -
  have "tcb_at (mem s) t = (tcb_at (mem s) t)\<lparr>tc_next := tc_next (tcb_at (mem s) t)\<rparr>" for t
    by (simp del: tcb_at_sel)
  then show ?thesis unfolding task_kept_def by blast
qed

lemma task_kept_trans:
  assumes 1: "task_kept ts s s'" and 2: "task_kept us s' s''" and sub: "set us \<subseteq> set ts"
  shows "task_kept us s s''"
proof -
  have "\<exists>n. tcb_at (mem s'') t = (tcb_at (mem s) t)\<lparr>tc_next := n\<rparr>" if "t \<in> set us" for t
  proof -
    from 1 that sub obtain n where "tcb_at (mem s') t = (tcb_at (mem s) t)\<lparr>tc_next := n\<rparr>" unfolding task_kept_def by blast
    moreover from 2 that obtain k where "tcb_at (mem s'') t = (tcb_at (mem s') t)\<lparr>tc_next := k\<rparr>" unfolding task_kept_def by blast
    ultimately show ?thesis by auto
  qed
  moreover have "mem s'' (task_stack s t + of_nat i) = mem s (task_stack s t + of_nat i)"
    if "t \<in> set us" "task_stack s t \<noteq> 0" "i < 8192" for t i
  proof -
    have t: "t \<in> set ts" using that(1) sub by blast
    note e = task_kept_tcb(3) [OF 1 t]
    have "mem s'' (task_stack s t + of_nat i) = mem s' (task_stack s t + of_nat i)"
      using 2 that e unfolding task_kept_def by metis
    also have "\<dots> = mem s (task_stack s t + of_nat i)"
      using 1 that t unfolding task_kept_def by blast
    finally show ?thesis .
  qed
  ultimately show ?thesis using 1 2 unfolding task_kept_def by simp
qed


lemma distinct_task_mem:
  assumes "distinct (task_mem m ts)" "t \<in> set ts" "u \<in> set ts" "load64 m (u + 24) \<noteq> 0"
  shows "load64 m (u + 24) \<noteq> t"
    and "u \<noteq> t \<Longrightarrow> load64 m (t + 24) \<noteq> 0 \<Longrightarrow> load64 m (u + 24) \<noteq> load64 m (t + 24)"
proof -
  have "load64 m (u + 24) \<noteq> t \<and> (u \<noteq> t \<longrightarrow> load64 m (t + 24) \<noteq> 0 \<longrightarrow> load64 m (u + 24) \<noteq> load64 m (t + 24))"
    using assms
  proof (induction ts)
    case (Cons a ts)
    have d: "distinct (task_mem m ts)" using Cons.prems(1) by auto
    consider "t = a" "u = a" | "t = a" "u \<in> set ts" | "t \<in> set ts" "u = a" | "t \<in> set ts" "u \<in> set ts"
      using Cons.prems(2,3) by auto
    then show ?case
    proof cases
      case 4
      then show ?thesis using Cons.IH [OF d] Cons.prems(4) by blast
    qed (use Cons.prems task_mem_in [of u ts m] task_mem_in [of t ts m] in \<open>auto split: if_splits\<close>)
  qed simp
  then show "load64 m (u + 24) \<noteq> t"
    "u \<noteq> t \<Longrightarrow> load64 m (t + 24) \<noteq> 0 \<Longrightarrow> load64 m (u + 24) \<noteq> load64 m (t + 24)" by blast+
qed

text \<open>A write to a control block, of a task of the ring or of one that is being created.\<close>

lemma tcb_put:
  assumes inv: "ring_inv ts s" and t: "owns s t 40" "\<forall>u\<in>set ts. task_stack s u \<noteq> 0 \<longrightarrow> task_stack s u \<noteq> t"
    and w: "writes_in t 40 (mem s) m"
  shows "heap_ok (s\<lparr>mem := m\<rparr>)" "payloads (s\<lparr>mem := m\<rparr>) = payloads s" "owns (s\<lparr>mem := m\<rparr>) = owns s"
    "\<And>u. owns s u 40 \<Longrightarrow> u \<noteq> t \<Longrightarrow> tcb_at m u = tcb_at (mem s) u"
    "\<And>u i. u \<in> set ts \<Longrightarrow> task_stack s u \<noteq> 0 \<Longrightarrow> i < 8192 \<Longrightarrow>
       m (task_stack s u + of_nat i) = mem s (task_stack s u + of_nat i)"
    "\<And>x. static_byte s x \<Longrightarrow> static_byte (s\<lparr>mem := m\<rparr>) x \<and> m x = mem s x"
proof -
  note W = owns_write [OF ring_inv_heap [OF inv] t(1) w]
  show "heap_ok (s\<lparr>mem := m\<rparr>)" "payloads (s\<lparr>mem := m\<rparr>) = payloads s" "owns (s\<lparr>mem := m\<rparr>) = owns s" by (rule W)+
  show "tcb_at m u = tcb_at (mem s) u" if "owns s u 40" "u \<noteq> t" for u
    using W(4) [OF that] by (rule tcb_at_cong)
  show "m (task_stack s u + of_nat i) = mem s (task_stack s u + of_nat i)"
    if u: "u \<in> set ts" "task_stack s u \<noteq> 0" "i < 8192" for u i
    using W(4) [OF ring_inv_stack [OF inv u(1,2)] _ u(3)] t(2) u by blast
  show "static_byte (s\<lparr>mem := m\<rparr>) x \<and> m x = mem s x" if "static_byte s x" for x
    by (rule W(5) [OF that])
qed

lemma tcb_writes:
  assumes "heap_ok s" "owns s t 40"
  shows "writes_in t 40 m (store64 m t v)" "writes_in t 40 m (store64 m (t + 8) v)"
    "writes_in t 40 m (store32 m (t + 16) w)" "writes_in t 40 m (store64 m (t + 24) v)"
    "writes_in t 40 m (store64 m (t + 32) v)"
proof -
  have b: "unat t + 40 \<le> 2 ^ 63" using owns_bounds [OF assms] by simp
  note S = writes_in_store [OF b _ owns_byte [OF assms]]
  show "writes_in t 40 m (store64 m t v)" "writes_in t 40 m (store64 m (t + 8) v)"
    "writes_in t 40 m (store32 m (t + 16) w)" "writes_in t 40 m (store64 m (t + 24) v)"
    "writes_in t 40 m (store64 m (t + 32) v)"
    using S [of 0 8] S [of 8 8] S [of 16 4] S [of 24 8] S [of 32 8] by simp_all
qed

text \<open>Redirecting the link of one task.\<close>

lemma link_put:
  fixes v :: u64
  assumes inv: "ring_inv ts s" and p: "p \<in> set ts"
  defines "s' \<equiv> put64 (p + 32) v s"
  shows "heap_ok s'" "payloads s' = payloads s" "owns s' = owns s" "task_kept ts s s'"
    "\<And>u. u \<in> set ts \<Longrightarrow> task_next s' u = (if u = p then v else task_next s u)"
    "\<And>u. u \<in> set ts \<Longrightarrow> task_stack s' u = task_stack s u"
proof -
  let ?m = "store64 (mem s) (p + 32) v"
  have s': "s' = s\<lparr>mem := ?m\<rparr>" by (simp add: s'_def put64_def)
  note own = ring_inv_tcb [OF inv]
  have st: "\<forall>u\<in>set ts. task_stack s u \<noteq> 0 \<longrightarrow> task_stack s u \<noteq> p"
    using distinct_task_mem(1) [OF ring_inv_distinct [OF inv] p] by blast
  have w: "writes_in p 40 (mem s) ?m" by (rule tcb_writes(5) [OF ring_inv_heap [OF inv] own [OF p]])
  note T = tcb_put [OF inv own [OF p] st w]
  show "heap_ok s'" "payloads s' = payloads s" "owns s' = owns s" unfolding s' by (rule T)+
  have tc: "tcb_at ?m u = (if u = p then (tcb_at (mem s) u)\<lparr>tc_next := v\<rparr> else tcb_at (mem s) u)" if "u \<in> set ts" for u
    using T(4) [OF own [OF that]] tcb_store(5) by simp
  show "task_next s' u = (if u = p then v else task_next s u)" "task_stack s' u = task_stack s u" if "u \<in> set ts" for u
    using arg_cong [OF tc [OF that], of tc_next] arg_cong [OF tc [OF that], of tc_stack] by (simp_all add: s' split: if_splits)
  have "\<exists>n. tcb_at ?m u = (tcb_at (mem s) u)\<lparr>tc_next := n\<rparr>" if "u \<in> set ts" for u
  proof (cases "u = p")
    case False
    then show ?thesis using tc [OF that] by (intro exI [of _ "tc_next (tcb_at (mem s) u)"]) (simp del: tcb_at_sel)
  qed (use tc [OF that] in auto)
  then show "task_kept ts s s'" unfolding task_kept_def s' using T(5,6) by simp
qed


text \<open>\<open>task_destroy\<close> takes a task out of the ring and gives its memory back.\<close>

lemma task_unlink_ring:
  fixes s :: "'a task_state_scheme"
  assumes inv: "ring_inv (xs @ t # ys) s" and h: "task_list s = hd (xs @ t # ys)" and ne: "xs @ ys \<noteq> []"
  obtains s' where "task_unlink t s = Some s'" "ring_inv (xs @ ys) s'" "task_list s' = hd (xs @ ys)"
    "payloads s' = payloads s" "owns s' = owns s" "task_kept (xs @ t # ys) s s'" "next_id s' = next_id s"
    "interrupts_on s' = interrupts_on s" "heap_ok s'"
proof -
  let ?ts = "xs @ t # ys" and ?zs = "ys @ xs"
  let ?p = "last (t # ?zs)"
  have r: "ring (task_next s) (t # ?zs)" using ring_inv_ring [OF inv] ring_rotate [of _ xs "t # ys"] by simp
  have nz: "?zs \<noteq> []" using ne by auto
  then have p: "?p = last ?zs" "?p \<in> set ?ts" "?p \<noteq> t"
    using r last_in_set [OF nz] by (auto simp: ring_def)
  have "task_next s t = hd ?zs" using ring_next [OF r] nz by (simp add: hd_append)
  then have nt: "task_next s t \<noteq> t" using r nz hd_in_set [OF nz] by (auto simp: ring_def)
  have before: "task_before t (task_list s) s = Some ?p"
    unfolding h by (rule task_before_ring [OF ring_inv_ring [OF inv]])
  define s1 where "s1 = put64 (?p + 32) (task_next s t) s"
  note L = link_put [OF inv p(2), where v = "task_next s t", folded s1_def]
  have t1: "task_next s1 t = task_next s t" using L(5) [of t] p(3) by simp
  define s' where "s' = (if task_list s = t then s1\<lparr>task_list := task_next s1 t\<rparr> else s1)"
  have u: "task_unlink t s = Some s'"
    using nt before by (simp add: task_unlink_def s'_def s1_def put64_def)
  have view: "mem s' = mem s1" "payloads s' = payloads s1" "owns s' = owns s1" "heap_ok s' = heap_ok s1"
    "static_byte s' = static_byte s1"
    by (simp_all add: s'_def)
  have "ring ((task_next s)(last ?zs := task_next s t)) ?zs" by (rule ring_remove_hd [OF r nz])
  moreover have "task_next s' v = ((task_next s)(last ?zs := task_next s t)) v" if "v \<in> set ?zs" for v
    unfolding view using L(5) [of v] that p(1) by auto
  ultimately have "ring (task_next s') ?zs" by (subst ring_cong) auto
  then have "ring (task_next s') (xs @ ys)" using ring_rotate [of _ ys xs] by simp
  moreover have "task_mem (mem s') (xs @ ys) = task_mem (mem s) (xs @ ys)"
    unfolding view using L(6) by (intro task_mem_cong) auto
  ultimately have inv': "ring_inv (xs @ ys) s'"
    using inv L(1,3,6) distinct_task_mem_sub [of "mem s" xs t ys] unfolding ring_inv_def view by auto
  have hd': "task_list s' = hd (xs @ ys)"
  proof (cases xs)
    case Nil
    then have "task_list s = t" using h by simp
    then show ?thesis using Nil t1 \<open>task_next s t = hd ?zs\<close> by (simp add: s'_def)
  next
    case (Cons x xs')
    then have "task_list s = x" "x \<noteq> t" using h r by (auto simp: ring_def)
    then show ?thesis using Cons by (simp add: s'_def s1_def put64_def)
  qed
  have kept: "task_kept ?ts s s'"
    using L(4) unfolding task_kept_def view by (simp add: s'_def)
  show thesis
    by (rule that [OF u inv' hd' _ _ kept]) (use L(1,2,3) view in \<open>simp_all add: s'_def s1_def put64_def\<close>)
qed


text \<open>Freeing memory that no task of the ring uses.\<close>

lemma ring_inv_outs [simp]: "ring_inv ts (s\<lparr>outs := x\<rparr>) = ring_inv ts s"
  by (simp add: ring_inv_def owns_def)

lemma task_kept_outs: "task_kept ts s (s\<lparr>outs := x\<rparr>)"
  using task_kept_refl [of ts s] by (simp add: task_kept_def)

lemma kfree_ring:
  fixes s :: "'a task_state_scheme"
  assumes inv: "ring_inv ts s" and p: "owns s p n" "p \<notin> set (task_mem (mem s) ts)"
  obtains m where "kfree p s = Some (s\<lparr>mem := m\<rparr>)" "ring_inv ts (s\<lparr>mem := m\<rparr>)" "task_kept ts s (s\<lparr>mem := m\<rparr>)"
    "payloads (s\<lparr>mem := m\<rparr>) = {(q, l) \<in> payloads s. q \<noteq> unat p}" "task_mem m ts = task_mem (mem s) ts"
    "\<And>a k. a \<noteq> p \<Longrightarrow> owns s a k \<Longrightarrow> owns (s\<lparr>mem := m\<rparr>) a k"
proof -
  obtain m where m: "kfree p s = Some (s\<lparr>mem := m\<rparr>)" "heap_ok (s\<lparr>mem := m\<rparr>)"
    "payloads (s\<lparr>mem := m\<rparr>) = {(q, l) \<in> payloads s. q \<noteq> unat p}"
    "\<And>a k. a \<noteq> p \<Longrightarrow> owns s a k \<Longrightarrow> owns (s\<lparr>mem := m\<rparr>) a k"
    "\<And>a k i. a \<noteq> p \<Longrightarrow> owns s a k \<Longrightarrow> i < k \<Longrightarrow> m (a + of_nat i) = mem s (a + of_nat i)"
    "\<And>x. static_byte s x \<Longrightarrow> static_byte (s\<lparr>mem := m\<rparr>) x \<and> m x = mem s x"
    using kfree_keeps [OF ring_inv_heap [OF inv] p(1)] by blast
  let ?s = "s\<lparr>mem := m\<rparr>"
  have ne: "a \<noteq> p" if "a \<in> set (task_mem (mem s) ts)" for a using that p(2) by auto
  have tcb: "tcb_at m t = tcb_at (mem s) t" if "t \<in> set ts" for t
    using m(5) [OF ne [OF task_mem_in(1) [OF that]] ring_inv_tcb [OF inv that]] by (rule tcb_at_cong)
  have f: "task_stack ?s t = task_stack s t" "task_next ?s t = task_next s t" if "t \<in> set ts" for t
    using arg_cong [OF tcb [OF that], of tc_stack] arg_cong [OF tcb [OF that], of tc_next] by simp_all
  have inv': "ring_inv ts ?s"
    by (rule ring_inv_frame [OF inv m(2)]) (use m(4) ne f in auto)
  have "m (task_stack s t + of_nat i) = mem s (task_stack s t + of_nat i)"
    if "t \<in> set ts" "task_stack s t \<noteq> 0" "i < 8192" for t i
    using m(5) [OF ne [OF task_mem_in(2) [OF that(1,2)]] ring_inv_stack [OF inv that(1,2)] that(3)] .
  moreover have "\<exists>n. tcb_at m t = (tcb_at (mem s) t)\<lparr>tc_next := n\<rparr>" if "t \<in> set ts" for t
    using tcb [OF that] by (intro exI [of _ "tc_next (tcb_at (mem s) t)"]) (simp del: tcb_at_sel)
  ultimately have kept: "task_kept ts s ?s" unfolding task_kept_def using m(6) by simp
  have mm: "task_mem m ts = task_mem (mem s) ts" using f(1) by (intro task_mem_cong) simp
  show thesis by (rule that [OF m(1) inv' kept m(3) mm m(4)])
qed

lemma task_destroy_ring:
  fixes s :: "'a task_state_scheme"
  assumes inv: "ring_inv (xs @ t # ys) s" and h: "task_list s = hd (xs @ t # ys)" and ne: "xs @ ys \<noteq> []"
  obtains s' where "task_destroy t s = Some s'" "ring_inv (xs @ ys) s'" "task_list s' = hd (xs @ ys)"
    "task_kept (xs @ ys) s s'" "payloads s' = {(q, l) \<in> payloads s. q \<notin> unat ` set (task_mem (mem s) [t])}"
proof -
  have t: "t \<in> set (xs @ t # ys)" by simp
  have d: "distinct (task_mem (mem s) (xs @ t # ys))" by (rule ring_inv_distinct [OF inv])
  obtain s1 where s1: "task_unlink t s = Some s1" "ring_inv (xs @ ys) s1" "task_list s1 = hd (xs @ ys)"
    "payloads s1 = payloads s" "owns s1 = owns s" "task_kept (xs @ t # ys) s s1"
    using task_unlink_ring [OF inv h ne] by blast
  define s2 where "s2 = (let s = serial_write ''task: destroyed id='' s1
    in serial_write ''\<newline>'' (serial_write_dec_u64 (task_id s t) s))"
  have "s2 = s1\<lparr>outs := outs s2\<rparr>" by (simp add: s2_def Let_def print_eqs)
  then obtain o2 where s2: "s2 = s1\<lparr>outs := o2\<rparr>" by blast
  have st: "task_stack s2 t = task_stack s t" using task_kept_tcb(3) [OF s1(6) t] by (simp add: s2)
  have mm: "task_mem (mem s2) (xs @ ys) = task_mem (mem s) (xs @ ys)"
    using task_kept_tcb(3) [OF s1(6)] by (intro task_mem_cong) (auto simp: s2)
  have sub: "task_kept (xs @ ys) s s1"
    using task_kept_trans [OF task_kept_refl s1(6) subset_refl] unfolding task_kept_def by auto
  have k2: "task_kept (xs @ ys) s s2"
    using task_kept_trans [OF sub task_kept_outs subset_refl] by (simp add: s2)
  have inv2: "ring_inv (xs @ ys) s2" using s1(2) by (simp add: s2)
  have p2: "payloads s2 = payloads s" and own2: "owns s2 = owns s" using s1(4,5) by (simp_all add: s2)
  have "\<exists>s3. (if task_stack s2 t \<noteq> 0 then kfree (task_stack s2 t) s2 else Some s2) = Some s3 \<and>
      ring_inv (xs @ ys) s3 \<and> task_kept (xs @ ys) s2 s3 \<and> task_list s3 = task_list s2 \<and>
      payloads s3 = {(q, l) \<in> payloads s. task_stack s t \<noteq> 0 \<longrightarrow> q \<noteq> unat (task_stack s t)} \<and>
      task_mem (mem s3) (xs @ ys) = task_mem (mem s) (xs @ ys) \<and> owns s3 t 40"
  proof (cases "task_stack s t = 0")
    case True
    then show ?thesis using st inv2 task_kept_refl p2 mm own2 ring_inv_tcb [OF inv t] by auto
  next
    case False
    have own: "owns s2 (task_stack s2 t) 8192" using ring_inv_stack [OF inv t False] own2 st by simp
    have "task_stack s2 t \<notin> set (task_mem (mem s2) (xs @ ys))" using d False unfolding mm st by auto
    from kfree_ring [OF inv2 own this] obtain m where
      m: "kfree (task_stack s2 t) s2 = Some (s2\<lparr>mem := m\<rparr>)" "ring_inv (xs @ ys) (s2\<lparr>mem := m\<rparr>)"
        "task_kept (xs @ ys) s2 (s2\<lparr>mem := m\<rparr>)" "payloads (s2\<lparr>mem := m\<rparr>) = {(q, l) \<in> payloads s2. q \<noteq> unat (task_stack s2 t)}"
        "task_mem m (xs @ ys) = task_mem (mem s2) (xs @ ys)"
        "\<And>a k. a \<noteq> task_stack s2 t \<Longrightarrow> owns s2 a k \<Longrightarrow> owns (s2\<lparr>mem := m\<rparr>) a k" by blast
    have "t \<noteq> task_stack s2 t" using distinct_task_mem(1) [OF d t t False] st by simp
    then show ?thesis using m False st p2 mm own2 ring_inv_tcb [OF inv t] by auto
  qed
  then obtain s3 where s3: "(if task_stack s2 t \<noteq> 0 then kfree (task_stack s2 t) s2 else Some s2) = Some s3"
    "ring_inv (xs @ ys) s3" "task_kept (xs @ ys) s2 s3" "task_list s3 = task_list s2"
    "payloads s3 = {(q, l) \<in> payloads s. task_stack s t \<noteq> 0 \<longrightarrow> q \<noteq> unat (task_stack s t)}"
    "task_mem (mem s3) (xs @ ys) = task_mem (mem s) (xs @ ys)" "owns s3 t 40" by blast
  have fresh: "t \<notin> set (task_mem (mem s3) (xs @ ys))" using d unfolding s3(6) by auto
  obtain m where
    m: "kfree t s3 = Some (s3\<lparr>mem := m\<rparr>)" "ring_inv (xs @ ys) (s3\<lparr>mem := m\<rparr>)" "task_kept (xs @ ys) s3 (s3\<lparr>mem := m\<rparr>)"
      "payloads (s3\<lparr>mem := m\<rparr>) = {(q, l) \<in> payloads s3. q \<noteq> unat t}"
    by (rule kfree_ring [OF s3(2,7) fresh], rule that)
  have "t \<noteq> 0" by (rule ring_inv_nonzero [OF inv t])
  then have "task_destroy t s = Some (s3\<lparr>mem := m\<rparr>)"
    using s1(1) s3(1) [unfolded s2_def Let_def] m(1) unfolding task_destroy_def Let_def
    by (simp split del: if_split)
  moreover have "task_kept (xs @ ys) s (s3\<lparr>mem := m\<rparr>)"
    using task_kept_trans [OF task_kept_trans [OF k2 s3(3) subset_refl] m(3) subset_refl] .
  moreover have "task_list (s3\<lparr>mem := m\<rparr>) = hd (xs @ ys)" using s1(3) s3(4) by (simp add: s2)
  moreover have "payloads (s3\<lparr>mem := m\<rparr>) = {(q, l) \<in> payloads s. q \<notin> unat ` set (task_mem (mem s) [t])}"
    unfolding m(4) s3(5) by auto
  ultimately show thesis using that m(2) by blast
qed


lemma ring_inv_remove_rotate:
  "ring_inv (remove1 z (A @ B)) s \<longleftrightarrow> ring_inv (remove1 z (B @ A)) s" if "distinct (A @ B)"
  using that ring_inv_rotate [of "remove1 z A" B s] ring_inv_rotate [of A "remove1 z B" s]
  by (auto simp: remove1_append remove1_idem)

lemma task_destroy_any:
  fixes s :: "'a task_state_scheme"
  assumes inv: "ring_inv L s" and z: "z \<in> set L" and h: "task_list s \<in> set L" and ne: "remove1 z L \<noteq> []"
  obtains s' where "task_destroy z s = Some s'" "ring_inv (remove1 z L) s'" "task_list s' \<in> set (remove1 z L)"
    "task_kept (remove1 z L) s s'" "payloads s' = {(q, l) \<in> payloads s. q \<notin> unat ` set (task_mem (mem s) [z])}"
proof -
  have d: "distinct L" using ring_inv_ring [OF inv] by (simp add: ring_def)
  obtain A B where AB: "L = A @ task_list s # B" using h by (meson split_list)
  let ?L = "(task_list s # B) @ A"
  have inv': "ring_inv ?L s" using inv ring_inv_rotate [of A "task_list s # B" s] by (simp add: AB)
  have "z \<in> set ?L" using z by (auto simp: AB)
  then obtain xs ys where xy: "?L = xs @ z # ys" by (meson split_list)
  have dz: "distinct ?L" using d by (auto simp: AB)
  then have rm: "remove1 z ?L = xs @ ys" unfolding xy by (auto simp: remove1_append)
  have st: "set (xs @ ys) = set (remove1 z L)"
    using d dz rm by (metis AB set_remove1_eq set_append sup_commute)
  have ne': "xs @ ys \<noteq> []" using st ne by (metis set_empty)
  have hd: "task_list s = hd (xs @ z # ys)" unfolding xy [symmetric] by simp
  obtain s' where s': "task_destroy z s = Some s'" "ring_inv (xs @ ys) s'" "task_list s' = hd (xs @ ys)"
    "task_kept (xs @ ys) s s'" "payloads s' = {(q, l) \<in> payloads s. q \<notin> unat ` set (task_mem (mem s) [z])}"
    using task_destroy_ring [OF inv' [unfolded xy] hd ne'] by blast
  have "ring_inv (remove1 z L) s'"
    using s'(2) ring_inv_remove_rotate [of A "task_list s # B" z s'] d unfolding AB rm [symmetric] by simp
  moreover have "task_list s' \<in> set (remove1 z L)" using s'(3) hd_in_set [OF ne'] st by metis
  moreover have "task_kept (remove1 z L) s s'" using s'(4) st unfolding task_kept_def by simp
  ultimately show thesis using that s'(1,5) by blast
qed

text \<open>The loop that reaps the tasks that have exited.\<close>

definition dead :: "'a machine_scheme \<Rightarrow> u64 \<Rightarrow> bool" where
  "dead s t \<longleftrightarrow> task_status s t = TASK_DEAD"

lemma schedule_reap_ring:
  fixes s :: "'a task_state_scheme"
  assumes "ring_inv (c # ds @ zs) s" "current_task s = c" "task_list s \<in> set (c # ds @ zs)"
  shows "\<exists>s'. schedule_reap (hd (zs @ [c])) s = Some s' \<and> ring_inv (c # ds @ filter (\<lambda>t. \<not> dead s t) zs) s' \<and>
    task_list s' \<in> set (c # ds @ filter (\<lambda>t. \<not> dead s t) zs) \<and> task_kept (c # ds @ filter (\<lambda>t. \<not> dead s t) zs) s s' \<and>
    payloads s' = {(q, l) \<in> payloads s. q \<notin> unat ` set (task_mem (mem s) (filter (dead s) zs))}"
  using assms
proof (induction zs arbitrary: ds s)
  case Nil
  then show ?case by (subst schedule_reap.simps) (auto simp: task_kept_refl)
next
  case (Cons z zs)
  let ?L = "c # ds @ z # zs"
  note inv = Cons.prems(1)
  have d: "distinct ?L" using ring_inv_ring [OF inv] by (simp add: ring_def)
  have "ring (task_next s) (z # (zs @ c # ds))"
    using ring_inv_ring [OF inv] ring_rotate [of _ "c # ds" "z # zs"] by simp
  then have nx: "task_next s z = hd (zs @ [c])" using ring_next by (fastforce simp: hd_append)
  have zc: "z \<noteq> c" using d by auto
  show ?case
  proof (cases "dead s z")
    case False
    have "schedule_reap z s = schedule_reap (hd (zs @ [c])) s"
      using zc False Cons.prems(2) nx by (subst schedule_reap.simps) (simp add: dead_def)
    moreover have "ring_inv (c # (ds @ [z]) @ zs) s" using inv by simp
    ultimately show ?thesis using Cons.IH [of "ds @ [z]" s] Cons.prems False by simp
  next
    case True
    have rm: "remove1 z ?L = c # ds @ zs" using d zc by (auto simp: remove1_append)
    have zL: "z \<in> set ?L" and ne: "remove1 z ?L \<noteq> []" unfolding rm by auto
    obtain s1 where s1: "task_destroy z s = Some s1" "ring_inv (c # ds @ zs) s1" "task_list s1 \<in> set (c # ds @ zs)"
      "task_kept (c # ds @ zs) s s1" "payloads s1 = {(q, l) \<in> payloads s. q \<notin> unat ` set (task_mem (mem s) [z])}"
      by (rule task_destroy_any [OF inv zL Cons.prems(3) ne, unfolded rm], rule that)
    have st: "dead s1 t = dead s t" "task_stack s1 t = task_stack s t" if "t \<in> set zs" for t
      using task_kept_tcb [OF s1(4), of t] that by (simp_all add: dead_def)
    have fl: "filter (\<lambda>t. \<not> dead s1 t) zs = filter (\<lambda>t. \<not> dead s t) zs" "filter (dead s1) zs = filter (dead s) zs"
      using st(1) by (auto cong: filter_cong)
    have mm: "task_mem (mem s1) (filter (dead s) zs) = task_mem (mem s) (filter (dead s) zs)"
      using st(2) by (intro task_mem_cong) auto
    have cur: "current_task s1 = c" using s1(4) Cons.prems(2) by (simp add: task_kept_def)
    from Cons.IH [OF s1(2) cur s1(3)] obtain s' where
      s': "schedule_reap (hd (zs @ [c])) s1 = Some s'" "ring_inv (c # ds @ filter (\<lambda>t. \<not> dead s t) zs) s'"
        "task_list s' \<in> set (c # ds @ filter (\<lambda>t. \<not> dead s t) zs)"
        "task_kept (c # ds @ filter (\<lambda>t. \<not> dead s t) zs) s1 s'"
        "payloads s' = {(q, l) \<in> payloads s1. q \<notin> unat ` set (task_mem (mem s1) (filter (dead s) zs))}"
      unfolding fl by blast
    have "schedule_reap z s = Some s'"
      using zc True Cons.prems(2) nx s1(1) s'(1) by (subst schedule_reap.simps) (simp add: dead_def)
    moreover have "task_kept (c # ds @ filter (\<lambda>t. \<not> dead s t) zs) s s'"
      by (rule task_kept_trans [OF s1(4) s'(4)]) auto
    moreover have "payloads s' = {(q, l) \<in> payloads s. q \<notin> unat ` set (task_mem (mem s) (filter (dead s) (z # zs)))}"
      unfolding s'(5) s1(5) mm using True by auto
    ultimately show ?thesis using s'(2,3) True by simp
  qed
qed

text \<open>The search for the next task that is ready.\<close>

lemma schedule_find_path:
  assumes "path (task_next s) (p # ps)" "task_next s (last (p # ps)) = start" "start \<notin> set ps"
  shows "schedule_find start p s =
    Some (case find (\<lambda>t. task_status s t = TASK_READY) (p # ps) of Some t \<Rightarrow> t | None \<Rightarrow> start)"
  using assms
proof (induction ps arbitrary: p)
  case Nil
  then show ?case by (subst schedule_find.simps) simp
next
  case (Cons q ps)
  then have "schedule_find start q s =
    Some (case find (\<lambda>t. task_status s t = TASK_READY) (q # ps) of Some t \<Rightarrow> t | None \<Rightarrow> start)" by simp
  then show ?case using Cons.prems by (subst schedule_find.simps) auto
qed

lemma schedule_find_ring:
  assumes "ring (task_next s) (c # rs)"
  shows "schedule_find (task_next s c) (task_next s c) s =
    Some (case find (\<lambda>t. task_status s t = TASK_READY) (rs @ [c]) of Some t \<Rightarrow> t | None \<Rightarrow> task_next s c)"
proof -
  have r: "ring (task_next s) (rs @ [c])" using assms ring_rotate [of _ "[c]" rs] by simp
  have n: "task_next s c = hd (rs @ [c])" by (rule ring_next [OF assms])
  obtain p ps where p: "rs @ [c] = p # ps" by (metis neq_Nil_conv snoc_eq_iff_butlast)
  have "path (task_next s) (p # ps)" "task_next s (last (p # ps)) = p" "p \<notin> set ps"
    using r unfolding p by (auto simp: ring_def)
  from schedule_find_path [OF this] show ?thesis unfolding n p by (simp only: list.sel)
qed


end
