(* ===== verification/Scheduler.thy ===== *)
theory Scheduler
  imports Task_Ring
begin
text \<open>
  What the scheduler promises: \<open>schedule\<close> picks the next task that is ready, saves the
  registers of the caller on its stack and resumes the other one with the registers it
  saved; \<open>task_create\<close> and \<open>task_init\<close> extend the ring; tasks that yield take turns.
\<close>



section \<open>Stacks\<close>

text \<open>
  \<open>on_stack s t sp n\<close>: the \<open>n\<close> bytes at \<open>sp\<close> lie in the stack of task \<open>t\<close>, for the boot
  task, which has none on the heap, in static memory.
\<close>

definition on_stack :: "'a kheap_state_scheme \<Rightarrow> u64 \<Rightarrow> u64 \<Rightarrow> nat \<Rightarrow> bool" where
  "on_stack s t sp n \<longleftrightarrow>
     (if task_stack s t = 0 then unat sp + n \<le> 0x200000 \<and> (\<forall>i<n. static_byte s (sp + of_nat i))
      else unat (task_stack s t) \<le> unat sp \<and> unat sp + n \<le> unat (task_stack s t) + 8192)"

lemma range_byte: "unat sp \<le> unat x \<Longrightarrow> x = sp + of_nat (unat x - unat sp)" for x sp :: u64
  by (simp add: of_nat_diff)

text \<open>Writes to static memory concern neither the page tables nor the heap.\<close>

lemma static_put:
  assumes ok: "heap_ok s" and m: "\<And>x. \<not> static_byte s x \<Longrightarrow> m x = mem s x"
  shows "heap_ok (s\<lparr>mem := m\<rparr>)" "payloads (s\<lparr>mem := m\<rparr>) = payloads s" "static_byte (s\<lparr>mem := m\<rparr>) = static_byte s"
proof -
  have inv: "heap_inv (heap_blocks s) s" using ok by (simp add: heap_ok_def)
  have "\<forall>x. unat x div 4096 \<in> table_frames s \<longrightarrow> m x = mem s x" using m by (auto simp: static_byte_def)
  note W = vmm_write [OF heap_inv_vmm [OF inv] this]
  show "static_byte (s\<lparr>mem := m\<rparr>) = static_byte s" by (simp add: static_byte_def W fun_eq_iff)
  have "agree 0x200000 (unat (heap_end s)) (mem s) m" using m by (auto simp: agree_def static_byte_def)
  from tiles_agree [OF this heap_inv_tiles [OF inv]] have T: "tiles m 0x200000 (heap_blocks s) (unat (heap_end s))"
    using heap_inv_end [OF inv] by simp
  obtain fs where "heap_pages fs s" using inv by (auto simp: heap_inv_def heap_base_def)
  then have "heap_pages fs (s\<lparr>mem := m\<rparr>)" by (simp add: heap_pages_def W)
  then have inv': "heap_inv (heap_blocks s) (s\<lparr>mem := m\<rparr>)"
    using inv W T unfolding heap_inv_def heap_base_def by (simp; blast)
  show "heap_ok (s\<lparr>mem := m\<rparr>)" "payloads (s\<lparr>mem := m\<rparr>) = payloads s"
    using heap_inv_ok [OF inv'] by (simp_all add: payloads_def)
qed

lemma on_stack_tcb:
  assumes inv: "ring_inv ts s" and t: "t \<in> set ts" "u \<in> set ts" and st: "on_stack s t sp n"
  shows "unat sp + n \<le> unat u \<or> unat u + 40 \<le> unat sp"
proof (cases "task_stack s t = 0")
  case True
  then show ?thesis
    using st owns_bounds [OF ring_inv_heap [OF inv] ring_inv_tcb [OF inv t(2)]] by (simp add: on_stack_def)
next
  case False
  have "task_stack s t \<noteq> u" by (rule distinct_task_mem(1) [OF ring_inv_distinct [OF inv] t(2,1) False])
  from owns_disjoint [OF ring_inv_heap [OF inv] ring_inv_stack [OF inv t(1) False] ring_inv_tcb [OF inv t(2)] this]
  show ?thesis using st False by (auto simp: on_stack_def)
qed

lemma on_stack_disjoint:
  assumes inv: "ring_inv ts s" and t: "t \<in> set ts" "u \<in> set ts" "t \<noteq> u"
    and one: "\<not> (task_stack s t = 0 \<and> task_stack s u = 0)" and st: "on_stack s t sp n" "on_stack s u sp' n'"
  shows "unat sp + n \<le> unat sp' \<or> unat sp' + n' \<le> unat sp"
proof -
  note B = owns_bounds [OF ring_inv_heap [OF inv] ring_inv_stack [OF inv]]
  consider "task_stack s t = 0" "task_stack s u \<noteq> 0" | "task_stack s t \<noteq> 0" "task_stack s u = 0"
    | "task_stack s t \<noteq> 0" "task_stack s u \<noteq> 0" using one by blast
  then show ?thesis
  proof cases
    case 1
    then show ?thesis using st B [OF t(2)] by (auto simp: on_stack_def)
  next
    case 2
    then show ?thesis using st B [OF t(1)] by (auto simp: on_stack_def)
  next
    case 3
    have "task_stack s t \<noteq> task_stack s u"
      using distinct_task_mem(2) [OF ring_inv_distinct [OF inv] t(2,1) 3(1)] t(3) 3(2) by blast
    from owns_disjoint [OF ring_inv_heap [OF inv] ring_inv_stack [OF inv t(1) 3(1)] ring_inv_stack [OF inv t(2) 3(2)] this]
    show ?thesis using st 3 by (auto simp: on_stack_def)
  qed
qed

text \<open>A write to the stack of a task of the ring.\<close>

lemma stack_put:
  assumes inv: "ring_inv ts s" and c: "c \<in> set ts" and st: "on_stack s c sp n" and w: "writes_in sp n (mem s) m"
  shows "heap_ok (s\<lparr>mem := m\<rparr>)" "payloads (s\<lparr>mem := m\<rparr>) = payloads s" "static_byte (s\<lparr>mem := m\<rparr>) = static_byte s"
    "\<And>u. u \<in> set ts \<Longrightarrow> tcb_at m u = tcb_at (mem s) u"
proof -
  note ok = ring_inv_heap [OF inv]
  have "heap_ok (s\<lparr>mem := m\<rparr>) \<and> payloads (s\<lparr>mem := m\<rparr>) = payloads s \<and> static_byte (s\<lparr>mem := m\<rparr>) = static_byte s"
  proof (cases "task_stack s c = 0")
    case True
    have "m x = mem s x" if "\<not> static_byte s x" for x
    proof (rule ccontr)
      assume "m x \<noteq> mem s x"
      then have x: "unat sp \<le> unat x" "unat x < unat sp + n" using w unfolding writes_in_def by (meson not_le)+
      then have "unat x - unat sp < n" by linarith
      then have "static_byte s (sp + of_nat (unat x - unat sp))" using st True unfolding on_stack_def by presburger
      then show False using that range_byte [OF x(1)] by metis
    qed
    from static_put [OF ok this] show ?thesis by blast
  next
    case False
    let ?b = "task_stack s c"
    have w': "writes_in ?b 8192 (mem s) m" using w st False by (auto simp: writes_in_def on_stack_def)
    note own = ring_inv_stack [OF inv c False]
    have low: "\<forall>x. unat x < 0x200000 \<longrightarrow> m x = mem s x"
      using w' owns_bounds [OF ok own] by (auto simp: writes_in_def)
    have base: "heap_base s" using ok heap_inv_base by (auto simp: heap_ok_def)
    show ?thesis using owns_write(1,2) [OF ok own w'] static_write [OF base low] by blast
  qed
  then show "heap_ok (s\<lparr>mem := m\<rparr>)" "payloads (s\<lparr>mem := m\<rparr>) = payloads s" "static_byte (s\<lparr>mem := m\<rparr>) = static_byte s" by blast+
  show "tcb_at m u = tcb_at (mem s) u" if u: "u \<in> set ts" for u
  proof (rule tcb_at_cong)
    fix i :: nat assume "i < 40"
    then show "m (u + of_nat i) = mem s (u + of_nat i)"
      using on_stack_tcb [OF inv c u st] owns_byte [OF ok ring_inv_tcb [OF inv u]] w by (auto simp: writes_in_def)
  qed
qed

lemma stack_put_ring:
  assumes inv: "ring_inv ts s" and c: "c \<in> set ts" and st: "on_stack s c sp n" and w: "writes_in sp n (mem s) m"
  shows "ring_inv ts (s\<lparr>mem := m\<rparr>)"
proof -
  note S = stack_put [OF assms]
  have "owns (s\<lparr>mem := m\<rparr>) = owns s" using S(2) by (simp add: owns_def fun_eq_iff)
  moreover have "task_stack (s\<lparr>mem := m\<rparr>) u = task_stack s u" "task_next (s\<lparr>mem := m\<rparr>) u = task_next s u" if "u \<in> set ts" for u
    using arg_cong [OF S(4) [OF that], of tc_stack] arg_cong [OF S(4) [OF that], of tc_next] by simp_all
  ultimately show ?thesis using ring_inv_frame [OF inv S(1)] by simp
qed



section \<open>The scheduler\<close>

text \<open>
  \<open>task_inv c rs s\<close>: \<open>c\<close> runs, \<open>rs\<close> are the other tasks in the order of the ring. At most
  one task is without a stack on the heap, and a task that is ready has the frame it will
  be resumed from on its own stack.
\<close>

definition task_inv :: "u64 \<Rightarrow> u64 list \<Rightarrow> 'a task_state_scheme \<Rightarrow> bool" where
  "task_inv c rs s \<longleftrightarrow> ring_inv (c # rs) s \<and> current_task s = c \<and> task_list s \<in> set (c # rs) \<and>
     (\<forall>t\<in>set (c # rs). \<forall>u\<in>set (c # rs). task_stack s t = 0 \<longrightarrow> task_stack s u = 0 \<longrightarrow> t = u) \<and>
     (\<forall>t\<in>set rs. task_status s t = TASK_READY \<longrightarrow> on_stack s t (task_rsp s t) 56)"

lemma task_inv_ring: "task_inv c rs s \<Longrightarrow> ring_inv (c # rs) s"
  and task_inv_current: "task_inv c rs s \<Longrightarrow> current_task s = c"
  and task_inv_list: "task_inv c rs s \<Longrightarrow> task_list s \<in> set (c # rs)"
  and task_inv_boot: "task_inv c rs s \<Longrightarrow> t \<in> set (c # rs) \<Longrightarrow> u \<in> set (c # rs) \<Longrightarrow> t \<noteq> u \<Longrightarrow>
    \<not> (task_stack s t = 0 \<and> task_stack s u = 0)"
  and task_inv_ready: "task_inv c rs s \<Longrightarrow> t \<in> set rs \<Longrightarrow> task_status s t = TASK_READY \<Longrightarrow> on_stack s t (task_rsp s t) 56"
  unfolding task_inv_def by (elim conjE; blast)+

text \<open>What a step leaves of the stacks of \<open>ts\<close>.\<close>

definition stacks_kept :: "u64 list \<Rightarrow> 'a kheap_state_scheme \<Rightarrow> 'a kheap_state_scheme \<Rightarrow> bool" where
  "stacks_kept ts s s' \<longleftrightarrow>
     (\<forall>t\<in>set ts. task_stack s' t = task_stack s t \<and> (task_stack s t \<noteq> 0 \<longrightarrow>
        (\<forall>i<8192. mem s' (task_stack s t + of_nat i) = mem s (task_stack s t + of_nat i)))) \<and>
     (\<forall>x. static_byte s x \<longrightarrow> static_byte s' x \<and> mem s' x = mem s x)"

lemma stacks_kept_trans: "stacks_kept ts s s' \<Longrightarrow> stacks_kept ts s' s'' \<Longrightarrow> stacks_kept ts s s''"
  by (simp add: stacks_kept_def)

lemma task_kept_stacks: "task_kept ts s s' \<Longrightarrow> stacks_kept ts s s'"
  using task_kept_tcb(3) unfolding stacks_kept_def task_kept_def by blast

lemma on_stack_kept:
  assumes "stacks_kept ts s s'" "t \<in> set ts" "on_stack s t sp n"
  shows "on_stack s' t sp n"
  using assms by (auto simp: on_stack_def stacks_kept_def)

lemma saved_kept:
  assumes k: "stacks_kept ts s s'" "t \<in> set ts" and st: "on_stack s t sp 56"
  shows "saved (mem s') sp r = saved (mem s) sp r"
proof (rule saved_cong)
  fix i :: nat assume i: "i < 56"
  show "mem s' (sp + of_nat i) = mem s (sp + of_nat i)"
  proof (cases "task_stack s t = 0")
    case True
    then show ?thesis using st k(1) i by (simp add: on_stack_def stacks_kept_def)
  next
    case False
    let ?b = "task_stack s t"
    have le: "unat ?b \<le> unat sp" "unat sp + 56 \<le> unat ?b + 8192" using st False by (simp_all add: on_stack_def)
    have "sp + of_nat i = ?b + of_nat (unat sp - unat ?b + i)"
      using arg_cong [OF range_byte [OF le(1)], of "\<lambda>x. x + of_nat i"] by (simp only: of_nat_add add.assoc)
    moreover have "unat sp - unat ?b + i < 8192" using le i by linarith
    ultimately show ?thesis using k False unfolding stacks_kept_def by metis
  qed
qed

text \<open>Reaping.\<close>

lemma schedule_reap_inv:
  fixes s :: "'a task_state_scheme"
  assumes inv: "task_inv c rs s"
  defines "rs' \<equiv> filter (\<lambda>t. \<not> dead s t) rs"
  obtains s' where "schedule_reap (task_next s c) s = Some s'" "task_inv c rs' s'" "task_kept (c # rs') s s'"
    "payloads s' = {(q, l) \<in> payloads s. q \<notin> unat ` set (task_mem (mem s) (filter (dead s) rs))}"
proof -
  have nx: "task_next s c = hd (rs @ [c])" by (rule ring_next [OF ring_inv_ring [OF task_inv_ring [OF inv]]])
  obtain s' where s': "schedule_reap (hd (rs @ [c])) s = Some s'" "ring_inv (c # rs') s'" "task_list s' \<in> set (c # rs')"
    "task_kept (c # rs') s s'" "payloads s' = {(q, l) \<in> payloads s. q \<notin> unat ` set (task_mem (mem s) (filter (dead s) rs))}"
    using schedule_reap_ring [of c "[]" rs s] task_inv_ring [OF inv] task_inv_current [OF inv] task_inv_list [OF inv]
    unfolding rs'_def by auto
  have sub: "set (c # rs') \<subseteq> set (c # rs)" by (auto simp: rs'_def)
  note K = task_kept_tcb [OF s'(4)]
  have "task_inv c rs' s'"
    unfolding task_inv_def
  proof (intro conjI ballI impI)
    show "current_task s' = c" using s'(4) task_inv_current [OF inv] by (simp add: task_kept_def)
    show "t = u" if "t \<in> set (c # rs')" "u \<in> set (c # rs')" "task_stack s' t = 0" "task_stack s' u = 0" for t u
      using task_inv_boot [OF inv, of t u] that sub K(3) by auto
    show "on_stack s' t (task_rsp s' t) 56" if t: "t \<in> set rs'" "task_status s' t = TASK_READY" for t
    proof -
      have tc: "t \<in> set (c # rs')" using t(1) by simp
      have "on_stack s t (task_rsp s t) 56"
        using task_inv_ready [OF inv, of t] t K(1) [OF tc] by (auto simp: rs'_def)
      from on_stack_kept [OF task_kept_stacks [OF s'(4)] tc this] show ?thesis unfolding K(2) [OF tc] .
    qed
  qed (use s' in blast)+
  from that [OF s'(1) [folded nx] this s'(4,5)] show thesis .
qed

text \<open>A write to the control block of a task that leaves its stack and its link.\<close>

lemma field_put:
  assumes inv: "ring_inv ts s" and p: "p \<in> set ts" and w: "writes_in p 40 (mem s) m"
    and same: "load64 m (p + 24) = task_stack s p" "load64 m (p + 32) = task_next s p"
  shows "ring_inv ts (s\<lparr>mem := m\<rparr>)" "stacks_kept ts s (s\<lparr>mem := m\<rparr>)" "payloads (s\<lparr>mem := m\<rparr>) = payloads s"
    "\<And>u. u \<in> set ts \<Longrightarrow> u \<noteq> p \<Longrightarrow> tcb_at m u = tcb_at (mem s) u"
proof -
  note own = ring_inv_tcb [OF inv]
  have st: "\<forall>u\<in>set ts. task_stack s u \<noteq> 0 \<longrightarrow> task_stack s u \<noteq> p"
    using distinct_task_mem(1) [OF ring_inv_distinct [OF inv] p] by blast
  note T = tcb_put [OF inv own [OF p] st w]
  show tcb: "tcb_at m u = tcb_at (mem s) u" if "u \<in> set ts" "u \<noteq> p" for u
    by (rule T(4) [OF own [OF that(1)] that(2)])
  show "payloads (s\<lparr>mem := m\<rparr>) = payloads s" by (rule T(2))
  have f: "task_stack (s\<lparr>mem := m\<rparr>) u = task_stack s u" "task_next (s\<lparr>mem := m\<rparr>) u = task_next s u" if "u \<in> set ts" for u
    using arg_cong [OF tcb [OF that], of tc_stack] arg_cong [OF tcb [OF that], of tc_next] same by (cases "u = p"; simp)+
  show "ring_inv ts (s\<lparr>mem := m\<rparr>)" by (rule ring_inv_frame [OF inv T(1)]) (use T(3) f in simp_all)
  show "stacks_kept ts s (s\<lparr>mem := m\<rparr>)" using f T(5,6) unfolding stacks_kept_def by simp
qed

lemma status_put:
  fixes v :: u32
  assumes inv: "ring_inv ts s" and p: "p \<in> set ts"
  defines "s' \<equiv> put32 (p + 16) v s"
  shows "ring_inv ts s'" "stacks_kept ts s s'" "payloads s' = payloads s"
    "\<And>u. u \<in> set ts \<Longrightarrow> tcb_at (mem s') u = (if u = p then (tcb_at (mem s) u)\<lparr>tc_status := v\<rparr> else tcb_at (mem s) u)"
proof -
  let ?m = "store32 (mem s) (p + 16) v"
  have s': "s' = s\<lparr>mem := ?m\<rparr>" by (simp add: s'_def put32_def)
  have w: "writes_in p 40 (mem s) ?m" by (rule tcb_writes(3) [OF ring_inv_heap [OF inv] ring_inv_tcb [OF inv p]])
  have f: "load64 ?m (p + 24) = task_stack s p" "load64 ?m (p + 32) = task_next s p"
    by (simp_all add: load_store_apart apart_def)
  note F = field_put [OF inv p w f]
  show "ring_inv ts s'" "stacks_kept ts s s'" "payloads s' = payloads s" unfolding s' by (rule F)+
  show "tcb_at (mem s') u = (if u = p then (tcb_at (mem s) u)\<lparr>tc_status := v\<rparr> else tcb_at (mem s) u)" if "u \<in> set ts" for u
    using F(4) [OF that] tcb_store(3) by (simp add: s')
qed

lemma tcb_fields:
  assumes "tcb_at (mem s') u = tcb_at (mem s) u"
  shows "task_id s' u = task_id s u" "task_rsp s' u = task_rsp s u" "task_status s' u = task_status s u"
    "task_stack s' u = task_stack s u" "task_next s' u = task_next s u"
  using arg_cong [OF assms, of tc_id] arg_cong [OF assms, of tc_rsp] arg_cong [OF assms, of tc_status]
    arg_cong [OF assms, of tc_stack] arg_cong [OF assms, of tc_next] by simp_all

text \<open>The switch from \<open>c\<close> to \<open>t\<close>.\<close>

lemma apart_nat:
  fixes a b :: u64
  assumes "unat a + n \<le> unat b \<or> unat b + k \<le> unat a" "unat a + n \<le> 2 ^ 63" "unat b + k \<le> 2 ^ 63" "0 < n" "0 < k"
  shows "apart a n b k"
proof -
  have "n \<le> unat (b - a) \<and> k \<le> unat (a - b)" if "unat a + n \<le> unat b" "unat b + k \<le> 2 ^ 63" "0 < n" for a b :: u64 and n k
  proof -
    have lt: "unat a < unat b" using that by linarith
    then have "unat (b - a) = unat b - unat a" by (simp add: unat_sub word_le_nat_alt)
    moreover have "unat (a - b) = 2 ^ 64 + unat a - unat b" using lt by (simp add: unat_sub_if' word_le_nat_alt)
    ultimately show ?thesis using that by (intro conjI; simp)
  qed
  then show ?thesis using assms unfolding apart_def by blast
qed



lemma on_stack_bound:
  assumes "ring_inv ts s" "t \<in> set ts" "on_stack s t sp n"
  shows "unat sp + n \<le> 0x1200000"
  using assms(3) owns_bounds [OF ring_inv_heap [OF assms(1)] ring_inv_stack [OF assms(1,2)]]
  by (cases "task_stack s t = 0") (auto simp: on_stack_def)

lemma saved_regs: "\<exists>r. saved m sp r"
  by (intro exI [of _ "\<lparr>rbx = load64 m (sp + 40), rbp = load64 m (sp + 32), r12 = load64 m (sp + 24),
    r13 = load64 m (sp + 16), r14 = load64 m (sp + 8), r15 = load64 m sp, rsp = sp + 56, rip = load64 m (sp + 48)\<rparr>"])
    (simp add: saved_def)

lemma ring_inv_cpu [simp]: "ring_inv ts (s\<lparr>cpu := r\<rparr>) = ring_inv ts s" "ring_inv ts (s\<lparr>current_task := c\<rparr>) = ring_inv ts s"
  by (simp_all add: ring_inv_def)

lemma frame_writes:
  assumes "56 \<le> unat (rsp r)" "unat (rsp r) < 2 ^ 63"
  shows "writes_in (rsp r - 56) 56 m (push_frame r m)"
proof -
  have u: "unat (rsp r - 56) = unat (rsp r) - 56" using assms(1) by (simp add: unat_sub word_le_nat_alt)
  have "56 \<le> unat (x - (rsp r - 56))" if "unat x < unat (rsp r - 56) \<or> unat (rsp r - 56) + 56 \<le> unat x" for x
    using that assms u unat_lt2p [of x] by (subst unat_sub_if') auto
  then show ?thesis unfolding writes_in_def by (intro allI impI push_frame_outside) blast
qed

text \<open>The switch from \<open>c\<close> to \<open>t\<close>.\<close>

lemma switch_ring:
  fixes s :: "'a task_state_scheme"
  assumes inv: "ring_inv ts s" and c: "c \<in> set ts" and t: "t \<in> set ts" "t \<noteq> c"
    and one: "\<forall>u\<in>set ts. u \<noteq> c \<longrightarrow> \<not> (task_stack s c = 0 \<and> task_stack s u = 0)"
    and st: "on_stack s c (rsp (cpu s) - 56) 56" "56 \<le> unat (rsp (cpu s))" and stt: "on_stack s t (task_rsp s t) 56"
  defines "s' \<equiv> switch_to (c + 8) (task_rsp s t) s"
  shows "ring_inv ts s'" "payloads s' = payloads s" "saved (mem s) (task_rsp s t) (cpu s')"
    "saved (mem s') (rsp (cpu s) - 56) (cpu s)"
    "\<And>u. u \<in> set ts \<Longrightarrow> tcb_at (mem s') u = (if u = c then (tcb_at (mem s) u)\<lparr>tc_rsp := rsp (cpu s) - 56\<rparr> else tcb_at (mem s) u)"
    "\<And>u sp n. u \<in> set ts \<Longrightarrow> on_stack s u sp n \<Longrightarrow> on_stack s' u sp n"
    "\<And>u sp r. u \<in> set ts \<Longrightarrow> u \<noteq> c \<Longrightarrow> on_stack s u sp 56 \<Longrightarrow> saved (mem s') sp r = saved (mem s) sp r"
    "s' = s\<lparr>mem := mem s', cpu := cpu s'\<rparr>"
proof -
  let ?sp = "rsp (cpu s) - 56" and ?nsp = "task_rsp s t"
  note ok = ring_inv_heap [OF inv]
  have b: "unat ?sp + 56 \<le> 2 ^ 63" using on_stack_bound [OF inv c st(1)] by simp
  have c8: "unat (c + 8) = unat c + 8" "unat c + 40 \<le> 0x1200000"
    using owns_byte [OF ok ring_inv_tcb [OF inv c], of 8] owns_bounds [OF ok ring_inv_tcb [OF inv c]] by simp_all
  have ap: "apart ?sp 56 sp 56" "apart (c + 8) 8 sp 56" if "u \<in> set ts" "u \<noteq> c" "on_stack s u sp 56" for u sp
    using on_stack_disjoint [OF inv c that(1) that(2) [symmetric] one [rule_format, OF that(1,2)] st(1) that(3)]
      on_stack_tcb [OF inv that(1) c that(3)] b on_stack_bound [OF inv that(1,3)] c8
    by (intro apart_nat; simp; linarith)+
  have apc: "apart (c + 8) 8 ?sp 56"
    using on_stack_tcb [OF inv c c st(1)] b c8 by (intro apart_nat; simp; linarith)
  obtain r where r: "saved (mem s) ?nsp r" using saved_regs by blast
  note W = switch_to_spec [OF apc ap [OF t stt] r, folded s'_def]
  show "saved (mem s) ?nsp (cpu s')" using r W(1) by simp
  show "saved (mem s') ?sp (cpu s)" by (rule W(2))
  show "s' = s\<lparr>mem := mem s', cpu := cpu s'\<rparr>" using W(5) W(1) by simp
  show "saved (mem s') sp r = saved (mem s) sp r" if "u \<in> set ts" "u \<noteq> c" "on_stack s u sp 56" for u sp r
  proof (rule saved_cong)
    fix i :: nat assume "i < 56"
    then show "mem s' (sp + of_nat i) = mem s (sp + of_nat i)" by (intro W(4) apart_byte [OF ap(1) [OF that]] apart_byte [OF ap(2) [OF that]])
  qed
  let ?m1 = "push_frame (cpu s) (mem s)"
  let ?m2 = "store64 ?m1 (c + 8) ?sp"
  have s': "s' = s\<lparr>mem := ?m2, cpu := cpu s'\<rparr>" by (simp add: s'_def switch_to_eq Let_def)
  have "unat (rsp (cpu s)) < 2 ^ 63" using on_stack_bound [OF inv c st(1)] st(2) by (simp add: unat_sub word_le_nat_alt)
  note w1 = frame_writes [OF st(2) this, of "mem s"]
  note P = stack_put [OF inv c st(1) w1] and inv1 = stack_put_ring [OF inv c st(1) w1]
  let ?s1 = "s\<lparr>mem := ?m1\<rparr>"
  have w2: "writes_in c 40 (mem ?s1) ?m2"
    using tcb_writes(2) [OF ring_inv_heap [OF inv1] ring_inv_tcb [OF inv1 c]] by simp
  have f: "load64 ?m2 (c + 24) = task_stack ?s1 c" "load64 ?m2 (c + 32) = task_next ?s1 c"
    by (simp_all add: load_store_apart apart_def)
  note F = field_put [OF inv1 c w2 f]
  have "ring_inv ts (?s1\<lparr>mem := ?m2\<rparr>\<lparr>cpu := cpu s'\<rparr>)" unfolding ring_inv_cpu by (rule F(1))
  then show "ring_inv ts s'" by (subst s') simp
  have "payloads (?s1\<lparr>mem := ?m2\<rparr>\<lparr>cpu := cpu s'\<rparr>) = payloads s" unfolding heap_task_upd using F(3) P(2) by simp
  then show "payloads s' = payloads s" by (subst s') simp
  show tcb: "tcb_at (mem s') u = (if u = c then (tcb_at (mem s) u)\<lparr>tc_rsp := ?sp\<rparr> else tcb_at (mem s) u)" if "u \<in> set ts" for u
    using F(4) [OF that] P(4) [OF that] tcb_store(2) by (subst s') auto
  have "task_stack s' u = task_stack s u" if "u \<in> set ts" for u
    using arg_cong [OF tcb [OF that], of tc_stack] by (auto split: if_splits)
  moreover have "static_byte s' x" if "static_byte s x" for x
  proof -
    have "static_byte (?s1\<lparr>mem := ?m2\<rparr>\<lparr>cpu := cpu s'\<rparr>) x"
      unfolding heap_task_upd using F(2) that P(3) unfolding stacks_kept_def by simp
    then show ?thesis by (subst s') simp
  qed
  ultimately show "on_stack s' u sp n" if "u \<in> set ts" "on_stack s u sp n" for u sp n
    using that unfolding on_stack_def by auto
qed

text \<open>The running task \<open>c\<close> has room on its stack for the frame of a switch.\<close>

definition runs_on :: "u64 \<Rightarrow> 'a task_state_scheme \<Rightarrow> bool" where
  "runs_on c s \<longleftrightarrow> 56 \<le> unat (rsp (cpu s)) \<and> on_stack s c (rsp (cpu s) - 56) 56"

definition runnable :: "'a machine_scheme \<Rightarrow> u64 \<Rightarrow> bool" where
  "runnable s t \<longleftrightarrow> task_status s t = TASK_READY"

text \<open>What \<open>schedule\<close> does when it has found the task \<open>t\<close> to run.\<close>

definition dispatch :: "u64 \<Rightarrow> u64 \<Rightarrow> 'a task_state_scheme \<Rightarrow> 'a task_state_scheme" where
  "dispatch c t s =
     (let s = (if task_status s c = TASK_RUNNING then put32 (c + 16) TASK_READY s else s);
          s = put32 (t + 16) TASK_RUNNING (s\<lparr>current_task := t\<rparr>)
      in switch_to (c + 8) (task_rsp s t) s)"

lemma dispatch_tasks:
  fixes s :: "'a task_state_scheme"
  assumes inv: "task_inv c (xs @ t # ys) s" and run: "runs_on c s" and t: "runnable s t"
  defines "s' \<equiv> dispatch c t s" and "ts \<equiv> c # xs @ t # ys"
  shows "ring_inv ts s'" "payloads s' = payloads s" "saved (mem s) (task_rsp s t) (cpu s')"
    "saved (mem s') (task_rsp s' c) (cpu s)" "task_status s' t = TASK_RUNNING" "task_rsp s' c = rsp (cpu s) - 56"
    "task_status s' c = (if task_status s c = TASK_RUNNING then TASK_READY else task_status s c)"
    "\<And>u. u \<in> set (xs @ ys) \<Longrightarrow> task_status s' u = task_status s u \<and> task_rsp s' u = task_rsp s u"
    "\<And>u. u \<in> set ts \<Longrightarrow> task_stack s' u = task_stack s u"
    "\<And>u sp n. u \<in> set ts \<Longrightarrow> on_stack s u sp n \<Longrightarrow> on_stack s' u sp n"
    "\<And>u sp r. u \<in> set ts \<Longrightarrow> u \<noteq> c \<Longrightarrow> on_stack s u sp 56 \<Longrightarrow> saved (mem s') sp r = saved (mem s) sp r"
    "current_task s' = t" "task_list s' = task_list s"
proof -
  have r0: "ring_inv ts s" unfolding ts_def by (rule task_inv_ring [OF inv])
  have mem: "c \<in> set ts" "t \<in> set ts" by (simp_all add: ts_def)
  have d: "distinct ts" using ring_inv_ring [OF r0] by (simp add: ring_def)
  then have tc: "t \<noteq> c" by (auto simp: ts_def)
  define s1 where "s1 = (if task_status s c = TASK_RUNNING then put32 (c + 16) TASK_READY s else s)"
  let ?v = "if task_status s c = TASK_RUNNING then TASK_READY else task_status s c"
  have 1: "ring_inv ts s1 \<and> stacks_kept ts s s1 \<and> payloads s1 = payloads s \<and> cpu s1 = cpu s \<and> task_list s1 = task_list s \<and>
      (\<forall>u\<in>set ts. tcb_at (mem s1) u = (if u = c then (tcb_at (mem s) u)\<lparr>tc_status := ?v\<rparr> else tcb_at (mem s) u))"
  proof (cases "task_status s c = TASK_RUNNING")
    case True
    then show ?thesis using status_put [OF r0 mem(1), where v = TASK_READY] by (auto simp: s1_def put32_def)
  next
    case False
    then show ?thesis using r0 by (auto simp: s1_def stacks_kept_def intro!: tcb.equality)
  qed
  define s2 where "s2 = s1\<lparr>current_task := t\<rparr>"
  define s3 where "s3 = put32 (t + 16) TASK_RUNNING s2"
  have r2: "ring_inv ts s2" using 1 by (simp add: s2_def)
  note S = status_put [OF r2 mem(2), where v = TASK_RUNNING, folded s3_def]
  have "stacks_kept ts s s2" using 1 by (simp add: s2_def stacks_kept_def)
  from stacks_kept_trans [OF this S(2)] have k3: "stacks_kept ts s s3" .
  have tcb3: "tcb_at (mem s3) u = (if u = t then (tcb_at (mem s) u)\<lparr>tc_status := TASK_RUNNING\<rparr>
      else if u = c then (tcb_at (mem s) u)\<lparr>tc_status := ?v\<rparr> else tcb_at (mem s) u)" if "u \<in> set ts" for u
    using S(4) [OF that] 1 that mem(2) tc by (auto simp: s2_def)
  have f3: "cpu s3 = cpu s" "task_list s3 = task_list s" "current_task s3 = t"
    using 1 by (simp_all add: s3_def s2_def put32_def)
  have rsp3: "task_rsp s3 u = task_rsp s u" "task_stack s3 u = task_stack s u" if "u \<in> set ts" for u
    using arg_cong [OF tcb3 [OF that], of tc_rsp] arg_cong [OF tcb3 [OF that], of tc_stack] by (auto split: if_splits)
  have one: "\<forall>u\<in>set ts. u \<noteq> c \<longrightarrow> \<not> (task_stack s3 c = 0 \<and> task_stack s3 u = 0)"
    using task_inv_boot [OF inv, of c, folded ts_def] rsp3(2) mem(1) by fastforce
  have stt: "on_stack s t (task_rsp s t) 56" using task_inv_ready [OF inv, of t] t by (simp add: runnable_def)
  have st3: "on_stack s3 c (rsp (cpu s3) - 56) 56" "56 \<le> unat (rsp (cpu s3))" "on_stack s3 t (task_rsp s3 t) 56"
    using run on_stack_kept [OF k3 mem(1)] on_stack_kept [OF k3 mem(2) stt] rsp3(1) [OF mem(2)] by (simp_all add: runs_on_def f3)
  have "s' = switch_to (c + 8) (task_rsp s3 t) s3" by (simp add: s'_def dispatch_def Let_def s3_def s2_def s1_def)
  note W = switch_ring [OF S(1) mem tc one st3, folded this]
  show "ring_inv ts s'" by (rule W(1))
  show "payloads s' = payloads s" using W(2) S(3) 1 by (simp add: s2_def)
  show "saved (mem s) (task_rsp s t) (cpu s')"
    using W(3) saved_kept [OF k3 mem(2) stt] rsp3(1) [OF mem(2)] by simp
  have tcb4: "tcb_at (mem s') u = (if u = c then (tcb_at (mem s3) u)\<lparr>tc_rsp := rsp (cpu s) - 56\<rparr> else tcb_at (mem s3) u)"
    if "u \<in> set ts" for u using W(5) [OF that] by (simp add: f3)
  show cr: "task_rsp s' c = rsp (cpu s) - 56" using arg_cong [OF tcb4 [OF mem(1)], of tc_rsp] by simp
  show "saved (mem s') (task_rsp s' c) (cpu s)" using W(4) f3 cr by simp
  show "task_status s' t = TASK_RUNNING" "task_status s' c = ?v"
    using arg_cong [OF tcb4 [OF mem(2)], of tc_status] arg_cong [OF tcb4 [OF mem(1)], of tc_status]
      arg_cong [OF tcb3 [OF mem(2)], of tc_status] arg_cong [OF tcb3 [OF mem(1)], of tc_status] tc by simp_all
  show "task_status s' u = task_status s u \<and> task_rsp s' u = task_rsp s u" if "u \<in> set (xs @ ys)" for u
  proof -
    have u: "u \<in> set ts" "u \<noteq> c" "u \<noteq> t" using that d by (auto simp: ts_def)
    have "tcb_at (mem s') u = tcb_at (mem s) u" using tcb4 [OF u(1)] tcb3 [OF u(1)] u(2,3) by simp
    then show ?thesis using tcb_fields by blast
  qed
  show "task_stack s' u = task_stack s u" if "u \<in> set ts" for u
    using arg_cong [OF tcb4 [OF that], of tc_stack] rsp3(2) [OF that] by (auto split: if_splits)
  show "on_stack s' u sp n" if "u \<in> set ts" "on_stack s u sp n" for u sp n
    using W(6) on_stack_kept [OF k3] that by blast
  show "saved (mem s') sp r = saved (mem s) sp r" if "u \<in> set ts" "u \<noteq> c" "on_stack s u sp 56" for u sp r
    using W(7) [OF that(1,2)] saved_kept [OF k3 that(1,3)] on_stack_kept [OF k3 that(1,3)] by blast
  show "current_task s' = t" "task_list s' = task_list s"
    using arg_cong [OF W(8), of current_task] arg_cong [OF W(8), of task_list] f3 by simp_all
qed



lemma runs_on_kept:
  assumes "task_kept ts s s'" "c \<in> set ts" "runs_on c s"
  shows "runs_on c s'"
  using assms on_stack_kept [OF task_kept_stacks [OF assms(1)] assms(2)] by (simp add: runs_on_def task_kept_def)

lemma find_append: "find P (xs @ ys) = (case find P xs of None \<Rightarrow> find P ys | Some x \<Rightarrow> Some x)"
  by (induction xs) auto

lemma find_skip: "\<forall>x\<in>set xs. \<not> P x \<Longrightarrow> find P (xs @ ys) = find P ys"
  by (induction xs) auto

lemma schedule_eq:
  assumes inv: "task_inv c rs s" and s1: "schedule_reap (task_next s c) s = Some s1" "task_inv c rs' s1"
  shows "schedule s = Some (case find (runnable s1) rs' of Some t \<Rightarrow> dispatch c t s1 | None \<Rightarrow> s1)"
proof -
  have r: "ring (task_next s) (c # rs)" "ring (task_next s1) (c # rs')"
    using ring_inv_ring task_inv_ring inv s1(2) by blast+
  have cur: "current_task s = c" "current_task s1 = c" using task_inv_current inv s1(2) by blast+
  have nz: "c \<noteq> 0" "task_next s c \<noteq> 0"
    using ring_inv_nonzero [OF task_inv_ring [OF inv]] ring_next [OF r(1)] by (cases rs; auto)+
  have d: "c \<notin> set rs'" using r(2) by (simp add: ring_def)
  have nx: "task_next s1 c = hd (rs' @ [c])" by (rule ring_next [OF r(2)])
  have e: "schedule s =
     (do {
        next \<leftarrow> schedule_find (task_next s1 c) (task_next s1 c) s1;
        if next = c \<or> task_status s1 next \<noteq> TASK_READY then Some s1 else Some (dispatch c next s1)
      })"
    using nz cur s1(1) by (simp add: schedule_def dispatch_def Let_def cong: if_cong)
  note F = schedule_find_ring [OF r(2)]
  have fd: "find (runnable s1) rs' = find (\<lambda>t. task_status s1 t = TASK_READY) rs'" by (simp add: runnable_def [abs_def])
  show ?thesis
  proof (cases "find (runnable s1) rs'")
    case None
    then have no: "\<forall>t\<in>set rs'. task_status s1 t \<noteq> TASK_READY" by (auto simp: find_None_iff runnable_def)
    then have n: "find (\<lambda>t. task_status s1 t = TASK_READY) (rs' @ [c]) \<in> {None, Some c}"
      by (simp add: find_skip)
    then have "schedule_find (task_next s1 c) (task_next s1 c) s1 \<in> {Some (task_next s1 c), Some c}" using F by auto
    moreover have "task_next s1 c = c \<or> task_status s1 (task_next s1 c) \<noteq> TASK_READY"
      using no unfolding nx by (cases rs') auto
    ultimately show ?thesis using None unfolding e by auto
  next
    case (Some t)
    then have t: "task_status s1 t = TASK_READY" "t \<in> set rs'"
      by (auto simp: find_Some_iff runnable_def)
    have "find (\<lambda>t. task_status s1 t = TASK_READY) (rs' @ [c]) = Some t" using Some fd by (simp add: find_append)
    then have "schedule_find (task_next s1 c) (task_next s1 c) s1 = Some t" using F by simp
    moreover have "t \<noteq> c" using t(2) d by blast
    ultimately show ?thesis using Some t(1) unfolding e by simp
  qed
qed

lemma find_kept:
  assumes "task_kept (c # rs) s s'"
  shows "find (runnable s') rs = find (runnable s) rs"
  by (rule find_cong) (use task_kept_tcb(1) [OF assms] in \<open>auto simp: runnable_def\<close>)


text \<open>The order of the ring after the switch, seen from the new running task.\<close>

lemma task_inv_dispatch:
  assumes inv: "task_inv c (xs @ t # ys) s" and run: "runs_on c s" and t: "runnable s t"
  shows "task_inv t (ys @ c # xs) (dispatch c t s)"
proof -
  note D = dispatch_tasks [OF assms]
  have sets: "set (t # ys @ c # xs) = set (c # xs @ t # ys)" by auto
  have "ring_inv ((c # xs) @ t # ys) (dispatch c t s)" using D(1) by simp
  then have r: "ring_inv (t # ys @ c # xs) (dispatch c t s)" unfolding ring_inv_rotate [of "c # xs"] by simp
  show ?thesis
    unfolding task_inv_def
  proof (intro conjI ballI impI)
    show "task_list (dispatch c t s) \<in> set (t # ys @ c # xs)" using task_inv_list [OF inv] D(13) unfolding sets by simp
    show "u = v" if "u \<in> set (t # ys @ c # xs)" "v \<in> set (t # ys @ c # xs)"
      "task_stack (dispatch c t s) u = 0" "task_stack (dispatch c t s) v = 0" for u v
      using task_inv_boot [OF inv, of u v] that D(9) unfolding sets by auto
    show "on_stack (dispatch c t s) u (task_rsp (dispatch c t s) u) 56"
      if u: "u \<in> set (ys @ c # xs)" "task_status (dispatch c t s) u = TASK_READY" for u
    proof (cases "u = c")
      case True
      then show ?thesis using D(10) [of c] D(6) run by (simp add: runs_on_def)
    next
      case False
      then have "u \<in> set (xs @ ys)" using u(1) by auto
      then show ?thesis using D(8) [of u] D(10) [of u] task_inv_ready [OF inv, of u] u(2) by auto
    qed
  qed (use r D(12) in blast)+
qed

lemma schedule_next:
  assumes inv: "task_inv c rs s" and run: "runs_on c s"
    and next_task: "filter (\<lambda>t. \<not> dead s t) rs = xs @ t # ys" "runnable s t" "\<forall>u\<in>set xs. \<not> runnable s u"
  shows "\<exists>s'. schedule s = Some s' \<and> task_inv t (ys @ c # xs) s' \<and> runs_on t s' \<and>
    saved (mem s) (task_rsp s t) (cpu s') \<and> saved (mem s') (task_rsp s' c) (cpu s) \<and>
    task_status s' t = TASK_RUNNING \<and>
    task_status s' c = (if task_status s c = TASK_RUNNING then TASK_READY else task_status s c) \<and>
    payloads s' = {(q, l) \<in> payloads s. q \<notin> unat ` set (task_mem (mem s) (filter (dead s) rs))} \<and>
    (\<forall>u\<in>set (xs @ ys). task_status s' u = task_status s u \<and> (runnable s u \<longrightarrow>
       (\<forall>r. saved (mem s') (task_rsp s' u) r = saved (mem s) (task_rsp s u) r)))"
proof -
  let ?rs = "xs @ t # ys"
  obtain s1 where s1: "schedule_reap (task_next s c) s = Some s1" "task_inv c ?rs s1" "task_kept (c # ?rs) s s1"
    "payloads s1 = {(q, l) \<in> payloads s. q \<notin> unat ` set (task_mem (mem s) (filter (dead s) rs))}"
    using schedule_reap_inv [OF inv, unfolded next_task(1)] .
  note K = task_kept_tcb [OF s1(3)]
  have "find (runnable s) ?rs = Some t" using next_task(2,3) by (simp add: find_skip)
  then have find: "find (runnable s1) ?rs = Some t" using find_kept [OF s1(3)] by simp
  have t1: "runnable s1 t" using next_task(2) K(1) [of t] by (simp add: runnable_def)
  note run1 = runs_on_kept [OF s1(3) _ run]
  have run1: "runs_on c s1" by (rule run1) simp
  note D = dispatch_tasks [OF s1(2) run1 t1]
  have cpu1: "cpu s1 = cpu s" using s1(3) by (simp add: task_kept_def)
  have fr: "saved (mem s1) (task_rsp s1 u) r = saved (mem s) (task_rsp s u) r" "on_stack s1 u (task_rsp s1 u) 56"
    if "u \<in> set ?rs" "runnable s u" for u r
  proof -
    have u: "u \<in> set (c # ?rs)" using that(1) by simp
    have "u \<in> set rs" using that(1) unfolding next_task(1) [symmetric] by simp
    then have "on_stack s u (task_rsp s u) 56" using task_inv_ready [OF inv] that(2) by (simp add: runnable_def)
    then show "saved (mem s1) (task_rsp s1 u) r = saved (mem s) (task_rsp s u) r" "on_stack s1 u (task_rsp s1 u) 56"
      using saved_kept [OF task_kept_stacks [OF s1(3)] u] on_stack_kept [OF task_kept_stacks [OF s1(3)] u] K(2) [OF u] by simp_all
  qed
  have nc: "c \<notin> set ?rs" using ring_inv_ring [OF task_inv_ring [OF s1(2)]] by (simp add: ring_def)
  have "task_status (dispatch c t s1) u = task_status s u \<and> (runnable s u \<longrightarrow>
      (\<forall>r. saved (mem (dispatch c t s1)) (task_rsp (dispatch c t s1) u) r = saved (mem s) (task_rsp s u) r))"
    if "u \<in> set (xs @ ys)" for u
  proof -
    have u: "u \<in> set ?rs" "u \<in> set (c # ?rs)" "u \<noteq> c" using that nc by auto
    then show ?thesis using D(8) [OF that] D(11) [OF u(2,3)] fr [OF u(1)] K(1) [OF u(2)] by simp
  qed
  moreover have "schedule s = Some (dispatch c t s1)" using schedule_eq [OF inv s1(1,2)] find by simp
  moreover have "runs_on t (dispatch c t s1)"
  proof -
    have tin: "t \<in> set (c # ?rs)" by simp
    have o: "on_stack s1 t (task_rsp s1 t) 56" by (rule fr(2)) (use next_task(2) in simp_all)
    have "rsp (cpu (dispatch c t s1)) = task_rsp s1 t + 56" using D(3) by (simp add: saved_def)
    moreover have "unat (task_rsp s1 t + 56) = unat (task_rsp s1 t) + 56"
      using on_stack_bound [OF task_inv_ring [OF s1(2)] tin o] by (subst unat_add_lem [THEN iffD1]) simp_all
    ultimately show ?thesis using D(10) [OF tin o] by (simp add: runs_on_def)
  qed
  ultimately show ?thesis
    using task_inv_dispatch [OF s1(2) run1 t1] D(2,3,4,5,7) s1(4) fr(1) [of t] next_task(2) K(1) [of c] cpu1 by auto
qed




section \<open>New tasks\<close>

lemma same_but_heap_fields:
  assumes "same_but_heap s s'"
  shows "cpu s' = cpu s" "current_task s' = current_task s" "task_list s' = task_list s" "next_id s' = next_id s"
    "interrupts_on s' = interrupts_on s"
  using assms by (auto elim!: same_but_heapE)

lemma kmalloc_keeps:
  assumes ok: "heap_ok s" and room: "kmalloc_room n s" and n: "0 < n"
  obtains p s' where "kmalloc n s = Some (p, s')" "heap_ok s'" "same_but_heap s s'"
    "\<And>a k. owns s a k \<Longrightarrow> owns s' a k"
    "\<And>a k i. owns s a k \<Longrightarrow> i < k \<Longrightarrow> mem s' (a + of_nat i) = mem s (a + of_nat i)"
    "\<And>x. static_byte s x \<Longrightarrow> static_byte s' x \<and> mem s' x = mem s x"
    "p = 0 \<Longrightarrow> payloads s' = payloads s"
    "p \<noteq> 0 \<Longrightarrow> owns s' p (unat n)" "\<And>a k. p \<noteq> 0 \<Longrightarrow> owns s a k \<Longrightarrow> 0 < k \<Longrightarrow> a \<noteq> p"
    "p \<noteq> 0 \<Longrightarrow> \<exists>k\<ge>unat n. payloads s' = insert (unat p, k) (payloads s)"
proof -
  obtain p s' where r: "kmalloc n s = Some (p, s')" using kheap.malloc_returns [OF ok room] by blast
  note L = kheap.malloc_law [OF ok room r]
  have sub: "payloads s \<subseteq> payloads s'" using L by (auto split: if_splits)
  have own: "owns s' a k" if "owns s a k" for a k using that sub unfolding owns_def by blast
  have keep: "mem s' (a + of_nat i) = mem s (a + of_nat i)" if "owns s a k" "i < k" for a k i
  proof -
    from that(1) obtain l where "k \<le> l" "(unat a, l) \<in> payloads s" by (auto simp: owns_def)
    then show ?thesis using L owns_byte [OF ok that] that(2) by auto
  qed
  have new: "\<exists>k\<ge>unat n. payloads s' = insert (unat p, k) (payloads s) \<and>
      (\<forall>q l. (q, l) \<in> payloads s \<longrightarrow> q + l \<le> unat p \<or> unat p + k \<le> q)" if "p \<noteq> 0" using L that by simp
  have "0 < unat n" using n by (simp add: word_less_nat_alt)
  then have ne: "a \<noteq> p" if "p \<noteq> 0" "owns s a k" "0 < k" for a k
    using new [OF that(1)] that(2,3) unfolding owns_def by fastforce
  have ownp: "owns s' p (unat n)" if "p \<noteq> 0" using new [OF that] unfolding owns_def by auto
  have rest: "heap_ok s'" "\<And>x. static_byte s x \<Longrightarrow> static_byte s' x \<and> mem s' x = mem s x" "p = 0 \<Longrightarrow> payloads s' = payloads s"
    using L by auto
  have ins: "\<exists>k\<ge>unat n. payloads s' = insert (unat p, k) (payloads s)" if "p \<noteq> 0" using new [OF that] by blast
  show thesis by (rule that [OF r rest(1) kmalloc_same [OF ok room r]]) (fact own keep rest(2,3) ownp ne ins)+
qed

lemma task_kept_same:
  assumes "cpu s' = cpu s" "current_task s' = current_task s"
    and "\<And>t. t \<in> set ts \<Longrightarrow> tcb_at (mem s') t = tcb_at (mem s) t"
    and "\<And>t i. t \<in> set ts \<Longrightarrow> task_stack s t \<noteq> 0 \<Longrightarrow> i < 8192 \<Longrightarrow>
      mem s' (task_stack s t + of_nat i) = mem s (task_stack s t + of_nat i)"
    and "\<And>x. static_byte s x \<Longrightarrow> static_byte s' x \<and> mem s' x = mem s x"
  shows "task_kept ts s s'"
proof -
  have "\<exists>n. tcb_at (mem s') t = (tcb_at (mem s) t)\<lparr>tc_next := n\<rparr>" if "t \<in> set ts" for t
    using assms(3) [OF that] by (intro exI [of _ "tc_next (tcb_at (mem s) t)"]) (simp del: tcb_at_sel)
  then show ?thesis unfolding task_kept_def using assms by simp
qed

text \<open>Steps that keep all memory the tasks of the ring own, and static memory.\<close>

lemma ring_keep:
  fixes s s' :: "'a task_state_scheme"
  assumes inv: "ring_inv ts s" and ok: "heap_ok s'" "cpu s' = cpu s" "current_task s' = current_task s"
    and own: "\<And>a k. a \<in> set (task_mem (mem s) ts) \<Longrightarrow> owns s a k \<Longrightarrow> owns s' a k"
    and keep: "\<And>a k i. a \<in> set (task_mem (mem s) ts) \<Longrightarrow> owns s a k \<Longrightarrow> i < k \<Longrightarrow> mem s' (a + of_nat i) = mem s (a + of_nat i)"
    and static: "\<And>x. static_byte s x \<Longrightarrow> static_byte s' x \<and> mem s' x = mem s x"
  shows "ring_inv ts s'" "task_kept ts s s'" "task_mem (mem s') ts = task_mem (mem s) ts"
    "\<And>t. t \<in> set ts \<Longrightarrow> tcb_at (mem s') t = tcb_at (mem s) t"
proof -
  show tcb: "tcb_at (mem s') t = tcb_at (mem s) t" if "t \<in> set ts" for t
    using keep [OF task_mem_in(1) [OF that] ring_inv_tcb [OF inv that]] by (rule tcb_at_cong)
  note f = tcb_fields [OF tcb]
  show "ring_inv ts s'" by (rule ring_inv_frame [OF inv ok(1)]) (use own f in auto)
  show "task_kept ts s s'"
    by (rule task_kept_same [OF ok(2,3) tcb _ static])
      (use keep [OF task_mem_in(2) ring_inv_stack [OF inv]] in auto)
  show "task_mem (mem s') ts = task_mem (mem s) ts" using f(4) by (intro task_mem_cong) simp
qed

text \<open>A write to memory that no task of the ring uses.\<close>

lemma fresh_put:
  fixes s :: "'a task_state_scheme"
  assumes inv: "ring_inv ts s" and a: "owns s a n" "a \<notin> set (task_mem (mem s) ts)" and w: "writes_in a n (mem s) m"
  shows "ring_inv ts (s\<lparr>mem := m\<rparr>)" "task_kept ts s (s\<lparr>mem := m\<rparr>)" "payloads (s\<lparr>mem := m\<rparr>) = payloads s"
    "task_mem m ts = task_mem (mem s) ts" "owns (s\<lparr>mem := m\<rparr>) = owns s"
    "\<And>b k i. owns s b k \<Longrightarrow> b \<noteq> a \<Longrightarrow> i < k \<Longrightarrow> m (b + of_nat i) = mem s (b + of_nat i)"
proof -
  note W = owns_write [OF ring_inv_heap [OF inv] a(1) w]
  have ne: "b \<noteq> a" if "b \<in> set (task_mem (mem s) ts)" for b using that a(2) by auto
  note K = ring_keep [OF inv, of "s\<lparr>mem := m\<rparr>"]
  show "ring_inv ts (s\<lparr>mem := m\<rparr>)" "task_kept ts s (s\<lparr>mem := m\<rparr>)" by (rule K; use W ne in simp)+
  have "task_mem (mem (s\<lparr>mem := m\<rparr>)) ts = task_mem (mem s) ts" by (rule K; use W ne in simp)
  then show "task_mem m ts = task_mem (mem s) ts" by simp
  show "payloads (s\<lparr>mem := m\<rparr>) = payloads s" "owns (s\<lparr>mem := m\<rparr>) = owns s" by (rule W)+
  show "m (b + of_nat i) = mem s (b + of_nat i)" if "owns s b k" "b \<noteq> a" "i < k" for b k i by (rule W(4) [OF that])
qed

lemma kmalloc_ring:
  fixes s :: "'a task_state_scheme"
  assumes inv: "ring_inv ts s" and room: "kmalloc_room n s" and n: "0 < n"
  obtains p s' where "kmalloc n s = Some (p, s')" "ring_inv ts s'" "task_kept ts s s'" "same_but_heap s s'"
    "task_mem (mem s') ts = task_mem (mem s) ts" "\<And>a k. owns s a k \<Longrightarrow> owns s' a k"
    "p = 0 \<Longrightarrow> payloads s' = payloads s"
    "p \<noteq> 0 \<Longrightarrow> owns s' p (unat n) \<and> p \<notin> set (task_mem (mem s) ts) \<and> (\<forall>a k. owns s a k \<longrightarrow> 0 < k \<longrightarrow> a \<noteq> p) \<and>
       (\<exists>k\<ge>unat n. payloads s' = insert (unat p, k) (payloads s))"
proof (rule kmalloc_keeps [OF ring_inv_heap [OF inv] room n])
  fix p s'
  assume r: "kmalloc n s = Some (p, s')" and ok: "heap_ok s'" and same: "same_but_heap s s'"
    and own: "\<And>a k. owns s a k \<Longrightarrow> owns s' a k"
    and keep: "\<And>a k i. owns s a k \<Longrightarrow> i < k \<Longrightarrow> mem s' (a + of_nat i) = mem s (a + of_nat i)"
    and st: "\<And>x. static_byte s x \<Longrightarrow> static_byte s' x \<and> mem s' x = mem s x"
    and p0: "p = 0 \<Longrightarrow> payloads s' = payloads s"
    and p: "p \<noteq> 0 \<Longrightarrow> owns s' p (unat n)" "\<And>a k. p \<noteq> 0 \<Longrightarrow> owns s a k \<Longrightarrow> 0 < k \<Longrightarrow> a \<noteq> p"
      "p \<noteq> 0 \<Longrightarrow> \<exists>k\<ge>unat n. payloads s' = insert (unat p, k) (payloads s)"
  note K = ring_keep [OF inv ok same_but_heap_fields(1,2) [OF same]]
  have "p \<notin> set (task_mem (mem s) ts)" if "p \<noteq> 0"
  proof
    assume "p \<in> set (task_mem (mem s) ts)"
    then show False
      by (cases rule: task_mem_cases)
        (use p(2) [OF that] ring_inv_tcb [OF inv] ring_inv_stack [OF inv] in fastforce)+
  qed
  then show thesis
    by (intro that [OF r _ _ same]) (use K own keep st p p0 in auto)
qed

text \<open>The registers a new task starts with.\<close>

definition fresh_regs :: "u64 \<Rightarrow> u64 \<Rightarrow> u64 \<Rightarrow> cpu_regs" where
  "fresh_regs trampoline entry sp =
     \<lparr>rbx = 0, rbp = 0, r12 = entry, r13 = 0, r14 = 0, r15 = 0, rsp = sp, rip = trampoline\<rparr>"

lemma task_frame_eq:
  "task_frame trampoline entry stack s =
     (stack + 8192 - 56, s\<lparr>mem := push_frame (fresh_regs trampoline entry (stack + 8192)) (mem s)\<rparr>)"
  by (simp add: task_frame_def push_frame_def fresh_regs_def put64_def Let_def)

text \<open>\<open>task_link\<close> puts the new task \<open>t\<close> at the end of the list.\<close>

lemma task_link_ring:
  fixes s :: "'a task_state_scheme"
  assumes inv: "ring_inv ts s" and h: "task_list s = hd ts"
    and t: "owns s t 40" "owns s (task_stack s t) 8192" "distinct (task_mem (mem s) (ts @ [t]))"
  obtains s' where "task_link t s = Some s'" "ring_inv (ts @ [t]) s'" "task_kept (ts @ [t]) s s'"
    "payloads s' = payloads s" "same_but_heap s s'"
proof -
  have r: "ring (task_next s) ts" by (rule ring_inv_ring [OF inv])
  then have ne: "ts \<noteq> []" by (simp add: ring_def)
  have tl: "last ts \<in> set ts" "hd ts \<in> set ts" using ne by simp_all
  have nt: "t \<notin> set ts" using t(3) task_mem_in(1) by fastforce
  have nst: "a \<noteq> t" if "a \<in> set (task_mem (mem s) ts)" for a using that t(3) by auto
  have st0: "task_stack s t \<noteq> 0" using owns_bounds [OF ring_inv_heap [OF inv] t(2)] by auto
  obtain h' ts' where ts: "ts = h' # ts'" using ne by (cases ts) auto
  have "task_before (hd ts) (hd ts) s = Some (last ts)"
    using task_before_ring [of s "[]" h' ts'] r by (simp add: ts)
  then have b: "task_before (task_list s) (task_list s) s = Some (last ts)" using h by simp
  have nz: "task_list s \<noteq> 0" using ring_inv_nonzero [OF inv tl(2)] h by simp
  define s1 where "s1 = put64 (last ts + 32) t s"
  note P = link_put [OF inv tl(1), where v = t, folded s1_def]
  have l1: "task_list s1 = hd ts" using h by (simp add: s1_def put64_def)
  define m where "m = store64 (mem s1) (t + 32) (hd ts)"
  define s2 where "s2 = s1\<lparr>mem := m\<rparr>"
  have e: "task_link t s = Some s2" using b nz l1 by (simp add: task_link_def s1_def s2_def m_def put64_def)
  have own1: "owns s1 t 40" using P(3) t(1) by simp
  have w: "writes_in t 40 (mem s1) m" unfolding m_def by (rule tcb_writes(5) [OF P(1) own1])
  note W = owns_write [OF P(1) own1 w, folded s2_def]
  have lo: "owns s1 (last ts) 40" using ring_inv_tcb [OF inv tl(1)] P(3) by simp
  have keep1: "mem s1 (a + of_nat i) = mem s (a + of_nat i)" if "owns s a k" "a \<noteq> last ts" "i < k" for a k i
    using owns_write(4) [OF ring_inv_heap [OF inv] ring_inv_tcb [OF inv tl(1)] tcb_writes(5) [OF ring_inv_heap [OF inv] ring_inv_tcb [OF inv tl(1)]] that]
    by (simp add: s1_def put64_def)
  have tcb: "tcb_at (mem s2) u = tcb_at (mem s1) u" if "u \<in> set ts" for u
    using W(4) [OF _ nst [OF task_mem_in(1) [OF that]]] ring_inv_tcb [OF inv that] P(3)
    by (intro tcb_at_cong) (simp add: s2_def)
  have "tcb_at (mem s1) t = tcb_at (mem s) t"
    using keep1 [OF t(1)] tl(1) nt by (intro tcb_at_cong) auto
  then have tcbt: "tcb_at (mem s2) t = (tcb_at (mem s) t)\<lparr>tc_next := hd ts\<rparr>"
    by (simp add: s2_def m_def tcb_store)
  have stk: "task_stack s2 u = task_stack s u" if "u \<in> set (ts @ [t])" for u
    using that tcb_fields(4) [OF tcb] P(6) arg_cong [OF tcbt, of tc_stack] by auto
  have nxt: "task_next s2 u = ((task_next s)(last ts := t, t := hd ts)) u" if "u \<in> set (ts @ [t])" for u
    using that tcb_fields(5) [OF tcb] P(5) arg_cong [OF tcbt, of tc_next] nt by auto
  have "task_mem (mem s2) (ts @ [t]) = task_mem (mem s) (ts @ [t])" by (rule task_mem_cong) (rule stk)
  moreover have "ring (task_next s2) (ts @ [t])"
    using ring_insert [OF r nt] nxt by (subst ring_cong) auto
  ultimately have inv2: "ring_inv (ts @ [t]) s2"
    using W(1,3) P(3) t stk ring_inv_tcb [OF inv] ring_inv_stack [OF inv] unfolding ring_inv_def by auto
  have byte: "mem s2 (task_stack s u + of_nat i) = mem s (task_stack s u + of_nat i)"
    if u: "u \<in> set (ts @ [t])" "task_stack s u \<noteq> 0" "i < 8192" for u i
  proof -
    have o: "owns s (task_stack s u) 8192" using u t(2) ring_inv_stack [OF inv] by auto
    have "task_stack s u \<noteq> last ts" "task_stack s u \<noteq> t"
      using distinct_task_mem(1) [OF t(3), of "last ts" u] distinct_task_mem(1) [OF t(3), of t u] u tl(1) by auto
    then show ?thesis using W(4) [of _ 8192] keep1 [OF o] o P(3) u(3) by (simp add: s2_def)
  qed
  have "\<exists>n. tcb_at (mem s2) u = (tcb_at (mem s) u)\<lparr>tc_next := n\<rparr>" if "u \<in> set (ts @ [t])" for u
    using that tcb [of u] P(4) tcbt unfolding task_kept_def by auto
  moreover have "static_byte s2 x \<and> mem s2 x = mem s x" if "static_byte s x" for x
    using that W(5) P(4) by (simp add: task_kept_def s2_def)
  ultimately have "task_kept (ts @ [t]) s s2"
    using byte unfolding task_kept_def by (simp add: s2_def s1_def put64_def)
  moreover have "payloads s2 = payloads s" using W(2) P(2) by simp
  moreover have "same_but_heap s s2" by (simp add: s2_def s1_def put64_def same_but_heap_def)
  ultimately show thesis using that [OF e inv2] by blast
qed



lemma ring_inv_next_id [simp]: "ring_inv ts (s\<lparr>next_id := n\<rparr>) = ring_inv ts s" "ring_inv ts (s\<lparr>task_list := t\<rparr>) = ring_inv ts s"
  by (simp_all add: ring_inv_def)

lemma task_kept_next_id: "task_kept ts s s' \<Longrightarrow> task_kept ts s (s'\<lparr>next_id := n\<rparr>)"
  by (simp add: task_kept_def)

lemma on_stack_top:
  fixes st :: u64
  assumes "unat st + 8192 < 2 ^ 63"
  shows "unat (st + 8192) = unat st + 8192" "unat (st + 8192 - 56) = unat st + 8136"
proof -
  show "unat (st + 8192) = unat st + 8192" using assms by (subst unat_add_lem [THEN iffD1]) simp_all
  have "unat (st + 8136) = unat st + 8136" using assms by (subst unat_add_lem [THEN iffD1]) simp_all
  then show "unat (st + 8192 - 56) = unat st + 8136" by (simp add: add.commute)
qed

text \<open>Filling in a new control block \<open>t\<close> and its stack \<open>st\<close>.\<close>

lemma task_fill:
  fixes s :: "'a task_state_scheme" and n trampoline entry :: u64
  assumes inv: "ring_inv ts s" and own: "owns s t 40" "owns s st 8192" "t \<noteq> st"
    and new: "t \<notin> set (task_mem (mem s) ts)" "st \<notin> set (task_mem (mem s) ts)"
  defines "s' \<equiv> (let s = put64 t n s; s = put32 (t + 16) TASK_READY s; s = put64 (t + 24) st s;
      (sp, s) = task_frame trampoline entry st s in put64 (t + 8) sp s)"
  shows "ring_inv ts s'" "task_kept ts s s'" "payloads s' = payloads s" "task_mem (mem s') ts = task_mem (mem s) ts"
    "task_id s' t = n" "task_status s' t = TASK_READY" "task_stack s' t = st" "task_rsp s' t = st + 8192 - 56"
    "saved (mem s') (st + 8192 - 56) (fresh_regs trampoline entry (st + 8192))" "same_but_heap s s'"
proof -
  note ok = ring_inv_heap [OF inv]
  let ?r = "fresh_regs trampoline entry (st + 8192)" and ?sp = "st + 8192 - 56"
  define m1 where "m1 = store64 (store32 (store64 (mem s) t n) (t + 16) TASK_READY) (t + 24) st"
  define s1 where "s1 = s\<lparr>mem := m1\<rparr>"
  define m2 where "m2 = push_frame ?r m1"
  define s2 where "s2 = s1\<lparr>mem := m2\<rparr>"
  define m3 where "m3 = store64 m2 (t + 8) ?sp"
  have e: "s' = s2\<lparr>mem := m3\<rparr>"
    by (simp add: s'_def Let_def task_frame_eq put64_def put32_def m1_def m2_def m3_def s1_def s2_def)
  have w1: "writes_in t 40 (mem s) m1"
    unfolding m1_def
    by (rule writes_in_trans [OF writes_in_trans [OF tcb_writes(1) tcb_writes(3)] tcb_writes(4)]; rule ok own(1))
  note P1 = fresh_put [OF inv own(1) new(1) w1, folded s1_def]
  have b: "unat st + 8192 \<le> 0x1200000" using owns_bounds [OF ok own(2)] by simp
  then have u: "unat (st + 8192) = unat st + 8192" "unat ?sp = unat st + 8136" using on_stack_top [of st] by simp_all
  have "writes_in ?sp 56 m1 m2"
    unfolding m2_def using frame_writes [of ?r m1] u b by (simp add: fresh_regs_def)
  then have w2: "writes_in st 8192 (mem s1) m2" using u by (simp add: s1_def writes_in_def)
  have o1: "owns s1 st 8192" "st \<notin> set (task_mem (mem s1) ts)" "owns s1 t 40" "t \<notin> set (task_mem (mem s1) ts)"
    using own new P1(4,5) by (simp_all add: s1_def)
  note P2 = fresh_put [OF P1(1) o1(1,2) w2, folded s2_def]
  have o2: "owns s2 t 40" "t \<notin> set (task_mem (mem s2) ts)" "owns s2 st 8192" using o1 P2(4,5) by (simp_all add: s2_def)
  have w3: "writes_in t 40 (mem s2) m3"
    unfolding m3_def using tcb_writes(2) [OF ring_inv_heap [OF P2(1)] o2(1)] by (simp add: s2_def)
  note P3 = fresh_put [OF P2(1) o2(1,2) w3, folded e]
  show "ring_inv ts s'" by (rule P3(1))
  show "task_kept ts s s'"
    by (rule task_kept_trans [OF task_kept_trans [OF P1(2) P2(2)] P3(2)]) simp_all
  show "payloads s' = payloads s" using P1(3) P2(3) P3(3) by simp
  show "task_mem (mem s') ts = task_mem (mem s) ts" using P1(4) P2(4) P3(4) by (simp add: e s2_def s1_def)
  have "tcb_at m2 t = tcb_at m1 t"
    using P2(6) [OF o1(3) own(3)] by (intro tcb_at_cong) (simp add: s1_def)
  then have t3: "tcb_at m3 t = (tcb_at m1 t)\<lparr>tc_rsp := ?sp\<rparr>" by (simp add: m3_def tcb_store)
  moreover have "tcb_at m1 t = (tcb_at (mem s) t)\<lparr>tc_id := n, tc_status := TASK_READY, tc_stack := st\<rparr>"
    by (simp add: m1_def tcb_store)
  ultimately have t3: "tcb_at m3 t = (tcb_at (mem s) t)\<lparr>tc_id := n, tc_status := TASK_READY, tc_stack := st, tc_rsp := ?sp\<rparr>" by simp
  show "task_id s' t = n" "task_status s' t = TASK_READY" "task_stack s' t = st" "task_rsp s' t = ?sp"
    using arg_cong [OF t3, of tc_id] arg_cong [OF t3, of tc_status] arg_cong [OF t3, of tc_stack] arg_cong [OF t3, of tc_rsp]
    by (simp_all add: e)
  have "saved m3 ?sp ?r = saved m2 ?sp ?r"
  proof (rule saved_cong)
    fix i :: nat assume "i < 56"
    then have "m3 (st + of_nat (8136 + i)) = mem s2 (st + of_nat (8136 + i))"
      by (intro P3(6) [OF o2(3) own(3) [symmetric]]) simp
    moreover have ms2: "mem s2 = m2" by (simp add: s2_def)
    moreover have "?sp + of_nat i = st + of_nat (8136 + i)" by (simp add: add.commute)
    ultimately show "m3 (?sp + of_nat i) = m2 (?sp + of_nat i)" by (simp only: ms2)
  qed
  then show "saved (mem s') ?sp ?r" using saved_push_frame [of ?r m1] by (simp add: e m2_def fresh_regs_def)
  show "same_but_heap s s'" by (simp add: e s2_def s1_def same_but_heap_def)
qed

text \<open>Frames enough for the two allocations of \<open>task_create\<close>.\<close>

definition task_room :: "'a task_state_scheme \<Rightarrow> bool" where
  "task_room s \<longleftrightarrow> kmalloc_room 40 s \<and> (case kmalloc 40 s of None \<Rightarrow> True | Some (_, s) \<Rightarrow> kmalloc_room 8192 s)"

definition created :: "u64 \<Rightarrow> u64 \<Rightarrow> u64 \<Rightarrow> 'a task_state_scheme \<Rightarrow> 'a task_state_scheme \<Rightarrow> bool" where
  "created trampoline entry t s s' \<longleftrightarrow>
     task_id s' t = next_id s \<and> next_id s' = next_id s + 1 \<and> task_status s' t = TASK_READY \<and> task_stack s' t \<noteq> 0 \<and>
     on_stack s' t (task_rsp s' t) 56 \<and>
     saved (mem s') (task_rsp s' t) (fresh_regs trampoline entry (task_stack s' t + 8192))"

lemma task_kept_mono: "task_kept ts s s' \<Longrightarrow> set us \<subseteq> set ts \<Longrightarrow> task_kept us s s'"
  unfolding task_kept_def by blast

lemma task_create_link:
  fixes s :: "'a task_state_scheme" and trampoline entry :: u64
  assumes inv: "ring_inv ts s" "task_list s = hd ts" and own: "owns s t 40" "owns s st 8192" "t \<noteq> st"
    and new: "t \<notin> set (task_mem (mem s) ts)" "st \<notin> set (task_mem (mem s) ts)"
  defines "s1 \<equiv> (let s = put64 t (next_id s) (s\<lparr>next_id := next_id s + 1\<rparr>); s = put32 (t + 16) TASK_READY s;
      s = put64 (t + 24) st s; (sp, s) = task_frame trampoline entry st s in put64 (t + 8) sp s)"
  shows "\<exists>s'. task_link t s1 = Some s' \<and> task_kept ts s s' \<and> task_list s' = task_list s \<and>
    ring_inv (ts @ [t]) s' \<and> created trampoline entry t s s'"
proof -
  let ?s = "s\<lparr>next_id := next_id s + 1\<rparr>"
  have inv3: "ring_inv ts ?s" and new3: "owns ?s t 40" "owns ?s st 8192" "t \<noteq> st" "t \<notin> set (task_mem (mem ?s) ts)"
    "st \<notin> set (task_mem (mem ?s) ts)" using inv(1) own new by simp_all
  note F = task_fill [OF inv3 new3, where n = "next_id s" and trampoline = trampoline and entry = entry, folded s1_def]
  have f: "task_list s1 = task_list s" "next_id s1 = next_id s + 1" using same_but_heap_fields [OF F(10)] by simp_all
  have own1: "owns s1 = owns s" using F(3) by (simp add: owns_def fun_eq_iff)
  have bst: "0x200010 \<le> unat st" using owns_bounds [OF ring_inv_heap [OF inv(1)] own(2)] by simp
  then have st0: "st \<noteq> 0" by auto
  have hd1: "task_list s1 = hd ts" using f(1) inv(2) by simp
  have o1: "owns s1 t 40" "owns s1 (task_stack s1 t) 8192" using own own1 F(7) by simp_all
  have d1: "distinct (task_mem (mem s1) (ts @ [t]))"
    using new own(3) ring_inv_distinct [OF inv3] F(4,7) st0 by auto
  obtain s2 where s2: "task_link t s1 = Some s2" "ring_inv (ts @ [t]) s2" "task_kept (ts @ [t]) s1 s2" "same_but_heap s1 s2"
    by (rule task_link_ring [OF F(1) hd1 o1 d1], rule that)
  have tin: "t \<in> set (ts @ [t])" by simp
  note K = task_kept_tcb [OF s2(3) tin]
  have "unat st + 8192 < 2 ^ 63" using owns_bounds [OF ring_inv_heap [OF inv(1)] own(2)] by simp
  note u = on_stack_top [OF this]
  have on1: "on_stack s1 t (st + 8192 - 56) 56" using F(7) st0 u by (simp add: on_stack_def)
  have "task_kept ts s ?s" by (rule task_kept_next_id [OF task_kept_refl])
  from task_kept_trans [OF task_kept_trans [OF this F(2) subset_refl] task_kept_mono [OF s2(3)]]
  have "task_kept ts s s2" by auto
  moreover have "created trampoline entry t s s2"
    using K F(5-9) st0 same_but_heap_fields(4) [OF s2(4)] f(2) on_stack_kept [OF task_kept_stacks [OF s2(3)] tin on1]
      saved_kept [OF task_kept_stacks [OF s2(3)] tin on1] unfolding created_def by simp
  ultimately show ?thesis using s2(1,2) f(1) same_but_heap_fields(3) [OF s2(4)] by auto
qed

lemma task_create_ring:
  fixes s :: "'a task_state_scheme"
  assumes inv: "ring_inv ts s" and h: "task_list s = hd ts" and room: "task_room s"
  shows "\<exists>t s'. task_create trampoline entry s = Some (t, s') \<and> task_kept ts s s' \<and> task_list s' = task_list s \<and>
    (if t = 0 then ring_inv ts s' \<and> payloads s' = payloads s else ring_inv (ts @ [t]) s' \<and> created trampoline entry t s s')"
proof (rule kmalloc_ring [OF inv, of 40])
  show "kmalloc_room 40 s" using room by (simp add: task_room_def)
  fix t s1
  assume s1: "kmalloc 40 s = Some (t, s1)" "ring_inv ts s1" "task_kept ts s s1" "same_but_heap s s1"
    and m1: "task_mem (mem s1) ts = task_mem (mem s) ts"
    and t0: "t = 0 \<Longrightarrow> payloads s1 = payloads s"
    and t: "t \<noteq> 0 \<Longrightarrow> owns s1 t (unat (40 :: u64)) \<and> t \<notin> set (task_mem (mem s) ts) \<and> (\<forall>a k. owns s a k \<longrightarrow> 0 < k \<longrightarrow> a \<noteq> t) \<and>
       (\<exists>k\<ge>unat (40 :: u64). payloads s1 = insert (unat t, k) (payloads s))"
  note same1 = same_but_heap_fields [OF s1(4)]
  show ?thesis
  proof (cases "t = 0")
    case True
    have "serial_write ''task: failed to allocate TCB\<newline>'' s1 = s1\<lparr>outs := outs (serial_write ''task: failed to allocate TCB\<newline>'' s1)\<rparr>"
      by (simp add: print_eqs)
    then obtain o1 where "serial_write ''task: failed to allocate TCB\<newline>'' s1 = s1\<lparr>outs := o1\<rparr>" by blast
    then show ?thesis
      using s1(1) True t0 s1(2) task_kept_trans [OF s1(3) task_kept_outs subset_refl] same1
      by (auto simp: task_create_def)
  next
    case False
    note t = t [OF False]
    show ?thesis
    proof (rule kmalloc_ring [OF s1(2), of 8192])
      show "kmalloc_room 8192 s1" using room s1(1) by (simp add: task_room_def)
      fix st s2
      assume s2: "kmalloc 8192 s1 = Some (st, s2)" "ring_inv ts s2" "task_kept ts s1 s2" "same_but_heap s1 s2"
        and m2: "task_mem (mem s2) ts = task_mem (mem s1) ts" and own: "\<And>a k. owns s1 a k \<Longrightarrow> owns s2 a k"
        and st0: "st = 0 \<Longrightarrow> payloads s2 = payloads s1"
        and st: "st \<noteq> 0 \<Longrightarrow> owns s2 st (unat (8192 :: u64)) \<and> st \<notin> set (task_mem (mem s1) ts) \<and>
          (\<forall>a k. owns s1 a k \<longrightarrow> 0 < k \<longrightarrow> a \<noteq> st) \<and> (\<exists>k\<ge>unat (8192 :: u64). payloads s2 = insert (unat st, k) (payloads s1))"
      note k2 = task_kept_trans [OF s1(3) s2(3) subset_refl]
      note same2 = same_but_heap_fields [OF s2(4)]
      have t2: "owns s2 t 40" "t \<notin> set (task_mem (mem s2) ts)" using t own m1 m2 by simp_all
      show ?thesis
      proof (cases "st = 0")
        case True
        have "serial_write ''task: failed to allocate stack\<newline>'' s2 = s2\<lparr>outs := outs (serial_write ''task: failed to allocate stack\<newline>'' s2)\<rparr>"
          by (simp add: print_eqs)
        then obtain o2 where o2: "serial_write ''task: failed to allocate stack\<newline>'' s2 = s2\<lparr>outs := o2\<rparr>" by blast
        let ?s = "s2\<lparr>outs := o2\<rparr>"
        have inv3: "ring_inv ts ?s" "owns ?s t 40" "t \<notin> set (task_mem (mem ?s) ts)" using s2(2) t2 by simp_all
        obtain m where m: "kfree t ?s = Some (?s\<lparr>mem := m\<rparr>)" "ring_inv ts (?s\<lparr>mem := m\<rparr>)" "task_kept ts ?s (?s\<lparr>mem := m\<rparr>)"
          "payloads (?s\<lparr>mem := m\<rparr>) = {(q, l) \<in> payloads ?s. q \<noteq> unat t}"
          by (rule kfree_ring [OF inv3], rule that)
        have "(q, l) \<notin> payloads s" if "q = unat t" for q l
        proof
          assume "(q, l) \<in> payloads s"
          then have "owns s t 16" using payload_bounds(3) [OF ring_inv_heap [OF inv]] that by (auto simp: owns_def)
          then have "0 < (16 :: nat) \<longrightarrow> t \<noteq> t" using t by blast
          then show False by simp
        qed
        then have "payloads (?s\<lparr>mem := m\<rparr>) = payloads s" using m(4) st0 True t by auto
        then show ?thesis
          using s1(1) s2(1) False True o2 m(1,2) task_kept_trans [OF task_kept_trans [OF k2 task_kept_outs] m(3)] same1 same2
          by (auto simp: task_create_def)
      next
        case sz: False
        note st = st [OF sz]
        have "owns s1 t 40" using t by simp
        then have "0 < (40 :: nat) \<longrightarrow> t \<noteq> st" using st by blast
        then have ne: "t \<noteq> st" by simp
        have new: "owns s2 t 40" "owns s2 st 8192" "t \<noteq> st" "t \<notin> set (task_mem (mem s2) ts)" "st \<notin> set (task_mem (mem s2) ts)"
          using t2 st ne m2 by auto
        have hd2: "task_list s2 = hd ts" using h same1 same2 by simp
        from task_create_link [OF s2(2) hd2 new, where trampoline = trampoline and entry = entry] obtain s3 where
          s3: "task_link t (let s = put64 t (next_id s2) (s2\<lparr>next_id := next_id s2 + 1\<rparr>); s = put32 (t + 16) TASK_READY s;
            s = put64 (t + 24) st s; (sp, s) = task_frame trampoline entry st s in put64 (t + 8) sp s) = Some s3"
            "task_kept ts s2 s3" "task_list s3 = task_list s2" "ring_inv (ts @ [t]) s3" "created trampoline entry t s2 s3" by blast
        define s4 where "s4 = (let s = serial_write ''task: created id='' s3; s = serial_write_dec_u64 (task_id s t) s;
          s = serial_write '' entry='' s; s = serial_write_hex_u64 entry s; s = serial_write '' stack='' s;
          s = serial_write_hex_u64 st s in serial_write ''\<newline>'' s)"
        have "s4 = s3\<lparr>outs := outs s4\<rparr>" by (simp add: s4_def Let_def print_eqs)
        then obtain o4 where s4: "s4 = s3\<lparr>outs := o4\<rparr>" by blast
        have "task_create trampoline entry s = Some (t, s4)"
          using s1(1) s2(1) s3(1) False sz by (simp add: task_create_def s4_def Let_def split: prod.splits)
        moreover have "created trampoline entry t s s4"
          using s3(5) same1 same2 by (simp add: created_def s4 on_stack_def)
        moreover have "task_kept ts s s4"
          unfolding s4 by (rule task_kept_trans [OF task_kept_trans [OF k2 s3(2)] task_kept_outs]) simp_all
        ultimately show ?thesis using False s3 same1 same2 by (auto simp: s4)
      qed
    qed simp
  qed
qed simp



lemma kmalloc_room_frames:
  "unat n \<le> 2 ^ 63 \<Longrightarrow> 4 * (expand_bytes (need_bytes (unat n)) div 4096) \<le> card {f \<in> free_frames s. f < 512} \<Longrightarrow> kmalloc_room n s"
  by (simp add: kmalloc_room_def heap_room_def)

lemma task_room_frames:
  assumes ok: "heap_ok s" and frames: "16 \<le> card {f \<in> free_frames s. f < 512}"
  shows "task_room s"
proof -
  have e: "expand_bytes (need_bytes (unat (40 :: u64))) = 4096" "expand_bytes (need_bytes (unat (8192 :: u64))) = 12288"
    by (simp_all add: expand_bytes_def need_bytes_def)
  have r: "kmalloc_room 40 s" by (rule kmalloc_room_frames) (use e frames in simp_all)
  have "kmalloc_room 8192 s1" if "kmalloc 40 s = Some (p, s1)" for p s1
    by (rule kmalloc_room_frames) (use e frames kmalloc_frames [OF ok r that] in simp_all)
  then show ?thesis using r by (auto simp: task_room_def split: option.splits)
qed

lemma ring_split:
  assumes "h \<in> set (c # rs)"
  obtains xs ys where "rs = xs @ ys" "h = hd (ys @ [c])"
proof (cases "h = c")
  case True
  then show ?thesis using that [of rs "[]"] by simp
next
  case False
  then obtain xs ys where "rs = xs @ h # ys" using assms by (auto dest: split_list)
  then show ?thesis using that [of xs "h # ys"] by simp
qed

lemma task_create_done:
  assumes inv: "task_inv c rs s" and frames: "16 \<le> card {f \<in> free_frames s. f < 512}"
  shows "\<exists>t s'. task_create trampoline entry s = Some (t, s') \<and> cpu s' = cpu s \<and> (runs_on c s \<longrightarrow> runs_on c s') \<and>
    (\<forall>u\<in>set (c # rs). task_status s' u = task_status s u \<and> task_rsp s' u = task_rsp s u) \<and>
    (if t = 0 then task_inv c rs s' \<and> payloads s' = payloads s
     else \<exists>xs ys. rs = xs @ ys \<and> task_list s = hd (ys @ [c]) \<and> task_inv c (xs @ t # ys) s' \<and>
       task_id s' t = next_id s \<and> next_id s' = next_id s + 1 \<and> task_status s' t = TASK_READY \<and>
       saved (mem s') (task_rsp s' t) (fresh_regs trampoline entry (task_stack s' t + 8192)))"
proof -
  have room: "task_room s" by (rule task_room_frames [OF ring_inv_heap [OF task_inv_ring [OF inv]] frames])
  obtain xs ys where rs: "rs = xs @ ys" "task_list s = hd (ys @ [c])" using ring_split [OF task_inv_list [OF inv]] .
  let ?ts = "ys @ c # xs"
  have hd: "task_list s = hd ?ts" using rs(2) by (cases ys) simp_all
  have "ring_inv ((c # xs) @ ys) s" using task_inv_ring [OF inv] rs(1) by simp
  then have ring: "ring_inv ?ts s" unfolding ring_inv_rotate [of "c # xs"] by simp
  have sets: "set ?ts = set (c # rs)" using rs(1) by auto
  obtain t s' where s': "task_create trampoline entry s = Some (t, s')" "task_kept ?ts s s'" "task_list s' = task_list s"
    and res: "if t = 0 then ring_inv ?ts s' \<and> payloads s' = payloads s else ring_inv (?ts @ [t]) s' \<and> created trampoline entry t s s'"
    using task_create_ring [OF ring hd room, of trampoline entry] by blast
  note K = task_kept_tcb [OF s'(2), unfolded sets]
  have cur: "current_task s' = c" "cpu s' = cpu s" using s'(2) task_inv_current [OF inv] by (simp_all add: task_kept_def)
  have boot: "u = v" if "u \<in> set (c # rs)" "v \<in> set (c # rs)" "task_stack s' u = 0" "task_stack s' v = 0" for u v
    using task_inv_boot [OF inv that(1,2)] that K(3) by auto
  have ready: "on_stack s' u (task_rsp s' u) 56" if "u \<in> set rs" "task_status s' u = TASK_READY" for u
  proof -
    have u: "u \<in> set (c # rs)" using that(1) by simp
    then have "on_stack s u (task_rsp s u) 56" using task_inv_ready [OF inv that(1)] that(2) K(1) by simp
    then show ?thesis using on_stack_kept [OF task_kept_stacks [OF s'(2)], unfolded sets, OF u] K(2) [OF u] by simp
  qed
  have "\<forall>u\<in>set (c # rs). task_status s' u = task_status s u \<and> task_rsp s' u = task_rsp s u" using K(1,2) by blast
  moreover have "if t = 0 then task_inv c rs s' \<and> payloads s' = payloads s
     else task_inv c (xs @ t # ys) s' \<and> created trampoline entry t s s'"
  proof (cases "t = 0")
    case True
    then have "ring_inv (ys @ c # xs) s'" using res by simp
    then have "ring_inv (c # rs) s'" unfolding ring_inv_rotate [of ys] rs(1) by simp
    then show ?thesis
      using True res cur s'(3) task_inv_list [OF inv] boot ready unfolding task_inv_def by auto
  next
    case False
    then have "ring_inv (ys @ (c # xs) @ [t]) s'" and cr: "created trampoline entry t s s'" using res by simp_all
    then have "ring_inv (c # xs @ t # ys) s'" unfolding ring_inv_rotate [of ys] by simp
    then show ?thesis
      using False cr cur s'(3) task_inv_list [OF inv] boot ready unfolding task_inv_def rs(1) created_def by auto
  qed
  moreover have "runs_on c s \<Longrightarrow> runs_on c s'" by (rule runs_on_kept [OF s'(2)]) simp_all
  ultimately show ?thesis using s'(1) cur(2) rs unfolding created_def by (auto split: if_splits)
qed

text \<open>
  C14 \<open>task_create\<close> adds a task that is ready to run. With 16 free frames below 2 MiB it returns 0 with the tasks and the
  heap as before when the heap is at its limit, or the new task, linked in at the end of the
  list with the next id, whose first switch goes to the trampoline with its entry in
  \<open>r12\<close> and an empty stack of 8 KiB; the other tasks keep running state, saved registers
  and place.
\<close>

theorem task_create_ready:
  assumes inv: "task_inv c rs s" and frames: "16 \<le> card {f \<in> free_frames s. f < 512}"
  shows "\<exists>t s'. task_create trampoline entry s = Some (t, s') \<and> cpu s' = cpu s \<and> (runs_on c s \<longrightarrow> runs_on c s') \<and>
    (\<forall>u\<in>set (c # rs). task_status s' u = task_status s u \<and> task_rsp s' u = task_rsp s u) \<and>
    (if t = 0 then task_inv c rs s' \<and> payloads s' = payloads s
     else \<exists>xs ys. rs = xs @ ys \<and> task_list s = hd (ys @ [c]) \<and> task_inv c (xs @ t # ys) s' \<and>
       task_id s' t = next_id s \<and> next_id s' = next_id s + 1 \<and> task_status s' t = TASK_READY \<and>
       saved (mem s') (task_rsp s' t) (fresh_regs trampoline entry (task_stack s' t + 8192)))"
  by (rule task_create_done [OF assms])



section \<open>Rounds of the scheduler\<close>

lemma saved_unique: "saved m sp r \<Longrightarrow> saved m sp r' \<Longrightarrow> r = r'"
  by (cases r; cases r') (simp add: saved_def)

text \<open>
  The tasks with their registers, the running one first: the abstract state of the
  scheduler while no task exits.
\<close>

definition tasks_view :: "'a task_state_scheme \<Rightarrow> (u64 \<times> cpu_regs) list \<Rightarrow> bool" where
  "tasks_view s ps \<longleftrightarrow> (\<exists>c qs. ps = (c, cpu s) # qs \<and> task_inv c (map fst qs) s \<and> runs_on c s \<and>
     task_status s c = TASK_RUNNING \<and>
     (\<forall>(u, r)\<in>set qs. runnable s u \<and> saved (mem s) (task_rsp s u) r))"

lemma yield_rotate1:
  assumes "tasks_view s ps"
  shows "\<exists>s'. yield s = Some s' \<and> tasks_view s' (rotate1 ps)"
proof -
  obtain c qs where ps: "ps = (c, cpu s) # qs" and inv: "task_inv c (map fst qs) s" and run: "runs_on c s"
    and st: "task_status s c = TASK_RUNNING" and qs: "\<forall>(u, r)\<in>set qs. runnable s u \<and> saved (mem s) (task_rsp s u) r"
    using assms unfolding tasks_view_def by blast
  have rdy: "runnable s u" if "u \<in> set (map fst qs)" for u using that qs by auto
  have nd: "filter (\<lambda>t. \<not> dead s t) (map fst qs) = map fst qs"
    using rdy by (intro filter_True) (simp add: dead_def runnable_def)
  show ?thesis
  proof (cases qs)
    case Nil
    obtain s1 where s1: "schedule_reap (task_next s c) s = Some s1" "task_inv c [] s1" "task_kept [c] s s1"
      using schedule_reap_inv [OF inv] nd Nil by auto
    have inv0: "task_inv c [] s" using inv Nil by simp
    have "schedule s = Some s1" using schedule_eq [OF inv0 s1(1,2)] by simp
    moreover have "cpu s1 = cpu s" "task_status s1 c = TASK_RUNNING" "runs_on c s1"
      using s1(3) st task_kept_tcb(1) [OF s1(3)] runs_on_kept [OF s1(3) _ run] by (simp_all add: task_kept_def)
    ultimately show ?thesis using s1(2) by (auto simp: tasks_view_def ps Nil yield_def)
  next
    case (Cons q qs')
    obtain t r where q: "q = (t, r)" by (cases q)
    have split: "filter (\<lambda>t. \<not> dead s t) (map fst qs) = [] @ t # map fst qs'" using nd Cons q by simp
    have t: "runnable s t" using qs Cons q by simp
    obtain s' where s': "schedule s = Some s'" "task_inv t (map fst qs' @ c # []) s'"
      "saved (mem s) (task_rsp s t) (cpu s')" "saved (mem s') (task_rsp s' c) (cpu s)" "task_status s' t = TASK_RUNNING"
      "task_status s' c = TASK_READY" and run': "runs_on t s'"
      and rest: "\<forall>u\<in>set (map fst qs'). task_status s' u = task_status s u \<and>
        (runnable s u \<longrightarrow> (\<forall>r. saved (mem s') (task_rsp s' u) r = saved (mem s) (task_rsp s u) r))"
      using schedule_next [OF inv run split t] st by auto
    have cpu: "cpu s' = r" using saved_unique [OF s'(3)] qs Cons q by simp
    have "runnable s' u \<and> saved (mem s') (task_rsp s' u) r" if "(u, r) \<in> set (qs' @ [(c, cpu s)])" for u r
    proof (cases "(u, r) \<in> set qs'")
      case True
      then have "u \<in> set (map fst qs')" "runnable s u \<and> saved (mem s) (task_rsp s u) r" using qs Cons by force+
      then show ?thesis using rest by (auto simp: runnable_def)
    next
      case False
      then show ?thesis using that s'(4,6) by (simp add: runnable_def)
    qed
    then have "tasks_view s' (rotate1 ps)"
      using s'(2,5) run' cpu unfolding tasks_view_def ps Cons q by auto
    then show ?thesis using s'(1) by (simp add: yield_def)
  qed
qed


text \<open>\<open>n\<close> calls of \<open>yield\<close>, each by the task that runs then.\<close>

primrec yields :: "nat \<Rightarrow> 'a task_state_scheme \<Rightarrow> 'a task_state_scheme option" where
  "yields 0 s = Some s"
| "yields (Suc n) s = do { s \<leftarrow> yield s; yields n s }"

lemma rotate_view: "tasks_view s ps \<Longrightarrow> \<exists>s'. yields n s = Some s' \<and> tasks_view s' (rotate n ps)"
proof (induction n arbitrary: s ps)
  case (Suc n)
  from yield_rotate1 [OF Suc.prems] obtain s1 where s1: "yield s = Some s1" "tasks_view s1 (rotate1 ps)" by blast
  from Suc.IH [OF s1(2)] s1(1) show ?case by (simp add: rotate1_rotate_swap)
qed simp

text \<open>
  C4 \<open>schedule\<close> switches round robin. Called by the running task \<open>c\<close>, with a task among
  the others that is ready, it returns in the first such task \<open>t\<close> of the ring: the registers
  are those saved on the stack of \<open>t\<close>, those of \<open>c\<close> are saved on its own stack, \<open>t\<close> is the
  running task, with room for the next switch, \<open>c\<close> is ready again unless it has exited, and it is last in the order
  after \<open>t\<close> up to the tasks that were passed over. Tasks that exited earlier are gone and
  their control blocks and stacks freed, and nothing else is; the saved registers of the
  tasks that wait are untouched.
\<close>

theorem schedule_round_robin:
  assumes inv: "task_inv c rs s" and run: "runs_on c s"
    and next_task: "filter (\<lambda>t. \<not> dead s t) rs = xs @ t # ys" "runnable s t" "\<forall>u\<in>set xs. \<not> runnable s u"
  shows "\<exists>s'. schedule s = Some s' \<and> task_inv t (ys @ c # xs) s' \<and> runs_on t s' \<and>
    saved (mem s) (task_rsp s t) (cpu s') \<and> saved (mem s') (task_rsp s' c) (cpu s) \<and>
    task_status s' t = TASK_RUNNING \<and>
    task_status s' c = (if task_status s c = TASK_RUNNING then TASK_READY else task_status s c) \<and>
    payloads s' = {(q, l) \<in> payloads s. q \<notin> unat ` set (task_mem (mem s) (filter (dead s) rs))} \<and>
    (\<forall>u\<in>set (xs @ ys). task_status s' u = task_status s u \<and> (runnable s u \<longrightarrow>
       (\<forall>r. saved (mem s') (task_rsp s' u) r = saved (mem s) (task_rsp s u) r)))"
  by (rule schedule_next [OF assms])

text \<open>
  With no other task ready, \<open>schedule\<close> returns to its caller, the tasks that exited
  earlier reaped: the registers, the running task and the other tasks are as before.
\<close>

lemma schedule_alone:
  assumes inv: "task_inv c rs s" and none: "\<forall>u\<in>set rs. \<not> runnable s u"
  shows "\<exists>s'. schedule s = Some s' \<and> task_inv c (filter (\<lambda>t. \<not> dead s t) rs) s' \<and> cpu s' = cpu s \<and>
    task_status s' c = task_status s c \<and>
    payloads s' = {(q, l) \<in> payloads s. q \<notin> unat ` set (task_mem (mem s) (filter (dead s) rs))}"
proof -
  let ?rs = "filter (\<lambda>t. \<not> dead s t) rs"
  obtain s1 where s1: "schedule_reap (task_next s c) s = Some s1" "task_inv c ?rs s1" "task_kept (c # ?rs) s s1"
    "payloads s1 = {(q, l) \<in> payloads s. q \<notin> unat ` set (task_mem (mem s) (filter (dead s) rs))}"
    using schedule_reap_inv [OF inv] .
  have "find (runnable s1) ?rs = None" using none by (subst find_kept [OF s1(3)]) (auto simp: find_None_iff)
  then have "schedule s = Some s1" using schedule_eq [OF inv s1(1,2)] by simp
  then show ?thesis using s1 task_kept_tcb(1) [OF s1(3)] by (auto simp: task_kept_def)
qed

text \<open>
  C13 Tasks that do nothing but \<open>yield\<close> take turns: with the running task and all others
  ready, \<open>n\<close> calls of \<open>yield\<close> return, and rotate the list of tasks with their registers by
  \<open>n\<close> places. In particular each task gets its turn within one round, and resumes with
  exactly the registers it gave up the processor with.
\<close>

theorem yields_rotate:
  assumes "tasks_view s ps"
  shows "\<exists>s'. yields n s = Some s' \<and> tasks_view s' (rotate n ps)"
  by (rule rotate_view [OF assms])

lemma task_inv_outs [simp]: "task_inv c rs (s\<lparr>outs := x\<rparr>) = task_inv c rs s" "runs_on c (s\<lparr>outs := x\<rparr>) = runs_on c s"
  by (simp_all add: task_inv_def runs_on_def on_stack_def)

text \<open>The mark of an exit, seen from the other tasks.\<close>

lemma exit_mark:
  assumes inv: "task_inv c rs s" and run: "runs_on c s"
  defines "s' \<equiv> put32 (c + 16) TASK_DEAD s"
  shows "task_inv c rs s'" "runs_on c s'" "dead s' c" "cpu s' = cpu s" "stacks_kept (c # rs) s s'"
    "\<And>u. u \<in> set rs \<Longrightarrow> task_status s' u = task_status s u \<and> task_rsp s' u = task_rsp s u"
proof -
  have cin: "c \<in> set (c # rs)" by simp
  have d: "c \<notin> set rs" using ring_inv_ring [OF task_inv_ring [OF inv]] by (simp add: ring_def)
  note S = status_put [OF task_inv_ring [OF inv] cin, where v = TASK_DEAD, folded s'_def]
  show "dead s' c" using arg_cong [OF S(4) [OF cin], of tc_status] by (simp add: dead_def)
  show cpu: "cpu s' = cpu s" by (simp add: s'_def put32_def)
  show "stacks_kept (c # rs) s s'" by (rule S(2))
  have o: "current_task s' = current_task s" "task_list s' = task_list s" by (simp_all add: s'_def put32_def)
  show f: "task_status s' u = task_status s u \<and> task_rsp s' u = task_rsp s u" if "u \<in> set rs" for u
  proof -
    have "tcb_at (mem s') u = tcb_at (mem s) u" using S(4) [of u] that d by auto
    then show ?thesis using tcb_fields by blast
  qed
  show "runs_on c s'" using run on_stack_kept [OF S(2) cin] cpu by (simp add: runs_on_def)
  show "task_inv c rs s'"
    unfolding task_inv_def
  proof (intro conjI ballI impI)
    show "ring_inv (c # rs) s'" by (rule S(1))
    show "current_task s' = c" "task_list s' \<in> set (c # rs)" using o task_inv_current [OF inv] task_inv_list [OF inv] by simp_all
    show "t = u" if "t \<in> set (c # rs)" "u \<in> set (c # rs)" "task_stack s' t = 0" "task_stack s' u = 0" for t u
      using task_inv_boot [OF inv that(1,2)] that S(2) unfolding stacks_kept_def by auto
    show "on_stack s' t (task_rsp s' t) 56" if "t \<in> set rs" "task_status s' t = TASK_READY" for t
      using on_stack_kept [OF S(2), of t] task_inv_ready [OF inv that(1)] f [OF that(1)] that by simp
  qed
qed

text \<open>
  C23 \<open>task_exit\<close> never returns to its caller while another task is ready: the first such
  task of the ring runs, with the registers it saved, and the caller stays in the ring,
  dead, for a later \<open>schedule\<close> to free.
\<close>

theorem task_exit_switches:
  assumes inv: "task_inv c rs s" and run: "runs_on c s"
    and next_task: "filter (\<lambda>t. \<not> dead s t) rs = xs @ t # ys" "runnable s t" "\<forall>u\<in>set xs. \<not> runnable s u"
  shows "\<exists>s'. task_exit s = Some s' \<and> task_inv t (ys @ c # xs) s' \<and> runs_on t s' \<and> dead s' c \<and>
    saved (mem s) (task_rsp s t) (cpu s')"
proof -
  define s0 where "s0 = (let s = serial_write ''task: exit id='' s; s = serial_write_dec_u64 (task_id s (current_task s)) s
    in serial_write ''\<newline>'' s)"
  have "s0 = s\<lparr>outs := outs s0\<rparr>" by (simp add: s0_def Let_def print_eqs)
  then obtain o0 where s0: "s0 = s\<lparr>outs := o0\<rparr>" by blast
  have i0: "task_inv c rs s0" "runs_on c s0" using inv run by (simp_all add: s0)
  define s1 where "s1 = put32 (c + 16) TASK_DEAD s0"
  note E = exit_mark [OF i0, folded s1_def]
  have ex: "task_exit s = schedule s1"
    using task_inv_current [OF i0(1)] by (simp add: task_exit_def s1_def s0_def Let_def)
  have f: "dead s1 u = dead s u" "runnable s1 u = runnable s u" "task_rsp s1 u = task_rsp s u" if "u \<in> set rs" for u
    using E(6) [OF that] by (simp_all add: dead_def runnable_def s0)
  have sub: "set (xs @ t # ys) \<subseteq> set rs" unfolding next_task(1) [symmetric] by auto
  have n1: "filter (\<lambda>t. \<not> dead s1 t) rs = xs @ t # ys" using f(1) next_task(1) by (metis (mono_tags, lifting) filter_cong)
  have n2: "runnable s1 t" "\<forall>u\<in>set xs. \<not> runnable s1 u" using f(2) next_task(2,3) sub by auto
  obtain s' where s': "schedule s1 = Some s'" "task_inv t (ys @ c # xs) s'" "runs_on t s'" "saved (mem s1) (task_rsp s1 t) (cpu s')"
    "task_status s' c = (if task_status s1 c = TASK_RUNNING then TASK_READY else task_status s1 c)"
    using schedule_next [OF E(1,2) n1 n2] by blast
  have t: "t \<in> set rs" "t \<in> set (c # rs)" using sub by simp_all
  have "on_stack s0 t (task_rsp s0 t) 56"
    using task_inv_ready [OF i0(1), of t] next_task(2) t(1) by (simp add: s0 runnable_def)
  from saved_kept [OF E(5) t(2) this] have "saved (mem s) (task_rsp s t) (cpu s')"
    using s'(4) f(3) [OF t(1)] by (simp add: s0)
  then show ?thesis using s' ex E(3) by (auto simp: dead_def)
qed

lemma task_init_done:
  assumes ok: "heap_ok s" "kmalloc_room 40 s"
    and boot_stack: "56 \<le> unat (rsp (cpu s))" "unat (rsp (cpu s)) \<le> 0x200000" "\<forall>i<56. static_byte s (rsp (cpu s) - 56 + of_nat i)"
  shows "\<exists>p s' s1. kmalloc 40 s = Some (p, s1) \<and> task_init s = Some s' \<and> cpu s' = cpu s \<and>
    (if p = 0 then current_task s' = current_task s \<and> task_list s' = task_list s \<and> payloads s' = payloads s
     else task_inv p [] s' \<and> runs_on p s' \<and> task_status s' p = TASK_RUNNING \<and> task_id s' p = next_id s \<and>
       payloads s' = payloads s1 \<and> heap_blocks s' = heap_blocks s1 \<and> free_frames s' = free_frames s1)"
proof (rule kmalloc_keeps [OF ok])
  fix p s1
  assume s1: "kmalloc 40 s = Some (p, s1)" "heap_ok s1" "same_but_heap s s1"
    and st: "\<And>x. static_byte s x \<Longrightarrow> static_byte s1 x \<and> mem s1 x = mem s x"
    and p0: "p = 0 \<Longrightarrow> payloads s1 = payloads s" and p1: "p \<noteq> 0 \<Longrightarrow> owns s1 p (unat (40 :: u64))"
  note same = same_but_heap_fields [OF s1(3)]
  show ?thesis
  proof (cases "p = 0")
    case True
    let ?s = "serial_write ''task: failed to allocate boot task\<newline>'' s1"
    have "?s = s1\<lparr>outs := outs ?s\<rparr>" by (simp add: print_eqs)
    then obtain o1 where "?s = s1\<lparr>outs := o1\<rparr>" by blast
    then show ?thesis using s1(1) True p0 same by (auto simp: task_init_def)
  next
    case False
    have own: "owns s1 p 40" using p1 False by simp
    define m where "m = store64 (store64 (store32 (store64 (store64 (mem s1) p (next_id s)) (p + 8) 0) (p + 16) TASK_RUNNING) (p + 24) 0) (p + 32) p"
    define s2 where "s2 = s1\<lparr>mem := m\<rparr>"
    define s3 where "s3 = s1\<lparr>next_id := next_id s + 1, mem := m, current_task := p, task_list := p\<rparr>"
    have s3: "s3 = s2\<lparr>next_id := next_id s + 1, current_task := p, task_list := p\<rparr>"
      by (cases s1) (simp add: s3_def s2_def)
    define s4 where "s4 = (let s = serial_write ''task: boot task id='' s3; s = serial_write_dec_u64 (task_id s p) s in serial_write ''\<newline>'' s)"
    have "s4 = s3\<lparr>outs := outs s4\<rparr>" by (simp add: s4_def Let_def print_eqs)
    then obtain o4 where s4: "s4 = s3\<lparr>outs := o4\<rparr>" by blast
    have e: "task_init s = Some s4"
      using s1(1) False same by (simp add: task_init_def s4_def s3_def m_def Let_def put64_def put32_def)
    have w: "writes_in p 40 (mem s1) m"
      unfolding m_def by (rule writes_in_trans [OF writes_in_trans [OF writes_in_trans [OF writes_in_trans [OF
        tcb_writes(1) tcb_writes(2)] tcb_writes(3)] tcb_writes(4)] tcb_writes(5)]; rule s1(2) own)
    note W = owns_write [OF s1(2) own w, folded s2_def]
    have tc: "tcb_at m p = \<lparr>tc_id = next_id s, tc_rsp = 0, tc_status = TASK_RUNNING, tc_stack = 0, tc_next = p\<rparr>"
      unfolding m_def tcb_store by (simp add: tcb_at_def)
    have f: "task_next s4 p = p" "task_stack s4 p = 0" "task_status s4 p = TASK_RUNNING" "task_id s4 p = next_id s"
      using arg_cong [OF tc, of tc_next] arg_cong [OF tc, of tc_stack] arg_cong [OF tc, of tc_status] arg_cong [OF tc, of tc_id]
      by (simp_all add: s4 s3 s2_def)
    have h: "heap_ok s4" "owns s4 p 40" "payloads s4 = payloads s1" "\<And>x. static_byte s x \<Longrightarrow> static_byte s4 x"
      "cpu s4 = cpu s" "current_task s4 = p" "task_list s4 = p"
      "heap_blocks s4 = heap_blocks s1" "free_frames s4 = free_frames s1"
      using W own st same by (simp_all add: s4 s3 heap_blocks_def free_frames_def frame_used_def) (simp_all add: s2_def)
    have "task_inv p [] s4" using h f by (simp add: task_inv_def ring_inv_def ring_def)
    moreover have "runs_on p s4"
      using boot_stack h(4,5) f(2) unfolding runs_on_def on_stack_def by (simp add: unat_sub word_le_nat_alt)
    ultimately show ?thesis using s1(1) e False h f by auto
  qed
qed simp

text \<open>
  C35 \<open>task_init\<close> turns the code that calls it into the boot task, alone in the ring and
  running, with the stack it is on; when there is no memory for the control block nothing
  but the serial log changes.
\<close>

theorem task_init_establishes:
  assumes ok: "heap_ok s" "kmalloc_room 40 s"
    and boot_stack: "56 \<le> unat (rsp (cpu s))" "unat (rsp (cpu s)) \<le> 0x200000" "\<forall>i<56. static_byte s (rsp (cpu s) - 56 + of_nat i)"
  shows "\<exists>p s' s1. kmalloc 40 s = Some (p, s1) \<and> task_init s = Some s' \<and> cpu s' = cpu s \<and>
    (if p = 0 then current_task s' = current_task s \<and> task_list s' = task_list s \<and> payloads s' = payloads s
     else task_inv p [] s' \<and> runs_on p s' \<and> task_status s' p = TASK_RUNNING \<and> task_id s' p = next_id s \<and>
       payloads s' = payloads s1)"
  using task_init_done [OF assms] by fastforce



section \<open>A machine with two tasks\<close>

text \<open>The boot task on a stack below the end of the kernel, and one task created by it, for the witnesses.\<close>

definition boot_regs :: cpu_regs where
  "boot_regs = \<lparr>rbx = 1, rbp = 2, r12 = 3, r13 = 4, r14 = 5, r15 = 6, rsp = 0x128000, rip = 0x100800\<rparr>"

definition cold_task :: task_state where
  "cold_task = kheap_state.extend cold_kheap
     \<lparr>next_id = 0, current_task = 0, task_list = 0, cpu = boot_regs, interrupts_on = False\<rparr>"

definition boot_task :: task_state where
  "boot_task = (kheap_init (vmm_init (boot_pmm cold_task)))\<lparr>cpu := boot_regs\<rparr>"

lemma boot_task_facts: "heap_inv [(65536, True)] boot_task" "139 \<le> card {f \<in> free_frames boot_task. f < 512}"
  "\<And>x. unat x < 304 * 4096 \<Longrightarrow> static_byte boot_task x" "cpu boot_task = boot_regs"
proof -
  have wf: "pmm_wf cold_task"
    by (simp add: cold_task_def cold_kheap_def cold_vmm_def cold_pmm_def pmm_wf_def pmm_state.defs vmm_state.defs kheap_state.defs)
  note B = boot_heap_facts [OF wf]
  show "heap_inv [(65536, True)] boot_task"
    using heap_view [of boot_task "kheap_init (vmm_init (boot_pmm cold_task))"] B(1) by (simp add: boot_task_def)
  show "139 \<le> card {f \<in> free_frames boot_task. f < 512}"
    using B(2) by (simp add: boot_task_def free_frames_def frame_used_def)
  show "static_byte boot_task x" if "unat x < 304 * 4096" for x using B(3) [OF that] by (simp add: boot_task_def)
  show "cpu boot_task = boot_regs" by (simp add: boot_task_def)
qed

lemma boot_task_ok: "heap_ok boot_task" "payloads boot_task = {}" "heap_blocks boot_task = [(65536, True)]"
  using heap_inv_ok [OF boot_task_facts(1)] heap_inv_blocks [OF boot_task_facts(1)] by simp_all

lemma boot_task_stack:
  "56 \<le> unat (rsp (cpu boot_task))" "unat (rsp (cpu boot_task)) \<le> 0x200000"
  "\<forall>i<56. static_byte boot_task (rsp (cpu boot_task) - 56 + of_nat i)"
proof -
  show "56 \<le> unat (rsp (cpu boot_task))" "unat (rsp (cpu boot_task)) \<le> 0x200000" by (simp_all add: boot_task_facts(4) boot_regs_def)
  show "\<forall>i<56. static_byte boot_task (rsp (cpu boot_task) - 56 + of_nat i)"
  proof (intro allI impI boot_task_facts(3))
    fix i :: nat assume "i < 56"
    then have "unat (0x127FC8 + of_nat i :: u64) = 0x127FC8 + i" using unat_add_of_nat [of "0x127FC8 :: u64" i] by simp
    then show "unat (rsp (cpu boot_task) - 56 + of_nat i) < 304 * 4096"
      using \<open>i < 56\<close> by (simp add: boot_task_facts(4) boot_regs_def)
  qed
qed

lemma boot_task_malloc: "\<exists>s. kmalloc 40 boot_task = Some (0x200010, s)"
proof -
  have "heap_alloc (need_bytes 40) [(65536, True)] = Some (0x200000, [(56, False), (65480, True)])"
    by (simp add: heap_alloc_def need_bytes_def take_block_def)
  then show ?thesis
    using kmalloc_outcome [OF boot_task_facts(1), of 40] by (auto simp: heap_room_def need_bytes_def)
qed

theorem task_init_establishes_witness:
  "\<exists>s'. task_init boot_task = Some s' \<and> task_inv 0x200010 [] s' \<and> runs_on 0x200010 s' \<and> cpu s' = boot_regs"
proof -
  have r: "kmalloc_room 40 boot_task"
    by (rule kmalloc_room_frames) (use boot_task_facts(2) in \<open>simp_all add: expand_bytes_def need_bytes_def\<close>)
  from task_init_establishes [OF boot_task_ok(1) r boot_task_stack] boot_task_malloc boot_task_facts(4) show ?thesis by auto
qed



lemma one_task:
  obtains s where "task_init boot_task = Some s" "task_inv 0x200010 [] s" "runs_on 0x200010 s"
    "task_status s 0x200010 = TASK_RUNNING" "heap_blocks s = [(56, False), (65480, True)]"
    "16 \<le> card {f \<in> free_frames s. f < 512}" "cpu s = boot_regs"
proof -
  have r: "kmalloc_room 40 boot_task"
    by (rule kmalloc_room_frames) (use boot_task_facts(2) in \<open>simp_all add: expand_bytes_def need_bytes_def\<close>)
  have "heap_alloc (need_bytes 40) [(65536, True)] = Some (0x200000, [(56, False), (65480, True)])"
    by (simp add: heap_alloc_def need_bytes_def take_block_def)
  then obtain s1 where s1: "kmalloc 40 boot_task = Some (0x200010, s1)" "heap_inv [(56, False), (65480, True)] s1"
    using kmalloc_outcome [OF boot_task_facts(1), of 40] by (auto simp: heap_room_def need_bytes_def malloc_done_def)
  have "16 \<le> card {f \<in> free_frames s1. f < 512}"
    using kmalloc_frames [OF boot_task_ok(1) r s1(1)] boot_task_facts(2) by (simp add: expand_bytes_def need_bytes_def)
  with task_init_done [OF boot_task_ok(1) r boot_task_stack] s1 heap_inv_blocks [OF s1(2)] boot_task_facts(4)
  obtain s where "task_init boot_task = Some s" "task_inv 0x200010 [] s" "runs_on 0x200010 s"
    "task_status s 0x200010 = TASK_RUNNING" "heap_blocks s = [(56, False), (65480, True)]"
    "16 \<le> card {f \<in> free_frames s. f < 512}" "cpu s = boot_regs" by auto
  then show thesis by (rule that)
qed

theorem task_create_ready_witness:
  "\<exists>s t s'. task_init boot_task = Some s \<and> task_create 0x100F00 0x100E00 s = Some (t, s') \<and>
     (t \<noteq> 0 \<longrightarrow> task_inv 0x200010 [t] s' \<and> task_status s' t = TASK_READY)"
proof -
  obtain s where s: "task_init boot_task = Some s" "task_inv 0x200010 [] s" "16 \<le> card {f \<in> free_frames s. f < 512}"
    by (rule one_task, rule that)
  from task_create_ready [OF s(2,3), of "0x100F00" "0x100E00"] s(1) show ?thesis by fastforce
qed

text \<open>With memory on the heap, \<open>task_create\<close> succeeds.\<close>

lemma task_create_nonzero:
  assumes "kmalloc 40 s = Some (p, s1)" "p \<noteq> 0" "kmalloc 8192 s1 = Some (q, s2)" "q \<noteq> 0"
    and "task_create trampoline entry s = Some (t, s')"
  shows "t = p"
  using assms by (auto simp: task_create_def task_frame_eq Let_def bind_eq_Some_conv)

lemma two_tasks:
  obtains s :: task_state where "task_inv 0x200010 [0x200048] s" "runs_on 0x200010 s" "task_status s 0x200010 = TASK_RUNNING"
    "runnable s 0x200048" "cpu s = boot_regs" "saved (mem s) (task_rsp s 0x200048) (fresh_regs 0x100F00 0x100E00 (task_stack s 0x200048 + 8192))"
proof -
  obtain s where "task_init boot_task = Some s" and s: "task_inv 0x200010 [] s" "runs_on 0x200010 s" "task_status s 0x200010 = TASK_RUNNING"
    "heap_blocks s = [(56, False), (65480, True)]" "16 \<le> card {f \<in> free_frames s. f < 512}" "cpu s = boot_regs"
    by (rule one_task)
  have e: "heap_alloc (need_bytes 40) [(56, False), (65480, True)] = Some (0x200038, [(56, False), (56, False), (65424, True)])"
    "heap_alloc (need_bytes 8192) [(56, False), (56, False), (65424, True)] =
       Some (0x200070, [(56, False), (56, False), (8208, False), (57216, True)])"
    by (simp_all add: heap_alloc_def need_bytes_def take_block_def)
  have inv: "heap_inv [(56, False), (65480, True)] s"
    using ring_inv_heap [OF task_inv_ring [OF s(1)]] s(4) by (simp add: heap_ok_def)
  obtain s1 where s1: "kmalloc 40 s = Some (0x200048, s1)" "heap_inv [(56, False), (56, False), (65424, True)] s1"
    using kmalloc_outcome [OF inv, of 40] e by (auto simp: heap_room_def need_bytes_def malloc_done_def)
  obtain s2 where s2: "kmalloc 8192 s1 = Some (0x200080, s2)"
    using kmalloc_outcome [OF s1(2), of 8192] e by (auto simp: heap_room_def need_bytes_def malloc_done_def)
  from task_create_done [OF s(1,5), of "0x100F00" "0x100E00"] obtain t s' where
    t: "task_create 0x100F00 0x100E00 s = Some (t, s')" "cpu s' = cpu s" "runs_on 0x200010 s'"
      "task_status s' 0x200010 = task_status s 0x200010"
    and res: "t \<noteq> 0 \<Longrightarrow> task_inv 0x200010 [t] s' \<and> task_status s' t = TASK_READY \<and>
      saved (mem s') (task_rsp s' t) (fresh_regs 0x100F00 0x100E00 (task_stack s' t + 8192))"
    using s(2) by fastforce
  have "t = 0x200048" by (rule task_create_nonzero [OF s1(1) _ s2 _ t(1)]) simp_all
  then show thesis using that [of s'] res t s(3,6) by (simp add: runnable_def)
qed

theorem schedule_round_robin_witness:
  "\<exists>(s :: task_state) s'. schedule s = Some s' \<and> task_inv 0x200048 [0x200010] s' \<and> saved (mem s') (task_rsp s' 0x200010) boot_regs"
proof -
  obtain s :: task_state where s: "task_inv 0x200010 [0x200048] s" "runs_on 0x200010 s" "task_status s 0x200010 = TASK_RUNNING"
    "runnable s 0x200048" "cpu s = boot_regs" "saved (mem s) (task_rsp s 0x200048) (fresh_regs 0x100F00 0x100E00 (task_stack s 0x200048 + 8192))"
    by (rule two_tasks)
  have split: "filter (\<lambda>t. \<not> dead s t) [0x200048] = [] @ 0x200048 # []" using s(4) by (simp add: dead_def runnable_def)
  from schedule_round_robin [OF s(1,2) split s(4)] s(5) show ?thesis by auto
qed

theorem yields_rotate_witness:
  "\<exists>(s :: task_state) s' r. tasks_view s [(0x200010, boot_regs), (0x200048, r)] \<and> yields 2 s = Some s' \<and>
     tasks_view s' [(0x200010, boot_regs), (0x200048, r)]"
proof -
  obtain s :: task_state where s: "task_inv 0x200010 [0x200048] s" "runs_on 0x200010 s" "task_status s 0x200010 = TASK_RUNNING"
    "runnable s 0x200048" "cpu s = boot_regs" "saved (mem s) (task_rsp s 0x200048) (fresh_regs 0x100F00 0x100E00 (task_stack s 0x200048 + 8192))"
    by (rule two_tasks)
  let ?r = "fresh_regs 0x100F00 0x100E00 (task_stack s 0x200048 + 8192)"
  have v: "tasks_view s [(0x200010, boot_regs), (0x200048, ?r)]"
    unfolding tasks_view_def by (intro exI [of _ "0x200010"] exI [of _ "[(0x200048, ?r)]"]) (use s in simp)
  moreover have "rotate 2 [(0x200010 :: u64, boot_regs), (0x200048, ?r)] = [(0x200010, boot_regs), (0x200048, ?r)]"
    by (simp add: numeral_2_eq_2)
  ultimately show ?thesis using yields_rotate [OF v, of 2] by auto
qed

theorem task_exit_switches_witness:
  "\<exists>(s :: task_state) s'. task_exit s = Some s' \<and> task_inv 0x200048 [0x200010] s' \<and> dead s' 0x200010"
proof -
  obtain s :: task_state where s: "task_inv 0x200010 [0x200048] s" "runs_on 0x200010 s" "task_status s 0x200010 = TASK_RUNNING"
    "runnable s 0x200048" "cpu s = boot_regs" "saved (mem s) (task_rsp s 0x200048) (fresh_regs 0x100F00 0x100E00 (task_stack s 0x200048 + 8192))"
    by (rule two_tasks)
  have split: "filter (\<lambda>t. \<not> dead s t) [0x200048] = [] @ 0x200048 # []" using s(4) by (simp add: dead_def runnable_def)
  from task_exit_switches [OF s(1,2) split s(4)] show ?thesis by auto
qed


end
