(* ===== verification/Ramfs.thy ===== *)
theory Ramfs
  imports Scheduler
begin
text \<open>
  The RAM file system, \<open>ramfs.c\<close>: a linked list of file nodes on the heap, each with a
  name of at most 63 characters and a copy of the file's data.
\<close>

section \<open>Data\<close>

text \<open>
  A C string is the list of its bytes up to the terminating zero; \<open>cstr\<close> is a literal.
\<close>

type_synonym cstring = "u8 list"

definition cstr :: "string \<Rightarrow> cstring" where
  "cstr str = map of_char str"

abbreviation (input) RAMFS_NAME_MAX :: u32 where "RAMFS_NAME_MAX \<equiv> 64"

record ramfs_state = task_state +
  file_list :: u64

text \<open>\<open>struct ramfs_file\<close>: \<open>name\<close> at 0, \<open>data\<close> at 64, \<open>size\<close> at 72, \<open>next\<close> at 80.\<close>

abbreviation (input) sizeof_ramfs_file :: u64 where "sizeof_ramfs_file \<equiv> 88"

abbreviation file_data :: "'a machine_scheme \<Rightarrow> u64 \<Rightarrow> u64" where "file_data s f \<equiv> get64 s (f + 64)"
abbreviation file_size :: "'a machine_scheme \<Rightarrow> u64 \<Rightarrow> u64" where "file_size s f \<equiv> get64 s (f + 72)"
abbreviation file_next :: "'a machine_scheme \<Rightarrow> u64 \<Rightarrow> u64" where "file_next s f \<equiv> get64 s (f + 80)"

text \<open>Reading a string from memory, as \<open>serial_write\<close> does with a name.\<close>

partial_function (option) read_cstr :: "memory \<Rightarrow> u64 \<Rightarrow> cstring option" where
  "read_cstr m a =
     (if m a = 0 then Some []
      else do { cs \<leftarrow> read_cstr m (a + 1); Some (m a # cs) })"

definition serial_write_cstr :: "cstring \<Rightarrow> 'a machine_scheme \<Rightarrow> 'a machine_scheme" where
  "serial_write_cstr cs s = serial_write (map (\<lambda>b. char_of (unat b)) cs) s"


section \<open>Operations\<close>

text \<open>\<open>str_eq\<close>, of the string in memory at \<open>a\<close> and the string \<open>b\<close>.\<close>

fun str_eq :: "memory \<Rightarrow> u64 \<Rightarrow> cstring \<Rightarrow> bool" where
  "str_eq m a [] \<longleftrightarrow> m a = 0"
| "str_eq m a (c # b) \<longleftrightarrow> m a \<noteq> 0 \<and> m a = c \<and> str_eq m (a + 1) b"

definition ramfs_init :: "'a ramfs_state_scheme \<Rightarrow> 'a ramfs_state_scheme" where
  "ramfs_init s = serial_write ''[ramfs] initialized\<newline>'' (s\<lparr>file_list := 0\<rparr>)"

text \<open>The copy of the name, with the number of characters copied.\<close>

fun copy_name :: "u64 \<Rightarrow> u32 \<Rightarrow> cstring \<Rightarrow> 'a machine_scheme \<Rightarrow> u32 \<times> 'a machine_scheme" where
  "copy_name f i [] s = (i, s)"
| "copy_name f i (c # cs) s =
     (if i < RAMFS_NAME_MAX - 1 then copy_name f (i + 1) cs (put8 (f + ucast i) c s) else (i, s))"

definition copy_bytes :: "u64 \<Rightarrow> u64 \<Rightarrow> u64 \<Rightarrow> 'a machine_scheme \<Rightarrow> 'a machine_scheme" where
  "copy_bytes dst src n s = word_for 0 n (\<lambda>j s. put8 (dst + j) (mem s (src + j)) s) s"

definition ramfs_create :: "cstring \<Rightarrow> u64 \<Rightarrow> u64 \<Rightarrow> 'a ramfs_state_scheme \<Rightarrow> (u64 \<times> 'a ramfs_state_scheme) option" where
  "ramfs_create name data sz s = do {
     (f, s) \<leftarrow> kmalloc sizeof_ramfs_file s;
     if f = 0 then Some (0, serial_write ''[ramfs] failed to allocate file node\<newline>'' s)
     else do {
       let (i, s) = copy_name f 0 name s;
       let s = put8 (f + ucast i) 0 s;
       (d, s) \<leftarrow> kmalloc sz s;
       let s = put64 (f + 64) d s;
       if file_data s f = 0
       then do {
         s \<leftarrow> kfree f (serial_write ''[ramfs] failed to allocate file data\<newline>'' s);
         Some (0, s)
       }
       else do {
         let s = copy_bytes (file_data s f) data sz s;
         let s = put64 (f + 72) sz s;
         let s = put64 (f + 80) (file_list s) s;
         let s = s\<lparr>file_list := f\<rparr>;
         let s = serial_write (''[ramfs] created '' @ [CHR 0x27]) s;
         n \<leftarrow> read_cstr (mem s) f;
         let s = serial_write_cstr n s;
         let s = serial_write (CHR 0x27 # '' size='') s;
         let s = serial_write_dec_u64 sz s;
         Some (f, serial_write ''\<newline>'' s)
       }
     }
   }"

partial_function (option) ramfs_find_from :: "cstring \<Rightarrow> u64 \<Rightarrow> 'a ramfs_state_scheme \<Rightarrow> u64 option" where
  "ramfs_find_from name f s =
     (if f = 0 then Some 0
      else if str_eq (mem s) f name then Some f
      else ramfs_find_from name (file_next s f) s)"

definition ramfs_find :: "cstring \<Rightarrow> 'a ramfs_state_scheme \<Rightarrow> u64 option" where
  "ramfs_find name s = ramfs_find_from name (file_list s) s"

partial_function (option) ramfs_list_from ::
  "u64 \<Rightarrow> u32 \<Rightarrow> 'a ramfs_state_scheme \<Rightarrow> (u32 \<times> 'a ramfs_state_scheme) option" where
  "ramfs_list_from f count s =
     (if f = 0 then Some (count, s)
      else do {
        let s = serial_write ''  '' s;
        n \<leftarrow> read_cstr (mem s) f;
        let s = serial_write_cstr n s;
        let s = serial_write ''  '' s;
        let s = serial_write_dec_u64 (file_size s f) s;
        let s = serial_write '' bytes\<newline>'' s;
        ramfs_list_from (file_next s f) (count + 1) s
      })"

definition ramfs_list :: "'a ramfs_state_scheme \<Rightarrow> 'a ramfs_state_scheme option" where
  "ramfs_list s = do {
     let s = serial_write ''[ramfs] listing files:\<newline>'' s;
     (count, s) \<leftarrow> ramfs_list_from (file_list s) 0 s;
     let s = serial_write ''[ramfs] total: '' s;
     let s = serial_write_dec_u64 (ucast count) s;
     Some (serial_write '' files\<newline>'' s)
   }"


end
