(* ===== verification/Bytes.thy ===== *)
theory Bytes
  imports Machine
begin
text \<open>
  Loops that write a range of memory byte by byte, as the copies of \<open>ramfs.c\<close> and \<open>elf.c\<close>
  do, in closed form.
\<close>

lemma range_iff:
  fixes a x :: u64
  assumes "unat a + n \<le> 2 ^ 63"
  shows "unat (x - a) < n \<longleftrightarrow> unat a \<le> unat x \<and> unat x < unat a + n"
  using assms unat_lt2p [of x] unat_lt2p [of a] by (subst unat_sub_if') (auto simp: word_le_nat_alt)

definition overlay :: "u64 \<Rightarrow> nat \<Rightarrow> (u64 \<Rightarrow> u8) \<Rightarrow> memory \<Rightarrow> memory" where
  "overlay dst n h m = (\<lambda>x. if unat (x - dst) < n then h (x - dst) else m x)"

lemma overlay_at: "i < n \<Longrightarrow> n \<le> 2 ^ 64 \<Longrightarrow> overlay dst n h m (dst + of_nat i) = h (of_nat i)"
  by (simp add: overlay_def unat_of_nat_small)

lemma overlay_outside: "n \<le> unat (x - dst) \<Longrightarrow> overlay dst n h m x = m x"
  by (simp add: overlay_def)

lemma overlay_Suc:
  assumes "k < 2 ^ 64"
  shows "(overlay dst k h m)(dst + of_nat k := h (of_nat k)) = overlay dst (Suc k) h m"
proof
  fix x
  have u: "unat (of_nat k :: u64) = k" using assms by (simp add: unat_of_nat_small)
  have "x = dst + of_nat k \<longleftrightarrow> x - dst = of_nat k" by (auto simp: algebra_simps)
  also have "\<dots> \<longleftrightarrow> unat (x - dst) = k" by (simp add: word_unat_eq_iff u)
  finally have "x = dst + of_nat k \<longleftrightarrow> unat (x - dst) = k" .
  then show "((overlay dst k h m)(dst + of_nat k := h (of_nat k))) x = overlay dst (Suc k) h m x"
    by (auto simp: overlay_def less_Suc_eq)
qed

lemma byte_loop:
  fixes n :: u64
  assumes g: "\<And>k m. k < unat n \<Longrightarrow> (\<forall>x. unat n \<le> unat (x - dst) \<longrightarrow> m x = mem s x) \<Longrightarrow> g m (of_nat k) = h (of_nat k)"
  shows "word_for 0 n (\<lambda>j s. put8 (dst + j) (g (mem s) j) s) s = s\<lparr>mem := overlay dst (unat n) h (mem s)\<rparr>"
proof -
  let ?f = "\<lambda>k s. put8 (dst + of_nat k) (g (mem s) (of_nat k)) s"
  have "fold ?f [0..<k] s = s\<lparr>mem := overlay dst k h (mem s)\<rparr>" if "k \<le> unat n" for k
    using that
  proof (induction k)
    case 0
    then show ?case by (simp add: overlay_def)
  next
    case (Suc k)
    have k: "k < 2 ^ 64" using Suc.prems unat_lt2p [of n] by simp
    have "g (overlay dst k h (mem s)) (of_nat k) = h (of_nat k)"
      by (rule g) (use Suc.prems in \<open>simp_all add: overlay_def\<close>)
    then show ?case using Suc overlay_Suc [OF k] by (simp add: put8_def)
  qed
  then show ?thesis by (simp add: word_for_fold)
qed

lemma copy_loop:
  fixes n :: u64
  assumes "\<And>k. k < unat n \<Longrightarrow> unat n \<le> unat (src + of_nat k - dst)"
  shows "word_for 0 n (\<lambda>j s. put8 (dst + j) (mem s (src + j)) s) s =
    s\<lparr>mem := overlay dst (unat n) (\<lambda>j. mem s (src + j)) (mem s)\<rparr>"
  by (rule byte_loop [where g = "\<lambda>m j. m (src + j)"]) (use assms in blast)

lemma fill_loop:
  "word_for 0 n (\<lambda>j. put8 (dst + j) v) s = s\<lparr>mem := overlay dst (unat n) (\<lambda>_. v) (mem s)\<rparr>" for n :: u64
  by (rule byte_loop [where g = "\<lambda>_ _. v"]) simp


end
