(* ===== verification/File_Store.thy ===== *)
theory File_Store
  imports Ramfs Bytes
begin
text \<open>
  What the file system promises: the list of nodes on the heap stands for a list of names
  with contents; \<open>ramfs_create\<close> puts a file in front of it, and \<open>ramfs_find\<close> returns the
  first file of a name.
\<close>

section \<open>Names\<close>

text \<open>The string \<open>cs\<close> is stored at \<open>a\<close>, with its terminating zero.\<close>

definition holds_name :: "memory \<Rightarrow> u64 \<Rightarrow> cstring \<Rightarrow> bool" where
  "holds_name m a cs \<longleftrightarrow> 0 \<notin> set cs \<and> (\<forall>i<length cs. m (a + of_nat i) = cs ! i) \<and> m (a + of_nat (length cs)) = 0"

lemma holds_name_Nil [simp]: "holds_name m a [] \<longleftrightarrow> m a = 0"
  by (simp add: holds_name_def)

lemma holds_name_Cons [simp]: "holds_name m a (c # cs) \<longleftrightarrow> c \<noteq> 0 \<and> m a = c \<and> holds_name m (a + 1) cs"
  by (auto simp: holds_name_def All_less_Suc2 add.assoc)

text \<open>\<open>str_eq\<close> is equality of strings.\<close>

lemma str_eq_holds:
  "holds_name m a cs \<Longrightarrow> 0 \<notin> set b \<Longrightarrow> str_eq m a b \<longleftrightarrow> cs = b"
proof (induction b arbitrary: a cs)
  case Nil
  then show ?case by (cases cs) auto
next
  case (Cons c b)
  then show ?case by (cases cs) auto
qed

lemma read_cstr_holds: "holds_name m a cs \<Longrightarrow> read_cstr m a = Some cs"
proof (induction cs arbitrary: a)
  case Nil
  then show ?case by (subst read_cstr.simps) simp
next
  case (Cons c cs)
  then show ?case by (subst read_cstr.simps) auto
qed

lemma holds_name_cong:
  assumes "\<And>i. i \<le> length cs \<Longrightarrow> m' (a + of_nat i) = m (a + of_nat i)"
  shows "holds_name m' a cs = holds_name m a cs"
  using assms by (auto simp: holds_name_def)

text \<open>The loop that copies the name writes at most 63 bytes.\<close>

definition name_mem :: "u64 \<Rightarrow> nat \<Rightarrow> cstring \<Rightarrow> memory \<Rightarrow> memory" where
  "name_mem f i cs m =
     (\<lambda>x. if i \<le> unat (x - f) \<and> unat (x - f) < min 63 (i + length cs) then cs ! (unat (x - f) - i) else m x)"

lemma name_mem_same: "cs = [] \<or> 63 \<le> i \<Longrightarrow> name_mem f i cs m = m"
  by (auto simp: name_mem_def fun_eq_iff)

lemma copy_name_spec:
  assumes "i \<le> 63"
  shows "copy_name f (of_nat i) cs s = (of_nat (min 63 (i + length cs)), s\<lparr>mem := name_mem f i cs (mem s)\<rparr>)"
  using assms
proof (induction cs arbitrary: i s)
  case Nil
  then show ?case by (simp add: name_mem_same)
next
  case (Cons c cs)
  show ?case
  proof (cases "i < 63")
    case True
    then have lt: "(of_nat i :: u32) < 63" by (simp add: word_less_nat_alt unat_of_nat_small)
    have u: "unat (of_nat i :: u64) = i" using True by (simp add: unat_of_nat_small)
    have uc: "(ucast (of_nat i :: u32) :: u64) = of_nat i" using True by (intro ucast_of_nat_small) simp
    have x: "x = f + of_nat i \<longleftrightarrow> unat (x - f) = i" for x
    proof -
      have "x = f + of_nat i \<longleftrightarrow> x - f = of_nat i" by (auto simp: algebra_simps)
      then show ?thesis by (simp add: word_unat_eq_iff u)
    qed
    have "copy_name f (of_nat i) (c # cs) s = copy_name f (of_nat (Suc i)) cs (put8 (f + of_nat i) c s)"
      using lt by (simp add: uc add.commute)
    also note Cons.IH [of "Suc i"]
    also have "name_mem f (Suc i) cs (mem (put8 (f + of_nat i) c s)) = name_mem f i (c # cs) (mem s)"
      using True by (auto simp: name_mem_def x fun_eq_iff nth_Cons' le_eq_less_or_eq)
    finally show ?thesis using True by (simp add: put8_def)
  next
    case False
    then have "i = 63" using Cons.prems by simp
    then show ?thesis by (simp add: name_mem_same)
  qed
qed



section \<open>The list of files\<close>

definition is_file :: "'a kheap_state_scheme \<Rightarrow> u64 \<Rightarrow> cstring \<Rightarrow> u8 list \<Rightarrow> bool" where
  "is_file s f cs ds \<longleftrightarrow> owns s f 88 \<and> length cs < 64 \<and> holds_name (mem s) f cs \<and>
     unat (file_size s f) = length ds \<and> 0 < length ds \<and> owns s (file_data s f) (length ds) \<and>
     (\<forall>i<length ds. mem s (file_data s f + of_nat i) = ds ! i)"

text \<open>\<open>files s p xs\<close>: the nodes from \<open>p\<close> are \<open>xs\<close>, each an address, a name and contents.\<close>

fun files :: "'a kheap_state_scheme \<Rightarrow> u64 \<Rightarrow> (u64 \<times> cstring \<times> u8 list) list \<Rightarrow> bool" where
  "files s p [] \<longleftrightarrow> p = 0"
| "files s p ((f, cs, ds) # xs) \<longleftrightarrow> p = f \<and> f \<noteq> 0 \<and> is_file s f cs ds \<and> files s (file_next s f) xs"

definition ramfs_inv :: "(u64 \<times> cstring \<times> u8 list) list \<Rightarrow> 'a ramfs_state_scheme \<Rightarrow> bool" where
  "ramfs_inv xs s \<longleftrightarrow> heap_ok s \<and> files s (file_list s) xs"

lemma is_file_owns: "is_file s f cs ds \<Longrightarrow> owns s f 88" "is_file s f cs ds \<Longrightarrow> owns s (file_data s f) (length ds)"
  by (simp_all add: is_file_def)

text \<open>A file is kept by steps that keep its node and its data.\<close>

lemma is_file_keep:
  assumes fl: "is_file s f cs ds" and own: "\<And>a k. owns s a k \<Longrightarrow> owns s' a k"
    and keep: "\<And>i. i < 88 \<Longrightarrow> mem s' (f + of_nat i) = mem s (f + of_nat i)"
      "\<And>i. i < length ds \<Longrightarrow> mem s' (file_data s f + of_nat i) = mem s (file_data s f + of_nat i)"
  shows "is_file s' f cs ds" "file_next s' f = file_next s f" "file_data s' f = file_data s f" "file_size s' f = file_size s f"
proof -
  have L: "load64 (mem s') (f + of_nat j) = load64 (mem s) (f + of_nat j)" if "j + 8 \<le> 88" for j
  proof (rule load_le_cong)
    fix i :: nat assume "i < 8"
    then show "mem s' (f + of_nat j + of_nat i) = mem s (f + of_nat j + of_nat i)"
      using keep(1) [of "j + i"] that by (simp add: add.assoc)
  qed
  from L [of 80] L [of 64] L [of 72]
  show f: "file_next s' f = file_next s f" "file_data s' f = file_data s f" "file_size s' f = file_size s f" by simp_all
  have "holds_name (mem s') f cs = holds_name (mem s) f cs"
    by (rule holds_name_cong) (use keep(1) fl in \<open>simp add: is_file_def\<close>)
  then show "is_file s' f cs ds" using fl own keep(2) f by (simp add: is_file_def)
qed

lemma files_keep:
  assumes "files s p xs" "\<And>a k. owns s a k \<Longrightarrow> owns s' a k"
    and "\<And>a k i. owns s a k \<Longrightarrow> i < k \<Longrightarrow> mem s' (a + of_nat i) = mem s (a + of_nat i)"
  shows "files s' p xs"
  using assms(1)
proof (induction xs arbitrary: p)
  case (Cons x xs)
  obtain f cs ds where x: "x = (f, cs, ds)" by (cases x)
  have fl: "is_file s f cs ds" using Cons.prems by (simp add: x)
  note K = is_file_keep [OF fl assms(2) assms(3) [OF is_file_owns(1) [OF fl]] assms(3) [OF is_file_owns(2) [OF fl]]]
  show ?case using Cons K by (simp add: x)
qed simp

lemma ramfs_find_files:
  assumes "files s p xs" "0 \<notin> set name"
  shows "ramfs_find_from name p s = Some (case find (\<lambda>(_, cs, _). cs = name) xs of None \<Rightarrow> 0 | Some (f, _) \<Rightarrow> f)"
  using assms(1)
proof (induction xs arbitrary: p)
  case Nil
  then show ?case by (subst ramfs_find_from.simps) simp
next
  case (Cons x xs)
  obtain f cs ds where x: "x = (f, cs, ds)" by (cases x)
  have "str_eq (mem s) f name \<longleftrightarrow> cs = name"
    using str_eq_holds [of "mem s" f cs name] assms(2) Cons.prems by (simp add: x is_file_def)
  then show ?case using Cons by (subst ramfs_find_from.simps) (auto simp: x)
qed

section \<open>Creating a file\<close>

text \<open>What a step keeps of everything owned in \<open>s\<close>, and of static memory.\<close>

definition owned_kept :: "'a kheap_state_scheme \<Rightarrow> 'a kheap_state_scheme \<Rightarrow> bool" where
  "owned_kept s s' \<longleftrightarrow> (\<forall>a k. owns s a k \<longrightarrow> owns s' a k \<and> (\<forall>i<k. mem s' (a + of_nat i) = mem s (a + of_nat i))) \<and>
     (\<forall>x. static_byte s x \<longrightarrow> static_byte s' x \<and> mem s' x = mem s x)"

lemma owned_kept_trans: "owned_kept s s' \<Longrightarrow> owned_kept s' s'' \<Longrightarrow> owned_kept s s''"
  unfolding owned_kept_def by metis

lemma owned_kept_files: "owned_kept s s' \<Longrightarrow> files s p xs \<Longrightarrow> files s' p xs"
  unfolding owned_kept_def by (rule files_keep) blast+

lemma kmalloc_owned:
  fixes s :: "'a kheap_state_scheme"
  assumes "heap_ok s" "kmalloc_room n s" "0 < n"
  obtains p s' where "kmalloc n s = Some (p, s')" "heap_ok s'" "same_but_heap s s'" "owned_kept s s'"
    "p = 0 \<Longrightarrow> payloads s' = payloads s"
    "p \<noteq> 0 \<Longrightarrow> owns s' p (unat n) \<and> (\<forall>a k. owns s a k \<longrightarrow> 0 < k \<longrightarrow> a \<noteq> p) \<and>
       (\<exists>k. payloads s' = insert (unat p, k) (payloads s))"
proof (rule kmalloc_keeps [OF assms])
  fix p s'
  assume r: "kmalloc n s = Some (p, s')" "heap_ok s'" "same_but_heap s s'"
    and own: "\<And>a k. owns s a k \<Longrightarrow> owns s' a k"
    and keep: "\<And>a k i. owns s a k \<Longrightarrow> i < k \<Longrightarrow> mem s' (a + of_nat i) = mem s (a + of_nat i)"
    and st: "\<And>x. static_byte s x \<Longrightarrow> static_byte s' x \<and> mem s' x = mem s x"
    and p: "p = 0 \<Longrightarrow> payloads s' = payloads s" "p \<noteq> 0 \<Longrightarrow> owns s' p (unat n)"
      "\<And>a k. p \<noteq> 0 \<Longrightarrow> owns s a k \<Longrightarrow> 0 < k \<Longrightarrow> a \<noteq> p"
      "p \<noteq> 0 \<Longrightarrow> \<exists>k\<ge>unat n. payloads s' = insert (unat p, k) (payloads s)"
  have "owned_kept s s'" unfolding owned_kept_def using own keep st by blast
  from that [OF r this p(1)] p(2-4) show thesis by blast
qed

text \<open>A write to memory that was not owned in \<open>s\<close>.\<close>

lemma owned_kept_write:
  assumes k: "owned_kept s t" and ok: "heap_ok t" and a: "owns t a n" "\<forall>b k. owns s b k \<longrightarrow> 0 < k \<longrightarrow> b \<noteq> a"
    and w: "writes_in a n (mem t) m"
  shows "owned_kept s (t\<lparr>mem := m\<rparr>)"
proof -
  note W = owns_write [OF ok a(1) w]
  have "m (b + of_nat i) = mem s (b + of_nat i)" if "owns s b k" "i < k" for b k i
    using W(4) [of b k i] a(2) that k unfolding owned_kept_def by fastforce
  then show ?thesis using k W(3,5) unfolding owned_kept_def by simp
qed



lemma overlay_writes: "unat a + n \<le> 2 ^ 63 \<Longrightarrow> writes_in a n m (overlay a n h m)"
  unfolding writes_in_def by (auto simp: overlay_def range_iff)

definition put_name :: "u64 \<Rightarrow> cstring \<Rightarrow> memory \<Rightarrow> memory" where
  "put_name f cs m = (name_mem f 0 cs m)(f + of_nat (min 63 (length cs)) := 0)"

lemma put_name_facts:
  assumes f: "unat f + 88 \<le> 2 ^ 63" and cs: "0 \<notin> set cs"
  shows "writes_in f 88 m (put_name f cs m)" "holds_name (put_name f cs m) f (take 63 cs)"
proof -
  define k where "k = min 63 (length cs)"
  have k: "k \<le> 63" by (simp add: k_def)
  have u: "unat (f + of_nat i) = unat f + i" if "i < 88" for i
    using f that by (intro unat_add_of_nat) simp
  have uk: "unat (f + of_nat k) = unat f + k" using u [of k] k by simp
  have "x \<noteq> f + of_nat k" if "unat x < unat f \<or> unat f + 88 \<le> unat x" for x using uk k that by auto
  moreover have "\<not> unat (x - f) < 63" if "unat x < unat f \<or> unat f + 88 \<le> unat x" for x
    using range_iff [of f 63 x] f that by auto
  ultimately show "writes_in f 88 m (put_name f cs m)"
    unfolding writes_in_def put_name_def name_mem_def k_def by auto
  have "put_name f cs m (f + of_nat i) = take 63 cs ! i" if "i < k" for i
  proof -
    have "unat (f + of_nat i) \<noteq> unat (f + of_nat k)" using that u [of i] uk k by simp
    then have "f + of_nat i \<noteq> f + of_nat k" by metis
    then show ?thesis using that k by (simp add: put_name_def name_mem_def unat_of_nat_small k_def)
  qed
  moreover have "length (take 63 cs) = k" by (simp add: k_def min.commute)
  moreover have "0 \<notin> set (take 63 cs)" using cs set_take_subset [of 63 cs] by blast
  ultimately show "holds_name (put_name f cs m) f (take 63 cs)"
    by (simp add: holds_name_def put_name_def k_def)
qed



text \<open>The node of a new file, filled in.\<close>

lemma new_file:
  fixes s :: "'a kheap_state_scheme" and nx :: u64
  assumes ok: "heap_ok s" and own: "owns s f 88" "owns s d (unat sz)" "f \<noteq> d"
    and name: "length cs < 64" "holds_name (mem s) f cs" and sz: "0 < sz"
    and src: "\<forall>i<unat sz. static_byte s (data + of_nat i)"
  defines "m \<equiv> overlay d (unat sz) (\<lambda>j. mem s (data + j)) (store64 (mem s) (f + 64) d)"
  defines "s' \<equiv> s\<lparr>mem := store64 (store64 m (f + 72) sz) (f + 80) nx\<rparr>"
  shows "heap_ok s'" "is_file s' f cs (map (\<lambda>i. mem s (data + of_nat i)) [0..<unat sz])" "file_next s' f = nx"
    "payloads s' = payloads s" "copy_bytes d data sz (put64 (f + 64) d s) = s\<lparr>mem := m\<rparr>"
    "\<And>t. owned_kept t s \<Longrightarrow> \<forall>b k. owns t b k \<longrightarrow> 0 < k \<longrightarrow> b \<noteq> f \<and> b \<noteq> d \<Longrightarrow> owned_kept t s'"
proof -
  have bf: "0x200010 \<le> unat f" "unat f + 88 \<le> 0x1200000" and bd: "0x200010 \<le> unat d" "unat d + unat sz \<le> 0x1200000"
    using owns_bounds [OF ok own(1)] owns_bounds [OF ok own(2)] by simp_all
  have dis: "unat f + 88 \<le> unat d \<or> unat d + unat sz \<le> unat f" by (rule owns_disjoint [OF ok own])
  define m1 where "m1 = store64 (mem s) (f + 64) d"
  define s1 where "s1 = s\<lparr>mem := m1\<rparr>"
  have uf: "unat (f + of_nat j) = unat f + j" if "j < 88" for j using owns_byte [OF ok own(1) that] .
  have wf: "writes_in f 88 m' (store64 m' (f + of_nat j) v)" if "j + 8 \<le> 88" for m' j and v :: u64
    by (rule writes_in_store) (use bf uf [of j] that in simp_all)
  note wf8 = wf [of 64, simplified] wf [of 72, simplified] wf [of 80, simplified]
  have w1: "writes_in f 88 (mem s) m1" unfolding m1_def by (rule wf8(1))
  note W1 = owns_write [OF ok own(1) w1, folded s1_def]
  have m: "m = overlay d (unat sz) (\<lambda>j. mem s (data + j)) m1" by (simp add: m_def m1_def)
  have w2: "writes_in d (unat sz) (mem s1) m" unfolding m s1_def using bd by (simp add: overlay_writes)
  have own1: "owns s1 f 88" "owns s1 d (unat sz)" using own W1(3) by simp_all
  define s2 where "s2 = s1\<lparr>mem := m\<rparr>"
  note W2 = owns_write [OF W1(1) own1(2) w2, folded s2_def]
  have own2: "owns s2 f 88" using own1 W2(3) by simp
  have w3: "writes_in f 88 (mem s2) (store64 (store64 m (f + 72) sz) (f + 80) nx)"
    unfolding s2_def by (simp, rule writes_in_trans [OF wf8(2) wf8(3)])
  have s': "s' = s2\<lparr>mem := store64 (store64 m (f + 72) sz) (f + 80) nx\<rparr>" by (simp add: s'_def s2_def s1_def)
  note W3 = owns_write [OF W2(1) own2 w3, folded s']
  show "heap_ok s'" by (rule W3(1))
  show "payloads s' = payloads s" using W1(2) W2(2) W3(2) by simp
  have os: "owns s' = owns s" using W1(3) W2(3) W3(3) by simp
  have mf: "m (f + of_nat i) = m1 (f + of_nat i)" if "i < 88" for i
    using W2(4) [OF own1(1) own(3) that] by (simp add: s2_def s1_def)
  have L: "load64 m (f + of_nat j) = load64 m1 (f + of_nat j)" if "j + 8 \<le> 88" for j
  proof (rule load_le_cong)
    fix i :: nat assume "i < 8"
    then show "m (f + of_nat j + of_nat i) = m1 (f + of_nat j + of_nat i)" using mf [of "j + i"] that by (simp add: add.assoc)
  qed
  have fd: "file_data s' f = d" using L [of 64] by (simp add: s'_def m1_def load_store_apart apart_def)
  show "file_next s' f = nx" by (simp add: s'_def)
  have fs: "file_size s' f = sz" by (simp add: s'_def load_store_apart apart_def)
  have low: "mem s' (f + of_nat i) = mem s (f + of_nat i)" if "i < 64" for i
  proof -
    have out: "store64 m' (f + of_nat j) v (f + of_nat i) = m' (f + of_nat i)" if "64 \<le> j" "j + 8 \<le> 88" for m' j and v :: u64
      using uf [of i] uf [of j] \<open>i < 64\<close> that bf by (intro store_outside_nat) simp_all
    from out [of 64] out [of 72] out [of 80] mf [of i] that show ?thesis by (simp add: s'_def m1_def)
  qed
  have "holds_name (mem s') f cs = holds_name (mem s) f cs" by (rule holds_name_cong) (use low name in simp)
  moreover have "mem s' (d + of_nat i) = mem s (data + of_nat i)" if "i < unat sz" for i
    using W3(4) [of d "unat sz" i] W2(3) own1(2) own(3) that overlay_at [of i "unat sz" d] unat_lt2p [of sz]
    by (simp add: s' s2_def m)
  ultimately show "is_file s' f cs (map (\<lambda>i. mem s (data + of_nat i)) [0..<unat sz])"
    using own name sz os fd fs by (simp add: is_file_def unat_gt_0 word_neq_0_conv)
  have "unat sz \<le> unat (data + of_nat k - d)" if "k < unat sz" for k
  proof -
    have "unat (data + of_nat k) < 0x200000" using src that by (simp add: static_byte_def)
    then show ?thesis using range_iff [of d "unat sz" "data + of_nat k"] bd by auto
  qed
  from copy_loop [OF this, of "put64 (f + 64) d s"]
  have cp: "copy_bytes d data sz (put64 (f + 64) d s) =
      s\<lparr>mem := overlay d (unat sz) (\<lambda>j. m1 (data + j)) m1\<rparr>" by (simp add: copy_bytes_def put64_def m1_def)
  have "overlay d (unat sz) (\<lambda>j. m1 (data + j)) m1 = m"
  proof
    fix x
    have "m1 (data + (x - d)) = mem s (data + (x - d))" if "unat (x - d) < unat sz"
      using W1(5) [of "data + (x - d)"] src [rule_format, OF that] by (simp add: s1_def)
    then show "overlay d (unat sz) (\<lambda>j. m1 (data + j)) m1 x = m x" by (simp add: m overlay_def)
  qed
  with cp show "copy_bytes d data sz (put64 (f + 64) d s) = s\<lparr>mem := m\<rparr>" by simp
  show "owned_kept t s'" if "owned_kept t s" "\<forall>b k. owns t b k \<longrightarrow> 0 < k \<longrightarrow> b \<noteq> f \<and> b \<noteq> d" for t
  proof -
    have ne: "\<forall>b k. owns t b k \<longrightarrow> 0 < k \<longrightarrow> b \<noteq> f" "\<forall>b k. owns t b k \<longrightarrow> 0 < k \<longrightarrow> b \<noteq> d" using that(2) by blast+
    have "owned_kept t s1" unfolding s1_def by (rule owned_kept_write [OF that(1) ok own(1) ne(1) w1])
    then have "owned_kept t s2" unfolding s2_def by (rule owned_kept_write [OF _ W1(1) own1(2) ne(2) w2])
    then show ?thesis unfolding s' by (rule owned_kept_write [OF _ W2(1) own2 ne(1) w3])
  qed
qed



text \<open>Frames below 2 MiB enough for a file of \<open>n\<close> bytes.\<close>

definition file_frames :: "nat \<Rightarrow> nat" where
  "file_frames n = 4 + 4 * (expand_bytes (need_bytes n) div 4096)"

lemma owned_kept_free:
  fixes s t :: "'a kheap_state_scheme"
  assumes k: "owned_kept s t" and ok: "heap_ok s" "heap_ok t" and p: "owns t p n" "\<forall>b k. owns s b k \<longrightarrow> 0 < k \<longrightarrow> b \<noteq> p"
  obtains m where "kfree p t = Some (t\<lparr>mem := m\<rparr>)" "heap_ok (t\<lparr>mem := m\<rparr>)" "owned_kept s (t\<lparr>mem := m\<rparr>)"
    "payloads (t\<lparr>mem := m\<rparr>) = {(q, l) \<in> payloads t. q \<noteq> unat p}"
proof (rule kfree_keeps [OF ok(2) p(1)])
  fix m
  assume m: "kfree p t = Some (t\<lparr>mem := m\<rparr>)" "heap_ok (t\<lparr>mem := m\<rparr>)"
    "payloads (t\<lparr>mem := m\<rparr>) = {(q, l) \<in> payloads t. q \<noteq> unat p}"
    and own: "\<And>a k. a \<noteq> p \<Longrightarrow> owns t a k \<Longrightarrow> owns (t\<lparr>mem := m\<rparr>) a k"
    and keep: "\<And>a k i. a \<noteq> p \<Longrightarrow> owns t a k \<Longrightarrow> i < k \<Longrightarrow> m (a + of_nat i) = mem t (a + of_nat i)"
    and st: "\<And>x. static_byte t x \<Longrightarrow> static_byte (t\<lparr>mem := m\<rparr>) x \<and> m x = mem t x"
  have ne: "a \<noteq> p" if a: "owns s a k" for a k
  proof -
    obtain l where l: "(unat a, l) \<in> payloads s" using a by (auto simp: owns_def)
    then have "owns s a 16" using payload_bounds(3) [OF ok(1) l] by (auto simp: owns_def)
    then have "0 < (16 :: nat) \<longrightarrow> a \<noteq> p" using p(2) by blast
    then show ?thesis by simp
  qed
  have kept: "owns t a k" "mem t (a + of_nat i) = mem s (a + of_nat i)" if "owns s a k" "i < k" for a k i
    using k that unfolding owned_kept_def by blast+
  have "m (a + of_nat i) = mem s (a + of_nat i)" if "owns s a k" "i < k" for a k i
    using keep [OF ne [OF that(1)] kept(1) [OF that] that(2)] kept(2) [OF that] by simp
  then have "owned_kept s (t\<lparr>mem := m\<rparr>)"
    using k own st ne unfolding owned_kept_def by simp
  from that [OF m(1,2) this m(3)] show thesis .
qed

lemma ramfs_inv_outs [simp]: "ramfs_inv xs (s\<lparr>outs := x\<rparr>) = ramfs_inv xs s"
proof -
  have "files (s\<lparr>outs := x\<rparr>) p xs = files s p xs" for p
    by (induction xs arbitrary: p) (auto simp: is_file_def)
  then show ?thesis by (simp add: ramfs_inv_def)
qed

lemma owned_kept_upd:
  fixes s t :: "'a ramfs_state_scheme"
  assumes "owned_kept s t"
  shows "owned_kept s (t\<lparr>outs := x\<rparr>)" "owned_kept s (t\<lparr>file_list := y\<rparr>)"
proof -
  have "owns (t\<lparr>file_list := y\<rparr>) = owns t" "static_byte (t\<lparr>file_list := y\<rparr>) = static_byte t" by (rule heap_ok_view; simp)+
  then show "owned_kept s (t\<lparr>outs := x\<rparr>)" "owned_kept s (t\<lparr>file_list := y\<rparr>)"
    using assms by (simp_all add: owned_kept_def)
qed



lemma same_but_heap_file_list: "same_but_heap s s' \<Longrightarrow> file_list s' = file_list s"
  by (auto elim!: same_but_heapE)

lemma ramfs_create_fail:
  fixes s t :: "'a ramfs_state_scheme"
  assumes ok: "heap_ok s" "heap_ok t" and k: "owned_kept s t" and f: "owns t f 88" "\<forall>a k. owns s a k \<longrightarrow> 0 < k \<longrightarrow> a \<noteq> f"
    and pl: "payloads t = insert (unat f, kf) (payloads s)" and fs: "files s (file_list s) xs" "file_list t = file_list s"
  shows "\<exists>s'. kfree f (serial_write ''[ramfs] failed to allocate file data\<newline>'' (put64 (f + 64) 0 t)) = Some s' \<and>
    owned_kept s s' \<and> ramfs_inv xs s' \<and> payloads s' = payloads s"
proof -
  let ?m = "store64 (mem t) (f + 64) 0"
  let ?t = "serial_write ''[ramfs] failed to allocate file data\<newline>'' (put64 (f + 64) 0 t)"
  have "?t = t\<lparr>mem := ?m\<rparr>\<lparr>outs := outs ?t\<rparr>" by (simp add: print_eqs put64_def)
  then obtain o4 where o4: "?t = t\<lparr>mem := ?m\<rparr>\<lparr>outs := o4\<rparr>" by blast
  have bf: "unat f + 88 \<le> 2 ^ 63" "unat (f + of_nat 64) = unat f + 64"
    using owns_bounds [OF ok(2) f(1)] owns_byte [OF ok(2) f(1), of 64] by simp_all
  have w: "writes_in f 88 (mem t) ?m" using writes_in_store [OF bf(1) _ bf(2), of 8] by simp
  note W = owns_write [OF ok(2) f(1) w]
  have k4: "owned_kept s ?t" unfolding o4 by (intro owned_kept_upd(1) owned_kept_write [OF k ok(2) f w])
  have ok4: "heap_ok ?t" "owns ?t f 88" unfolding o4 using W(1,3) f(1) by simp_all
  obtain m where m: "kfree f ?t = Some (?t\<lparr>mem := m\<rparr>)" "heap_ok (?t\<lparr>mem := m\<rparr>)" "owned_kept s (?t\<lparr>mem := m\<rparr>)"
    "payloads (?t\<lparr>mem := m\<rparr>) = {(q, l) \<in> payloads ?t. q \<noteq> unat f}"
    by (rule owned_kept_free [OF k4 ok(1) ok4 f(2)])
  have "(unat f, l) \<notin> payloads s" for l
  proof
    assume l: "(unat f, l) \<in> payloads s"
    then have "owns s f 16" using payload_bounds(3) [OF ok(1) l] by (auto simp: owns_def)
    then have "0 < (16 :: nat) \<longrightarrow> f \<noteq> f" using f(2) by blast
    then show False by simp
  qed
  then have "payloads (?t\<lparr>mem := m\<rparr>) = payloads s" unfolding m(4) using pl W(2) by (auto simp: o4)
  moreover have "ramfs_inv xs (?t\<lparr>mem := m\<rparr>)"
    using m(2) owned_kept_files [OF m(3) fs(1)] fs(2) by (simp add: ramfs_inv_def o4)
  ultimately show ?thesis using m(1,3) by blast
qed

lemma ramfs_create_fill:
  fixes s t :: "'a ramfs_state_scheme"
  assumes ok: "heap_ok s" "heap_ok t" and k: "owned_kept s t"
    and own: "owns t f 88" "owns t d (unat sz)" "f \<noteq> d" and new: "\<forall>b k. owns s b k \<longrightarrow> 0 < k \<longrightarrow> b \<noteq> f \<and> b \<noteq> d"
    and name: "length cs < 64" "holds_name (mem t) f cs" and sz: "0 < sz"
    and src: "\<forall>i<unat sz. static_byte s (data + of_nat i)"
    and fs: "files s (file_list s) xs" "file_list t = file_list s"
  defines "t' \<equiv> (let s = copy_bytes d data sz (put64 (f + 64) d t); s = put64 (f + 72) sz s
     in (put64 (f + 80) (file_list s) s)\<lparr>file_list := f\<rparr>)"
  shows "owned_kept s t'" "ramfs_inv ((f, cs, map (\<lambda>i. mem s (data + of_nat i)) [0..<unat sz]) # xs) t'"
    "read_cstr (mem t') f = Some cs"
proof -
  have st: "static_byte t x \<and> mem t x = mem s x" if "static_byte s x" for x using k that by (simp add: owned_kept_def)
  have srct: "\<forall>i<unat sz. static_byte t (data + of_nat i)" using src st by blast
  note F = new_file [OF ok(2) own name sz srct]
  let ?m = "overlay d (unat sz) (\<lambda>j. mem t (data + j)) (store64 (mem t) (f + 64) d)"
  let ?u = "t\<lparr>mem := store64 (store64 ?m (f + 72) sz) (f + 80) (file_list s)\<rparr>"
  have t': "t' = ?u\<lparr>file_list := f\<rparr>" using F(5) fs(2) by (simp add: t'_def Let_def put64_def)
  have ku: "owned_kept s ?u" by (rule F(6) [OF k new])
  have nx: "file_next ?u f = file_list s" and hu: "heap_ok ?u" by (rule F(3), rule F(1))
  from ku show "owned_kept s t'" unfolding t' by (rule owned_kept_upd(2))
  have v: "heap_ok t' = heap_ok ?u" "owns t' = owns ?u" unfolding t' by (rule heap_ok_view; simp)+
  have fv: "files t' p ys = files ?u p ys" for p ys
    using v(2) by (induction ys arbitrary: p) (auto simp: is_file_def t')
  have ds: "map (\<lambda>i. mem t (data + of_nat i)) [0..<unat sz] = map (\<lambda>i. mem s (data + of_nat i)) [0..<unat sz]"
    using src st by simp
  have fl: "is_file ?u f cs (map (\<lambda>i. mem s (data + of_nat i)) [0..<unat sz])" by (rule F(2) [unfolded ds])
  have "f \<noteq> 0" using owns_bounds [OF ok(2) own(1)] by auto
  then show "ramfs_inv ((f, cs, map (\<lambda>i. mem s (data + of_nat i)) [0..<unat sz]) # xs) t'"
    using v(1) hu nx fl owned_kept_files [OF ku fs(1)] unfolding ramfs_inv_def fv by (simp add: t')
  have "holds_name (mem t') f cs" using fl unfolding is_file_def by (simp add: t')
  then show "read_cstr (mem t') f = Some cs" by (rule read_cstr_holds)
qed

lemma ramfs_create_named:
  fixes s :: "'a ramfs_state_scheme"
  assumes ok: "heap_ok s" and fs: "files s (file_list s) xs"
    and s1: "kmalloc 88 s = Some (f, s1)" "f \<noteq> 0" and cn: "(let (i, s) = copy_name f 0 name s1 in put8 (f + ucast i) 0 s) = s2"
    and s2: "heap_ok s2" "owned_kept s s2" "owns s2 f 88" "holds_name (mem s2) f (take 63 name)"
      "payloads s2 = insert (unat f, kf) (payloads s)" "file_list s2 = file_list s"
    and new: "\<forall>a k. owns s a k \<longrightarrow> 0 < k \<longrightarrow> a \<noteq> f" and sz: "0 < sz" "kmalloc_room sz s2"
    and src: "\<forall>i<unat sz. static_byte s (data + of_nat i)"
  shows "\<exists>f s'. ramfs_create name data sz s = Some (f, s') \<and> owned_kept s s' \<and>
    (if f = 0 then ramfs_inv xs s' \<and> payloads s' = payloads s
     else ramfs_inv ((f, take 63 name, map (\<lambda>i. mem s (data + of_nat i)) [0..<unat sz]) # xs) s')"
proof (rule kmalloc_owned [OF s2(1) sz(2,1)])
  fix d s3
  assume s3: "kmalloc sz s2 = Some (d, s3)" "heap_ok s3" "same_but_heap s2 s3" "owned_kept s2 s3" "d = 0 \<Longrightarrow> payloads s3 = payloads s2"
    and d: "d \<noteq> 0 \<Longrightarrow> owns s3 d (unat sz) \<and> (\<forall>a k. owns s2 a k \<longrightarrow> 0 < k \<longrightarrow> a \<noteq> d) \<and>
      (\<exists>k. payloads s3 = insert (unat d, k) (payloads s2))"
  have fl3: "file_list s3 = file_list s" using same_but_heap_file_list [OF s3(3)] s2(6) by simp
  have k3: "owned_kept s s3" by (rule owned_kept_trans [OF s2(2) s3(4)])
  have own3: "owns s3 f 88" using s3(4) s2(3) by (simp add: owned_kept_def)
  have name3: "holds_name (mem s3) f (take 63 name)"
  proof -
    have "mem s3 (f + of_nat i) = mem s2 (f + of_nat i)" if "i < 88" for i
      using s3(4) s2(3) that unfolding owned_kept_def by blast
    then have "holds_name (mem s3) f (take 63 name) = holds_name (mem s2) f (take 63 name)"
      by (intro holds_name_cong) simp
    then show ?thesis using s2(4) by simp
  qed
  show ?thesis
  proof (cases "d = 0")
    case True
    have pl: "payloads s3 = insert (unat f, kf) (payloads s)" using s3(5) True s2(5) by simp
    from ramfs_create_fail [OF ok s3(2) k3 own3 new pl fs fl3] True show ?thesis
      using s1 s3(1) cn by (auto simp: ramfs_create_def split: prod.splits)
  next
    case dz: False
    have od: "owns s3 d (unat sz)" and nd: "\<forall>a k. owns s2 a k \<longrightarrow> 0 < k \<longrightarrow> a \<noteq> d" using d [OF dz] by blast+
    have fd: "f \<noteq> d" using nd [rule_format, OF s2(3)] by simp
    have "b \<noteq> d" if "owns s b k" "0 < k" for b k using nd s2(2) that unfolding owned_kept_def by blast
    then have new3: "\<forall>b k. owns s b k \<longrightarrow> 0 < k \<longrightarrow> b \<noteq> f \<and> b \<noteq> d" using new by blast
    have l63: "length (take 63 name) < 64" by simp
    define s4 where "s4 = (let s = copy_bytes d data sz (put64 (f + 64) d s3); s = put64 (f + 72) sz s
      in (put64 (f + 80) (file_list s) s)\<lparr>file_list := f\<rparr>)"
    note F = ramfs_create_fill [OF ok s3(2) k3 own3 od fd new3 l63 name3 sz(1) src fs fl3, folded s4_def]
    define s5 where "s5 = (let s = serial_write (''[ramfs] created '' @ [CHR 0x27]) s4;
      s = serial_write_cstr (take 63 name) s; s = serial_write (CHR 0x27 # '' size='') s;
      s = serial_write_dec_u64 sz s in serial_write ''\<newline>'' s)"
    have "s5 = s4\<lparr>outs := outs s5\<rparr>" by (simp add: s5_def Let_def print_eqs serial_write_cstr_def)
    then obtain o5 where s5: "s5 = s4\<lparr>outs := o5\<rparr>" by blast
    have "file_data (put64 (f + 64) d s3) f = d" by simp
    then have "ramfs_create name data sz s = Some (f, s5)"
      using s1 s3(1) dz cn F(3)
      by (simp add: ramfs_create_def s5_def s4_def Let_def mem_print split: prod.splits)
    then show ?thesis using s1(2) F(2) owned_kept_upd(1) [OF F(1)] by (auto simp: s5)
  qed
qed

lemma ramfs_create_ok:
  fixes s :: "'a ramfs_state_scheme"
  assumes inv: "ramfs_inv xs s" and name: "0 \<notin> set name" and sz: "0 < sz" "unat sz \<le> 2 ^ 63"
    and src: "\<forall>i<unat sz. static_byte s (data + of_nat i)"
    and frames: "file_frames (unat sz) \<le> card {f \<in> free_frames s. f < 512}"
  shows "\<exists>f s'. ramfs_create name data sz s = Some (f, s') \<and> owned_kept s s' \<and>
    (if f = 0 then ramfs_inv xs s' \<and> payloads s' = payloads s
     else ramfs_inv ((f, take 63 name, map (\<lambda>i. mem s (data + of_nat i)) [0..<unat sz]) # xs) s')"
proof -
  have ok: "heap_ok s" and fs: "files s (file_list s) xs" using inv by (simp_all add: ramfs_inv_def)
  have r88: "kmalloc_room 88 s"
    by (rule kmalloc_room_frames) (use frames in \<open>simp_all add: file_frames_def expand_bytes_def need_bytes_def\<close>)
  show ?thesis
  proof (rule kmalloc_owned [OF ok r88])
    fix f s1
    assume s1: "kmalloc 88 s = Some (f, s1)" "heap_ok s1" "same_but_heap s s1" "owned_kept s s1" "f = 0 \<Longrightarrow> payloads s1 = payloads s"
      and f: "f \<noteq> 0 \<Longrightarrow> owns s1 f (unat (88 :: u64)) \<and> (\<forall>a k. owns s a k \<longrightarrow> 0 < k \<longrightarrow> a \<noteq> f) \<and>
        (\<exists>k. payloads s1 = insert (unat f, k) (payloads s))"
    have fl1: "file_list s1 = file_list s" by (rule same_but_heap_file_list [OF s1(3)])
    show ?thesis
    proof (cases "f = 0")
      case True
      let ?s = "serial_write ''[ramfs] failed to allocate file node\<newline>'' s1"
      have "?s = s1\<lparr>outs := outs ?s\<rparr>" by (simp add: print_eqs)
      then obtain o1 where o1: "?s = s1\<lparr>outs := o1\<rparr>" by blast
      have "ramfs_inv xs s1" using s1(2) owned_kept_files [OF s1(4) fs] fl1 by (simp add: ramfs_inv_def)
      then show ?thesis using s1 True o1 owned_kept_upd(1) [OF s1(4)] by (simp add: ramfs_create_def)
    next
      case False
      have own1: "owns s1 f 88" and new: "\<forall>a k. owns s a k \<longrightarrow> 0 < k \<longrightarrow> a \<noteq> f" using f [OF False] by simp_all
      obtain kf where kf: "payloads s1 = insert (unat f, kf) (payloads s)" using f [OF False] by blast
      have bf: "unat f + 88 \<le> 2 ^ 63" using owns_bounds [OF s1(2) own1] by simp
      define s2 where "s2 = s1\<lparr>mem := put_name f name (mem s1)\<rparr>"
      note N = put_name_facts [OF bf name, of "mem s1"]
      note W = owns_write [OF s1(2) own1 N(1), folded s2_def]
      have k2: "owned_kept s s2" unfolding s2_def by (rule owned_kept_write [OF s1(4,2) own1 new N(1)])
      have own2: "owns s2 f 88" using own1 W(3) by simp
      have cn: "(let (i, s) = copy_name f 0 name s1 in put8 (f + ucast i) 0 s) = s2"
        using copy_name_spec [of 0 f name s1] by (simp add: s2_def put_name_def put8_def ucast_of_nat_small)
      have fr2: "free_frames s2 = free_frames s1" by (simp add: s2_def)
      have room: "kmalloc_room sz s2"
      proof (rule kmalloc_room_frames [OF sz(2)])
        show "4 * (expand_bytes (need_bytes (unat sz)) div 4096) \<le> card {f \<in> free_frames s2. f < 512}"
          using kmalloc_frames [OF ok r88 s1(1)] frames unfolding fr2
          by (simp add: file_frames_def expand_bytes_def need_bytes_def)
      qed
      have s2: "holds_name (mem s2) f (take 63 name)" "payloads s2 = insert (unat f, kf) (payloads s)" "file_list s2 = file_list s"
        using N(2) W(2) kf fl1 by (simp_all add: s2_def)
      show ?thesis
        by (rule ramfs_create_named [OF ok fs s1(1) False cn W(1) k2 own2 s2 new sz(1) room src])
    qed
  qed simp
qed

section \<open>Looking files up\<close>

lemma files_outs [simp]: "files ((s :: 'a ramfs_state_scheme)\<lparr>outs := x\<rparr>) p xs = files s p xs"
  by (induction xs arbitrary: p) (auto simp: is_file_def)

lemma ramfs_init_inv: "heap_ok s \<Longrightarrow> ramfs_inv [] (ramfs_init s)"
proof -
  assume ok: "heap_ok s"
  have "ramfs_init s = s\<lparr>file_list := 0\<rparr>\<lparr>outs := outs (ramfs_init s)\<rparr>" by (simp add: ramfs_init_def print_eqs)
  then obtain x where x: "ramfs_init s = s\<lparr>file_list := 0\<rparr>\<lparr>outs := x\<rparr>" by blast
  have "heap_ok (s\<lparr>file_list := 0\<rparr>) = heap_ok s" by (rule heap_ok_view) simp_all
  with ok show ?thesis by (simp add: x ramfs_inv_def)
qed

lemma ramfs_find_inv:
  assumes "ramfs_inv xs s" "0 \<notin> set name"
  shows "ramfs_find name s = Some (case find (\<lambda>(_, cs, _). cs = name) xs of None \<Rightarrow> 0 | Some (f, _) \<Rightarrow> f)"
  unfolding ramfs_find_def by (rule ramfs_find_files) (use assms in \<open>simp_all add: ramfs_inv_def\<close>)

lemma ramfs_list_from_files:
  assumes "files s p xs"
  shows "\<exists>x. ramfs_list_from p c s = Some (c + of_nat (length xs), s\<lparr>outs := x\<rparr>)"
  using assms
proof (induction xs arbitrary: p c s)
  case Nil
  then have "ramfs_list_from p c s = Some (c + of_nat (length []), s\<lparr>outs := outs s\<rparr>)"
    by (subst ramfs_list_from.simps) simp
  then show ?case by blast
next
  case (Cons y xs)
  obtain f cs ds where y: "y = (f, cs, ds)" by (cases y)
  define t where "t = (let s = serial_write ''  '' s; s = serial_write_cstr cs s; s = serial_write ''  '' s;
    s = serial_write_dec_u64 (file_size s f) s in serial_write '' bytes\<newline>'' s)"
  have "t = s\<lparr>outs := outs t\<rparr>" by (simp add: t_def Let_def print_eqs serial_write_cstr_def)
  then obtain x where x: "t = s\<lparr>outs := x\<rparr>" by blast
  have f: "p = f" "f \<noteq> 0" "holds_name (mem s) f cs" "files s (file_next s f) xs"
    using Cons.prems by (simp_all add: y is_file_def)
  from Cons.IH [of t "file_next s f" "c + 1"] f(4) obtain z where
    z: "ramfs_list_from (file_next s f) (c + 1) t = Some (c + 1 + of_nat (length xs), t\<lparr>outs := z\<rparr>)" by (auto simp: x)
  have "ramfs_list_from p c s = ramfs_list_from (file_next s f) (c + 1) t"
    using f(1,2) read_cstr_holds [OF f(3)]
    by (subst ramfs_list_from.simps) (simp add: t_def Let_def mem_print serial_write_cstr_def)
  with z show ?case by (auto simp: x y add.assoc)
qed

text \<open>
  C10 Creating a file always returns. When the heap has no room left it returns 0, frees the
  node it had taken and leaves the files as they were; otherwise the new file is first in
  the list, its contents are the bytes of the source, looking its stored name (the first 63
  characters) up finds it, and every other name resolves as before. All memory the heap had
  handed out before, and all memory outside the heap, keeps its contents.
\<close>

theorem ramfs_create_find:
  fixes s :: "'a ramfs_state_scheme"
  assumes "ramfs_inv xs s" "0 \<notin> set name" "0 < sz" "unat sz \<le> 2 ^ 63"
    and "\<forall>i<unat sz. static_byte s (data + of_nat i)"
    and "file_frames (unat sz) \<le> card {f \<in> free_frames s. f < 512}"
  shows "\<exists>f s'. ramfs_create name data sz s = Some (f, s') \<and> owned_kept s s' \<and>
    (if f = 0 then ramfs_inv xs s' \<and> payloads s' = payloads s
     else ramfs_inv ((f, take 63 name, map (\<lambda>i. mem s (data + of_nat i)) [0..<unat sz]) # xs) s' \<and>
       ramfs_find (take 63 name) s' = Some f \<and>
       (\<forall>other. 0 \<notin> set other \<longrightarrow> other \<noteq> take 63 name \<longrightarrow> ramfs_find other s' = ramfs_find other s))"
proof -
  obtain f s' where r: "ramfs_create name data sz s = Some (f, s')" "owned_kept s s'"
    "if f = 0 then ramfs_inv xs s' \<and> payloads s' = payloads s
     else ramfs_inv ((f, take 63 name, map (\<lambda>i. mem s (data + of_nat i)) [0..<unat sz]) # xs) s'"
    using ramfs_create_ok [OF assms] by blast
  have "0 \<notin> set (take 63 name)" using assms(2) by (meson in_set_takeD)
  then have "f \<noteq> 0 \<Longrightarrow> ramfs_find (take 63 name) s' = Some f"
    using ramfs_find_inv [of _ s' "take 63 name"] r(3) by fastforce
  moreover have "f \<noteq> 0 \<Longrightarrow> 0 \<notin> set other \<Longrightarrow> other \<noteq> take 63 name \<Longrightarrow> ramfs_find other s' = ramfs_find other s" for other
    using ramfs_find_inv [of _ s' other] ramfs_find_inv [OF assms(1), of other] r(3) by fastforce
  ultimately show ?thesis using r by (cases "f = 0") auto
qed

definition boot_ramfs :: ramfs_state where
  "boot_ramfs = ramfs_init (kheap_init (vmm_init (boot_pmm (task_state.extend cold_task \<lparr>file_list = 0\<rparr>))))"

lemma boot_ramfs_facts: "ramfs_inv [] boot_ramfs" "139 \<le> card {f \<in> free_frames boot_ramfs. f < 512}"
  "\<And>x. unat x < 304 * 4096 \<Longrightarrow> static_byte boot_ramfs x"
proof -
  define b :: ramfs_state where "b = kheap_init (vmm_init (boot_pmm (task_state.extend cold_task \<lparr>file_list = 0\<rparr>)))"
  have wf: "pmm_wf (task_state.extend cold_task \<lparr>file_list = 0\<rparr>)"
    by (simp add: cold_task_def cold_kheap_def cold_vmm_def cold_pmm_def pmm_wf_def pmm_state.defs vmm_state.defs
      kheap_state.defs task_state.defs)
  note B = boot_heap_facts [OF wf, folded b_def]
  have "ramfs_init b = b\<lparr>file_list := 0\<rparr>\<lparr>outs := outs (ramfs_init b)\<rparr>" by (simp add: ramfs_init_def print_eqs)
  then obtain x where x: "boot_ramfs = b\<lparr>file_list := 0\<rparr>\<lparr>outs := x\<rparr>" unfolding boot_ramfs_def b_def by blast
  have s: "static_byte (b\<lparr>file_list := 0\<rparr>) = static_byte b" by (rule heap_ok_view; simp)
  show "ramfs_inv [] boot_ramfs"
    unfolding boot_ramfs_def b_def [symmetric] by (rule ramfs_init_inv) (rule heap_inv_ok(1) [OF B(1)])
  show "139 \<le> card {f \<in> free_frames boot_ramfs. f < 512}" using B(2) by (simp add: x free_frames_def frame_used_def)
  show "static_byte boot_ramfs a" if "unat a < 304 * 4096" for a using B(3) [OF that] s by (simp add: x)
qed

theorem ramfs_create_find_witness:
  "\<exists>f s'. ramfs_create (cstr ''hello'') 0x5000 700 boot_ramfs = Some (f, s') \<and> owned_kept boot_ramfs s' \<and>
    (if f = 0 then ramfs_inv [] s' \<and> payloads s' = payloads boot_ramfs
     else ramfs_inv [(f, cstr ''hello'', map (\<lambda>i. mem boot_ramfs (0x5000 + of_nat i)) [0..<700])] s' \<and>
       ramfs_find (cstr ''hello'') s' = Some f \<and>
       (\<forall>other. 0 \<notin> set other \<longrightarrow> other \<noteq> cstr ''hello'' \<longrightarrow> ramfs_find other s' = ramfs_find other boot_ramfs))"
proof -
  have unat_numeral_700: "unat (700 :: u64) = 700" by simp
  have n: "0 \<notin> set (cstr ''hello'')" "take 63 (cstr ''hello'') = cstr ''hello''" by (simp_all add: cstr_def)
  have src: "\<forall>i<unat (700 :: u64). static_byte boot_ramfs (0x5000 + of_nat i)"
  proof (intro allI impI boot_ramfs_facts(3))
    fix i assume "i < unat (700 :: u64)"
    then show "unat (0x5000 + of_nat i :: u64) < 304 * 4096" using unat_add_of_nat [of "0x5000 :: u64" i] by simp
  qed
  have "file_frames (unat (700 :: u64)) \<le> card {f \<in> free_frames boot_ramfs. f < 512}"
    using boot_ramfs_facts(2) by (simp add: file_frames_def expand_bytes_def need_bytes_def)
  from ramfs_create_find [OF boot_ramfs_facts(1) n(1) _ _ src this] show ?thesis
    unfolding n(2) unat_numeral_700 by simp
qed

text \<open>
  C34 Listing the files ends: the loop over the list visits every file once, and printing is
  all it does.
\<close>

theorem ramfs_list_returns:
  assumes "ramfs_inv xs s"
  shows "(\<exists>x. ramfs_list s = Some (s\<lparr>outs := x\<rparr>)) \<and>
    (\<exists>x. ramfs_list_from (file_list s) 0 s = Some (of_nat (length xs), s\<lparr>outs := x\<rparr>))"
proof (rule conjI)
  have f: "files s (file_list s) xs" using assms by (simp add: ramfs_inv_def)
  from ramfs_list_from_files [OF f, of 0]
  show "\<exists>x. ramfs_list_from (file_list s) 0 s = Some (of_nat (length xs), s\<lparr>outs := x\<rparr>)" by simp
  let ?t = "serial_write ''[ramfs] listing files:\<newline>'' s"
  have "?t = s\<lparr>outs := outs ?t\<rparr>" by (simp add: print_eqs)
  then obtain o1 where o1: "?t = s\<lparr>outs := o1\<rparr>" by blast
  have "files ?t (file_list ?t) xs" using f by (simp add: o1)
  from ramfs_list_from_files [OF this, of 0] obtain o2 where
    "ramfs_list_from (file_list ?t) 0 ?t = Some (of_nat (length xs), ?t\<lparr>outs := o2\<rparr>)" by auto
  then have r: "ramfs_list s = Some (serial_write '' files\<newline>'' (serial_write_dec_u64 (ucast (of_nat (length xs) :: u32))
      (serial_write ''[ramfs] total: '' (s\<lparr>outs := o2\<rparr>))))"
    by (simp add: ramfs_list_def Let_def o1)
  show "\<exists>x. ramfs_list s = Some (s\<lparr>outs := x\<rparr>)" unfolding r by (simp add: print_eqs) (rule exI, rule refl)
qed

theorem ramfs_list_returns_witness: "\<exists>x. ramfs_list boot_ramfs = Some (boot_ramfs\<lparr>outs := x\<rparr>)"
  by (rule ramfs_list_returns [OF boot_ramfs_facts(1), THEN conjunct1])


end
