(* ===== verification/Descriptors.thy ===== *)
theory Descriptors
  imports File_Store
begin
text \<open>
  The segment descriptors, the task state segment, the interrupt controller and the
  privilege of user mode: \<open>gdt.c\<close>, \<open>tss.c\<close> and \<open>pic.c\<close>.
\<close>

section \<open>The descriptor table\<close>

record gdt_descriptor =
  limit_low :: u16
  base_low :: u16
  base_mid :: u8
  access :: u8
  granularity :: u8
  base_high :: u8

definition null_descriptor :: gdt_descriptor where
  "null_descriptor =
     \<lparr>limit_low = 0, base_low = 0, base_mid = 0, access = 0, granularity = 0, base_high = 0\<rparr>"

text \<open>\<open>struct tss\<close>, and the value \<open>tss_init\<close> clears it to.\<close>

record tss_data =
  tss_reserved0 :: u32
  tss_rsp0 :: u64
  tss_rsp1 :: u64
  tss_rsp2 :: u64
  tss_reserved1 :: u64
  tss_ist1 :: u64
  tss_ist2 :: u64
  tss_ist3 :: u64
  tss_ist4 :: u64
  tss_ist5 :: u64
  tss_ist6 :: u64
  tss_ist7 :: u64
  tss_reserved2 :: u64
  tss_reserved3 :: u16
  tss_iopb_offset :: u16

definition null_tss :: tss_data where
  "null_tss =
     \<lparr>tss_reserved0 = 0, tss_rsp0 = 0, tss_rsp1 = 0, tss_rsp2 = 0, tss_reserved1 = 0,
      tss_ist1 = 0, tss_ist2 = 0, tss_ist3 = 0, tss_ist4 = 0, tss_ist5 = 0,
      tss_ist6 = 0, tss_ist7 = 0, tss_reserved2 = 0, tss_reserved3 = 0, tss_iopb_offset = 0\<rparr>"

record desc_state = ramfs_state +
  gdt :: "gdt_descriptor list"
  gdtr :: "u16 \<times> u64"
  task_register :: u16
  tss :: tss_data

abbreviation (input) GDT_KERNEL_CODE :: u16 where "GDT_KERNEL_CODE \<equiv> 0x08"
abbreviation (input) GDT_TSS :: u16 where "GDT_TSS \<equiv> 0x28"
abbreviation (input) GDT_USER_DATA_RPL3 :: u64 where "GDT_USER_DATA_RPL3 \<equiv> 0x1B"
abbreviation (input) GDT_USER_CODE_RPL3 :: u64 where "GDT_USER_CODE_RPL3 \<equiv> 0x23"

definition make_descriptor :: "u8 \<Rightarrow> u8 \<Rightarrow> gdt_descriptor" where
  "make_descriptor acc flags =
     \<lparr>limit_low = 0xFFFF, base_low = 0, base_mid = 0, access = acc,
      granularity = 0x0F OR (flags AND 0xF0), base_high = 0\<rparr>"

text \<open>\<open>gdt_addr\<close> is the address of the array \<open>gdt\<close>; \<open>gdt_flush\<close> loads the register.\<close>

definition gdt_init :: "u64 \<Rightarrow> 'a desc_state_scheme \<Rightarrow> 'a desc_state_scheme" where
  "gdt_init gdt_addr s =
     (let s = s\<lparr>gdt := [null_descriptor, make_descriptor 0x9A 0xA0, make_descriptor 0x92 0xC0,
                        make_descriptor 0xF2 0xC0, make_descriptor 0xFA 0xA0, null_descriptor, null_descriptor]\<rparr>
      in s\<lparr>gdtr := (7 * 8 - 1, gdt_addr)\<rparr>)"

text \<open>The eight bytes written to slot 6 through a byte pointer, as the fields they fall on.\<close>

definition gdt_load_tss :: "u64 \<Rightarrow> u32 \<Rightarrow> 'a desc_state_scheme \<Rightarrow> 'a desc_state_scheme" where
  "gdt_load_tss tss_base tss_limit s =
     (let low = \<lparr>limit_low = ucast (tss_limit AND 0xFFFF), base_low = ucast (tss_base AND 0xFFFF),
                 base_mid = ucast (drop_bit 16 tss_base AND 0xFF), access = 0x89,
                 granularity = ucast (drop_bit 16 tss_limit AND 0x0F),
                 base_high = ucast (drop_bit 24 tss_base AND 0xFF)\<rparr>;
          base_upper = ucast (drop_bit 32 tss_base AND 0xFFFFFFFF) :: u32;
          slot6_0 = ucast base_upper :: u8; slot6_1 = ucast (drop_bit 8 base_upper) :: u8;
          slot6_2 = ucast (drop_bit 16 base_upper) :: u8; slot6_3 = ucast (drop_bit 24 base_upper) :: u8;
          high = \<lparr>limit_low = ucast slot6_0 OR push_bit 8 (ucast slot6_1),
                  base_low = ucast slot6_2 OR push_bit 8 (ucast slot6_3),
                  base_mid = 0, access = 0, granularity = 0, base_high = 0\<rparr>
      in s\<lparr>gdt := (gdt s)[5 := low, 6 := high], task_register := GDT_TSS\<rparr>)"


section \<open>The task state segment\<close>

abbreviation (input) sizeof_tss :: u16 where "sizeof_tss \<equiv> 104"

definition tss_init :: "u64 \<Rightarrow> 'a desc_state_scheme \<Rightarrow> 'a desc_state_scheme" where
  "tss_init kernel_stack s =
     (let s = s\<lparr>tss := null_tss\<rparr>;
          s = s\<lparr>tss := (tss s)\<lparr>tss_rsp0 := kernel_stack\<rparr>\<rparr>;
          s = s\<lparr>tss := (tss s)\<lparr>tss_iopb_offset := sizeof_tss\<rparr>\<rparr>;
          s = serial_write ''[tss] rsp0='' s;
          s = serial_write_hex_u64 (tss_rsp0 (tss s)) s;
          s = serial_write '' size='' s;
          s = serial_write_dec_u64 (ucast sizeof_tss) s
      in serial_write ''\<newline>'' s)"

definition tss_set_rsp0 :: "u64 \<Rightarrow> 'a desc_state_scheme \<Rightarrow> 'a desc_state_scheme" where
  "tss_set_rsp0 rsp0 s = s\<lparr>tss := (tss s)\<lparr>tss_rsp0 := rsp0\<rparr>\<rparr>"

definition tss_get :: "'a desc_state_scheme \<Rightarrow> tss_data" where
  "tss_get s = tss s"


section \<open>The interrupt controller\<close>

abbreviation (input) PIC1_CMD :: u16 where "PIC1_CMD \<equiv> 0x20"
abbreviation (input) PIC1_DATA :: u16 where "PIC1_DATA \<equiv> 0x21"
abbreviation (input) PIC2_CMD :: u16 where "PIC2_CMD \<equiv> 0xA0"
abbreviation (input) PIC2_DATA :: u16 where "PIC2_DATA \<equiv> 0xA1"
abbreviation (input) PIC_EOI :: u8 where "PIC_EOI \<equiv> 0x20"
abbreviation (input) ICW1_INIT :: u8 where "ICW1_INIT \<equiv> 0x11"
abbreviation (input) ICW4_8086 :: u8 where "ICW4_8086 \<equiv> 0x01"
abbreviation (input) PIC1_OFFSET :: u8 where "PIC1_OFFSET \<equiv> 32"
abbreviation (input) PIC2_OFFSET :: u8 where "PIC2_OFFSET \<equiv> 40"

definition pic_init :: "'a machine_scheme \<Rightarrow> 'a machine_scheme" where
  "pic_init s =
     (let s = outb PIC1_CMD ICW1_INIT s; s = outb PIC2_CMD ICW1_INIT s;
          s = outb PIC1_DATA PIC1_OFFSET s; s = outb PIC2_DATA PIC2_OFFSET s;
          s = outb PIC1_DATA 0x04 s; s = outb PIC2_DATA 0x02 s;
          s = outb PIC1_DATA ICW4_8086 s; s = outb PIC2_DATA ICW4_8086 s;
          s = outb PIC1_DATA 0xFF s
      in outb PIC2_DATA 0xFF s)"

definition pic_eoi :: "u8 \<Rightarrow> 'a machine_scheme \<Rightarrow> 'a machine_scheme" where
  "pic_eoi irq s =
     (let s = (if irq \<ge> 8 then outb PIC2_CMD PIC_EOI s else s)
      in outb PIC1_CMD PIC_EOI s)"

definition irq_mask :: "u8 \<Rightarrow> 'a machine_scheme \<Rightarrow> 'a machine_scheme" where
  "irq_mask irq s =
     (let (port, irq) = (if irq < 8 then (PIC1_DATA, irq) else (PIC2_DATA, irq - 8));
          (v, s) = inb port s
      in outb port (v OR push_bit (unat irq) 1) s)"

definition irq_unmask :: "u8 \<Rightarrow> 'a machine_scheme \<Rightarrow> 'a machine_scheme" where
  "irq_unmask irq s =
     (let (port, irq) = (if irq < 8 then (PIC1_DATA, irq) else (PIC2_DATA, irq - 8));
          (v, s) = inb port s
      in outb port (v AND NOT (push_bit (unat irq) 1)) s)"


end
