(* ===== verification/Elf.thy ===== *)
theory Elf
  imports Vmm
begin
text \<open>
  The loader for ELF binaries, \<open>elf.c\<close>: it checks the header, and for every loadable
  segment takes frames, fills them with the file's data and maps them for user mode.
\<close>

section \<open>Data\<close>

text \<open>The fields of \<open>Elf64_Ehdr\<close> and \<open>Elf64_Phdr\<close>, by their offsets in the packed structs.\<close>

abbreviation e_ident :: "'a machine_scheme \<Rightarrow> u64 \<Rightarrow> u64 \<Rightarrow> u8" where "e_ident s h i \<equiv> mem s (h + i)"
abbreviation e_type :: "'a machine_scheme \<Rightarrow> u64 \<Rightarrow> u16" where "e_type s h \<equiv> load16 (mem s) (h + 16)"
abbreviation e_machine :: "'a machine_scheme \<Rightarrow> u64 \<Rightarrow> u16" where "e_machine s h \<equiv> load16 (mem s) (h + 18)"
abbreviation e_entry :: "'a machine_scheme \<Rightarrow> u64 \<Rightarrow> u64" where "e_entry s h \<equiv> get64 s (h + 24)"
abbreviation e_phoff :: "'a machine_scheme \<Rightarrow> u64 \<Rightarrow> u64" where "e_phoff s h \<equiv> get64 s (h + 32)"
abbreviation e_phentsize :: "'a machine_scheme \<Rightarrow> u64 \<Rightarrow> u16" where "e_phentsize s h \<equiv> load16 (mem s) (h + 54)"
abbreviation e_phnum :: "'a machine_scheme \<Rightarrow> u64 \<Rightarrow> u16" where "e_phnum s h \<equiv> load16 (mem s) (h + 56)"
abbreviation (input) sizeof_Ehdr :: u64 where "sizeof_Ehdr \<equiv> 64"

abbreviation p_type :: "'a machine_scheme \<Rightarrow> u64 \<Rightarrow> u32" where "p_type s p \<equiv> get32 s p"
abbreviation p_flags :: "'a machine_scheme \<Rightarrow> u64 \<Rightarrow> u32" where "p_flags s p \<equiv> get32 s (p + 4)"
abbreviation p_offset :: "'a machine_scheme \<Rightarrow> u64 \<Rightarrow> u64" where "p_offset s p \<equiv> get64 s (p + 8)"
abbreviation p_vaddr :: "'a machine_scheme \<Rightarrow> u64 \<Rightarrow> u64" where "p_vaddr s p \<equiv> get64 s (p + 16)"
abbreviation p_filesz :: "'a machine_scheme \<Rightarrow> u64 \<Rightarrow> u64" where "p_filesz s p \<equiv> get64 s (p + 32)"
abbreviation p_memsz :: "'a machine_scheme \<Rightarrow> u64 \<Rightarrow> u64" where "p_memsz s p \<equiv> get64 s (p + 40)"

abbreviation (input) PT_LOAD :: u32 where "PT_LOAD \<equiv> 1"
abbreviation (input) PF_X :: u32 where "PF_X \<equiv> 1"
abbreviation (input) PF_W :: u32 where "PF_W \<equiv> 2"
abbreviation (input) PF_R :: u32 where "PF_R \<equiv> 4"


section \<open>Operations\<close>

definition elf_validate :: "u64 \<Rightarrow> u64 \<Rightarrow> 'a vmm_state_scheme \<Rightarrow> bool \<times> 'a vmm_state_scheme" where
  "elf_validate ehdr sz s =
     (if sz < sizeof_Ehdr then (False, serial_write ''[elf] image too small for ELF header\<newline>'' s)
      else if e_ident s ehdr 0 \<noteq> 0x7F \<or> e_ident s ehdr 1 \<noteq> 0x45 \<or> e_ident s ehdr 2 \<noteq> 0x4C \<or> e_ident s ehdr 3 \<noteq> 0x46
      then (False, serial_write ''[elf] invalid magic\<newline>'' s)
      else if e_ident s ehdr 4 \<noteq> 2 then (False, serial_write ''[elf] not ELF64\<newline>'' s)
      else if e_ident s ehdr 5 \<noteq> 1 then (False, serial_write ''[elf] not little-endian\<newline>'' s)
      else if e_type s ehdr \<noteq> 2 then (False, serial_write ''[elf] not ET_EXEC\<newline>'' s)
      else if e_machine s ehdr \<noteq> 62 then (False, serial_write ''[elf] not x86_64\<newline>'' s)
      else (True, s))"

text \<open>The loop that clears a frame and the one that copies the file's bytes.\<close>

definition zero_frame :: "u64 \<Rightarrow> 'a machine_scheme \<Rightarrow> 'a machine_scheme" where
  "zero_frame frame s = word_for (0 :: u64) VMM_PAGE_SIZE (\<lambda>i. put8 (frame + i) 0) s"

definition copy_segment_bytes :: "u64 \<Rightarrow> u64 \<Rightarrow> u64 \<Rightarrow> 'a machine_scheme \<Rightarrow> 'a machine_scheme" where
  "copy_segment_bytes dst src copy_len s = word_for 0 copy_len (\<lambda>i s. put8 (dst + i) (mem s (src + i)) s) s"

text \<open>The part of the loop of \<open>load_segment\<close> that copies what the file has of one page.\<close>

definition fill_page :: "u64 \<Rightarrow> u64 \<Rightarrow> u64 \<Rightarrow> u64 \<Rightarrow> 'a vmm_state_scheme \<Rightarrow> 'a vmm_state_scheme" where
  "fill_page img phdr page frame s =
     (let seg_data_start = p_vaddr s phdr;
          seg_data_end = p_vaddr s phdr + p_filesz s phdr;
          page_start = page;
          page_end = page + VMM_PAGE_SIZE;
          copy_start = (if page_start > seg_data_start then page_start else seg_data_start);
          copy_end = (if page_end < seg_data_end then page_end else seg_data_end)
      in if copy_start < copy_end
         then let dst_offset = copy_start - page;
                  src_offset = p_offset s phdr + (copy_start - p_vaddr s phdr);
                  copy_len = copy_end - copy_start
              in copy_segment_bytes (frame + dst_offset) (img + src_offset) copy_len s
         else s)"

text \<open>
  The loop over the pages. Both its bounds are page-aligned, so the 64-bit counter of the
  code reaches the end without wrapping around.
\<close>

function load_pages :: "u64 \<Rightarrow> u64 \<Rightarrow> u32 \<Rightarrow> nat \<Rightarrow> nat \<Rightarrow> 'a vmm_state_scheme \<Rightarrow> 'a vmm_state_scheme" where
  "load_pages img phdr flags page vaddr_end s =
     (if page < vaddr_end
      then let (frame, s) = pmm_alloc_frame s
           in if frame = 0 then serial_write ''[elf] out of frames\<newline>'' s
              else let s = zero_frame frame s;
                       s = fill_page img phdr (of_nat page) frame s;
                       s = vmm_map_page (of_nat page) frame flags s;
                       s = s\<lparr>invlpgs := of_nat page # invlpgs s\<rparr>
                   in load_pages img phdr flags (page + 4096) vaddr_end s
      else s)"
  by pat_completeness auto
termination
  by (relation "measure (\<lambda>(_, _, _, page, vaddr_end, _). vaddr_end - page)") auto

declare load_pages.simps [simp del]

definition load_segment :: "u64 \<Rightarrow> u64 \<Rightarrow> 'a vmm_state_scheme \<Rightarrow> 'a vmm_state_scheme" where
  "load_segment img phdr s =
     (let vaddr_start = p_vaddr s phdr AND NOT 0xFFF;
          vaddr_end = (p_vaddr s phdr + p_memsz s phdr + 0xFFF) AND NOT 0xFFF;
          flags = VMM_FLAG_PRESENT OR VMM_FLAG_USER;
          flags = (if p_flags s phdr AND PF_W \<noteq> 0 then flags OR VMM_FLAG_WRITE else flags);
          s = serial_write ''[elf]   vaddr='' s;
          s = serial_write_hex_u64 (p_vaddr s phdr) s;
          s = serial_write '' filesz='' s;
          s = serial_write_dec_u64 (p_filesz s phdr) s;
          s = serial_write '' memsz='' s;
          s = serial_write_dec_u64 (p_memsz s phdr) s;
          s = serial_write '' flags='' s;
          s = (if p_flags s phdr AND PF_R \<noteq> 0 then serial_write ''R'' s else s);
          s = (if p_flags s phdr AND PF_W \<noteq> 0 then serial_write ''W'' s else s);
          s = (if p_flags s phdr AND PF_X \<noteq> 0 then serial_write ''X'' s else s);
          s = serial_write ''\<newline>'' s
      in load_pages img phdr flags (unat vaddr_start) (unat vaddr_end) s)"

text \<open>The body of the loop over the program headers, with the number of segments loaded.\<close>

definition load_phdr :: "u64 \<Rightarrow> u16 \<Rightarrow> u32 \<times> 'a vmm_state_scheme \<Rightarrow> u32 \<times> 'a vmm_state_scheme" where
  "load_phdr img i = (\<lambda>(loaded, s).
     let phdr = img + e_phoff s img + ucast i * ucast (e_phentsize s img)
     in if p_type s phdr \<noteq> PT_LOAD then (loaded, s)
        else let s = serial_write ''[elf] PT_LOAD segment '' s;
                 s = serial_write_dec_u64 (ucast i) s;
                 s = serial_write '':\<newline>'' s;
                 s = load_segment img phdr s
             in (loaded + 1, s))"

definition elf_load :: "u64 \<Rightarrow> u64 \<Rightarrow> 'a vmm_state_scheme \<Rightarrow> u64 \<times> 'a vmm_state_scheme" where
  "elf_load img sz s =
     (let (valid, s) = elf_validate img sz s
      in if \<not> valid then (0, s)
         else let s = serial_write ''[elf] valid ELF64 x86_64 binary\<newline>'' s;
                  s = serial_write ''[elf] entry='' s;
                  s = serial_write_hex_u64 (e_entry s img) s;
                  s = serial_write '' phnum='' s;
                  s = serial_write_dec_u64 (ucast (e_phnum s img)) s;
                  s = serial_write ''\<newline>'' s;
                  ph_end = e_phoff s img + ucast (e_phnum s img) * ucast (e_phentsize s img)
              in if ph_end > sz
                 then (0, serial_write ''[elf] program headers exceed image size\<newline>'' s)
                 else let (loaded, s) = word_for 0 (e_phnum s img) (load_phdr img) (0, s);
                          s = serial_write ''[elf] loaded '' s;
                          s = serial_write_dec_u64 (ucast loaded) s;
                          s = serial_write '' segments\<newline>'' s
                      in (e_entry s img, s))"


end
