(* ===== verification/Elf_Loader.thy ===== *)
theory Elf_Loader
  imports Elf Bytes Heap_Allocator
begin
text \<open>
  What the loader promises: every byte of a loaded segment is the file's byte or zero, at the
  addresses the segment asks for and with the rights it asks for, and nothing else that is
  mapped changes.
\<close>

section \<open>Filling one page\<close>

text \<open>The byte that belongs at address \<open>a\<close> of the segment described at \<open>phdr\<close>.\<close>

definition seg_byte :: "u64 \<Rightarrow> u64 \<Rightarrow> 'a machine_scheme \<Rightarrow> nat \<Rightarrow> u8" where
  "seg_byte img phdr s a =
     (if unat (p_vaddr s phdr) \<le> a \<and> a < unat (p_vaddr s phdr) + unat (p_filesz s phdr)
      then mem s (img + (p_offset s phdr + of_nat (a - unat (p_vaddr s phdr)))) else 0)"

lemma frame_range:
  assumes "f < 32768" "k + n \<le> 4096"
  shows "unat (x - (frame_addr f + of_nat k)) < n \<longleftrightarrow> unat x div 4096 = f \<and> k \<le> unat x mod 4096 \<and> unat x mod 4096 < k + n"
proof -
  have "unat (frame_addr f + of_nat k) = f * 4096 + k" if "n > 0"
    using unat_add_of_nat [of "frame_addr f" k] unat_frame_addr [OF assms(1)] assms that by simp
  moreover have "f * 4096 + k \<le> y \<and> y < f * 4096 + k + n \<longleftrightarrow> y div 4096 = f \<and> k \<le> y mod 4096 \<and> y mod 4096 < k + n" for y :: nat
  proof -
    obtain q r where y: "y = q * 4096 + r" "r < 4096" "y div 4096 = q" "y mod 4096 = r" by (metis div_mult_mod_eq mod_less_divisor zero_less_numeral)
    have "f * 4096 + k \<le> q * 4096 + r \<Longrightarrow> q * 4096 + r < f * 4096 + k + n \<Longrightarrow> q = f" using y(2) assms(2) by linarith
    then have "f * 4096 + k \<le> q * 4096 + r \<and> q * 4096 + r < f * 4096 + k + n \<longleftrightarrow> q = f \<and> k \<le> r \<and> r < k + n" by auto
    then show ?thesis unfolding y(3,4) unfolding y(1) .
  qed
  ultimately show ?thesis
    using assms by (cases "n = 0") (auto simp: range_iff)
qed

lemma frame_byte: "f < 32768 \<Longrightarrow> unat x div 4096 = f \<Longrightarrow> x = frame_addr f + of_nat (unat x mod 4096)"
proof -
  assume "f < 32768" "unat x div 4096 = f"
  then have "unat x = f * 4096 + unat x mod 4096" using div_mult_mod_eq [of "unat x" 4096] by simp
  then have "x = of_nat (f * 4096 + unat x mod 4096)" using of_nat_unat_add [of x 0] by simp
  then show ?thesis by (simp add: frame_addr_def)
qed


text \<open>The bounds of the copy, as natural numbers: nothing wraps around.\<close>

lemma fill_page_bounds:
  fixes s :: "'a vmm_state_scheme"
  assumes v: "p_vaddr s phdr = of_nat v" "p_filesz s phdr = of_nat fs" "v + fs \<le> 2 ^ 62" and page: "page + 4096 \<le> 2 ^ 62"
  defines "cs \<equiv> max page v" and "ce \<equiv> min (page + 4096) (v + fs)"
  shows "fill_page img phdr (of_nat page) frame s =
    (if cs < ce then copy_segment_bytes (frame + of_nat (cs - page))
       (img + (p_offset s phdr + of_nat (cs - v))) (of_nat (ce - cs)) s else s)"
proof -
  have lt: "of_nat a < (of_nat c :: u64) \<longleftrightarrow> a < c" if "a \<le> 2 ^ 62" "c \<le> 2 ^ 62" for a c
    using that by (simp add: word_less_nat_alt unat_of_nat_small)
  have cs: "(if of_nat page > (of_nat v :: u64) then of_nat page else of_nat v) = (of_nat cs :: u64)"
    using lt [of v page] v(3) page by (auto simp: cs_def)
  have ce: "(if of_nat (page + 4096) < (of_nat (v + fs) :: u64) then of_nat (page + 4096) else of_nat (v + fs)) = (of_nat ce :: u64)"
    using lt [of "page + 4096" "v + fs"] v(3) page by (auto simp: ce_def simp del: of_nat_add)
  show ?thesis
    using cs ce lt [of cs ce] v(3) page unfolding fill_page_def Let_def v(1,2)
    by (auto simp: cs_def ce_def of_nat_diff)
qed

text \<open>Copying a part of the segment into a frame that has been cleared.\<close>

lemma copy_to_frame:
  fixes z :: "'a vmm_state_scheme"
  assumes f: "f < 32768" and kn: "k + n \<le> 4096" and zero: "\<And>x. unat x div 4096 = f \<Longrightarrow> mem z x = 0"
    and src: "\<And>i. i < n \<Longrightarrow> unat (src + of_nat i) div 4096 \<noteq> f"
  shows "copy_segment_bytes (frame_addr f + of_nat k) src (of_nat n) z =
    z\<lparr>mem := (\<lambda>x. if unat x div 4096 = f
      then (if k \<le> unat x mod 4096 \<and> unat x mod 4096 < k + n then mem z (src + of_nat (unat x mod 4096 - k)) else 0)
      else mem z x)\<rparr>"
proof -
  have n: "unat (of_nat n :: u64) = n" using kn by (intro unat_of_nat_small) simp
  have c: "copy_segment_bytes (frame_addr f + of_nat k) src (of_nat n) z =
    z\<lparr>mem := overlay (frame_addr f + of_nat k) n (\<lambda>j. mem z (src + j)) (mem z)\<rparr>"
    unfolding copy_segment_bytes_def
  proof (subst copy_loop, unfold n)
    fix i assume "i < n"
    from src [OF this] have "\<not> unat (src + of_nat i - (frame_addr f + of_nat k)) < n"
      unfolding frame_range [OF f kn] by blast
    then show "n \<le> unat (src + of_nat i - (frame_addr f + of_nat k))" by (simp only: not_less)
  qed simp
  have d: "mem z (src + (x - (frame_addr f + of_nat k))) = mem z (src + of_nat (unat x mod 4096 - k))" if "unat x div 4096 = f" "k \<le> unat x mod 4096" for x
    by (subst frame_byte [OF f that(1)]) (simp add: of_nat_diff [OF that(2)])
  have "overlay (frame_addr f + of_nat k) n (\<lambda>j. mem z (src + j)) (mem z) = (\<lambda>x. if unat x div 4096 = f
      then (if k \<le> unat x mod 4096 \<and> unat x mod 4096 < k + n then mem z (src + of_nat (unat x mod 4096 - k)) else 0)
      else mem z x)"
    unfolding overlay_def frame_range [OF f kn] by (intro ext) (auto simp del: of_nat_diff simp: zero d)
  then show ?thesis using c by simp
qed

text \<open>The loop's two phases together fill the frame with the segment's bytes and nothing else.\<close>

lemma fill_frame:
  fixes s :: "'a vmm_state_scheme"
  assumes f: "f < 32768" and page: "page + 4096 \<le> 2 ^ 62"
    and seg: "unat (p_vaddr s phdr) + unat (p_filesz s phdr) \<le> 2 ^ 62"
    and hdr: "\<forall>i<56. unat (phdr + of_nat i) div 4096 \<noteq> f"
    and data: "\<forall>i<unat (p_filesz s phdr). unat (img + (p_offset s phdr + of_nat i)) div 4096 \<noteq> f"
  shows "fill_page img phdr (of_nat page) (frame_addr f) (zero_frame (frame_addr f) s) =
    s\<lparr>mem := (\<lambda>x. if unat x div 4096 = f then seg_byte img phdr s (page + unat x mod 4096) else mem s x)\<rparr>"
proof -
  define v fs where "v = unat (p_vaddr s phdr)" and "fs = unat (p_filesz s phdr)"
  have b: "v + fs \<le> 2 ^ 62" using seg by (simp add: v_def fs_def)
  define z where "z = zero_frame (frame_addr f) s"
  have z: "z = s\<lparr>mem := overlay (frame_addr f) 4096 (\<lambda>_. 0) (mem s)\<rparr>" by (simp add: z_def zero_frame_def fill_loop)
  have zo: "mem z x = (if unat x div 4096 = f then 0 else mem s x)" for x
    using frame_range [OF f, of 0 4096 x] by (simp add: z overlay_def)
  have L: "get64 z (phdr + of_nat j) = get64 s (phdr + of_nat j)" if "j + 8 \<le> 56" for j
  proof (rule load_le_cong)
    fix i :: nat assume "i < 8"
    then show "mem z (phdr + of_nat j + of_nat i) = mem s (phdr + of_nat j + of_nat i)"
      using hdr [rule_format, of "j + i"] that by (simp add: zo add.assoc)
  qed
  have F: "p_vaddr z phdr = of_nat v" "p_filesz z phdr = of_nat fs" "p_offset z phdr = p_offset s phdr"
    using L [of 16] L [of 32] L [of 8] by (simp_all add: v_def fs_def)
  define cs ce where "cs = max page v" and "ce = min (page + 4096) (v + fs)"
  note fp = fill_page_bounds [OF F(1,2) b page, of img "frame_addr f", folded cs_def ce_def, unfolded F(3)]
  have sb: "seg_byte img phdr s (page + r) = (if cs \<le> page + r \<and> page + r < ce
      then mem s (img + (p_offset s phdr + of_nat (page + r - v))) else 0)" if "r < 4096" for r
    using that by (auto simp: seg_byte_def v_def [symmetric] fs_def [symmetric] cs_def ce_def)
  show ?thesis
  proof (cases "cs < ce")
    case False
    then have "mem z = (\<lambda>x. if unat x div 4096 = f then seg_byte img phdr s (page + unat x mod 4096) else mem s x)"
      by (intro ext) (auto simp: zo sb)
    then show ?thesis using fp False unfolding z_def [symmetric] by (simp add: z)
  next
    case True
    let ?src = "img + (p_offset s phdr + of_nat (cs - v))"
    have kn: "cs - page + (ce - cs) \<le> 4096" using True by (simp add: cs_def ce_def)
    have src: "unat (?src + of_nat i) div 4096 \<noteq> f" if "i < ce - cs" for i
    proof -
      have "cs - v + i < fs" using that True by (auto simp: cs_def ce_def)
      from data [folded fs_def, rule_format, OF this] show ?thesis unfolding of_nat_add by (simp only: add.assoc not_False_eq_True)
    qed
    have "mem z (?src + of_nat (r - (cs - page))) = mem s (img + (p_offset s phdr + of_nat (page + r - v)))"
      if r: "cs - page \<le> r" "r < cs - page + (ce - cs)" for r
    proof -
      have i: "r - (cs - page) < ce - cs" using r True by arith
      have o: "page + r - v = cs - v + (r - (cs - page))" using r by (auto simp: cs_def)
      show ?thesis using src [OF i] unfolding zo o of_nat_add by (simp only: if_False add.assoc)
    qed
    note E = this
    have "page \<le> cs" by (simp add: cs_def)
    then have rng: "cs \<le> page + r \<and> page + r < ce \<longleftrightarrow> cs - page \<le> r \<and> r < cs - page + (ce - cs)" for r using True by arith
    have "(\<lambda>x. if unat x div 4096 = f
        then (if cs - page \<le> unat x mod 4096 \<and> unat x mod 4096 < cs - page + (ce - cs)
          then mem z (?src + of_nat (unat x mod 4096 - (cs - page))) else 0) else mem z x) =
      (\<lambda>x. if unat x div 4096 = f then seg_byte img phdr s (page + unat x mod 4096) else mem s x)"
      unfolding sb [OF mod_less_divisor [OF zero_less_numeral]] rng by (intro ext if_cong refl E) (simp_all add: zo)
    note M = this
    have zz: "mem z x = 0" if "unat x div 4096 = f" for x using that by (simp add: zo)
    have "fill_page img phdr (of_nat page) (frame_addr f) z =
      z\<lparr>mem := (\<lambda>x. if unat x div 4096 = f then seg_byte img phdr s (page + unat x mod 4096) else mem s x)\<rparr>"
      using fp copy_to_frame [OF f kn zz src, unfolded M] True by (simp only: if_True)
    then show ?thesis unfolding z_def [symmetric] by (simp add: z)
  qed
qed


section \<open>Loading a segment\<close>

text \<open>
  Bytes of the image: neither in a page table nor in a free frame below 2 MiB, which is
  where the loader takes its frames from.
\<close>

definition image_byte :: "'a vmm_state_scheme \<Rightarrow> u64 \<Rightarrow> bool" where
  "image_byte s x \<longleftrightarrow> unat x div 4096 \<notin> table_frames s \<union> {f \<in> free_frames s. f < 512}"

text \<open>The pages a segment covers, by number.\<close>

definition seg_pages :: "u64 \<Rightarrow> 'a vmm_state_scheme \<Rightarrow> nat set" where
  "seg_pages phdr s = {unat (p_vaddr s phdr) div 4096..<(unat (p_vaddr s phdr) + unat (p_memsz s phdr) + 4095) div 4096}"

text \<open>
  A segment the loader can place: header and data are bytes of the image, outside the pages
  the segment will be mapped to, and its addresses are in the lower half.
\<close>

definition seg_image :: "u64 \<Rightarrow> u64 \<Rightarrow> 'a vmm_state_scheme \<Rightarrow> bool" where
  "seg_image img phdr s \<longleftrightarrow> (\<forall>i<56. image_byte s (phdr + of_nat i) \<and> unat (phdr + of_nat i) div 4096 \<notin> seg_pages phdr s) \<and>
     (\<forall>i<unat (p_filesz s phdr). image_byte s (img + (p_offset s phdr + of_nat i)) \<and>
       unat (img + (p_offset s phdr + of_nat i)) div 4096 \<notin> seg_pages phdr s) \<and>
     unat (p_vaddr s phdr) + unat (p_memsz s phdr) + 4096 \<le> 2 ^ 47 \<and> p_filesz s phdr \<le> p_memsz s phdr"

lemma image_byte_kept:
  assumes "evolves s s'" "free_frames s - free_frames s' \<subseteq> {..<512}" "image_byte s x"
  shows "image_byte s' x" "mem s' x = mem s x"
proof -
  have "unat x div 4096 \<notin> table_frames s \<union> (free_frames s - free_frames s')" using assms(2,3) by (auto simp: image_byte_def)
  then show "mem s' x = mem s x" by (rule evolves_mem [OF assms(1)])
  show "image_byte s' x"
    using assms evolves_frames [OF assms(1)] evolves_free [OF assms(1)] by (auto simp: image_byte_def)
qed

lemma phdr_same:
  assumes "\<And>i. i < 56 \<Longrightarrow> mem s' (phdr + of_nat i) = mem s (phdr + of_nat i)"
  shows "p_vaddr s' phdr = p_vaddr s phdr" "p_filesz s' phdr = p_filesz s phdr" "p_memsz s' phdr = p_memsz s phdr"
    "p_offset s' phdr = p_offset s phdr" "p_flags s' phdr = p_flags s phdr"
proof -
  have byte: "mem s' (phdr + of_nat j + of_nat i) = mem s (phdr + of_nat j + of_nat i)" if "j + n \<le> 56" "i < n" for i j n
    using assms [of "j + i"] that by (simp add: add.assoc)
  have "get64 s' (phdr + of_nat j) = get64 s (phdr + of_nat j)" if "j + 8 \<le> 56" for j
    by (rule load_le_cong) (rule byte [OF that])
  note get = this
  have w: "get32 s' (phdr + of_nat 4) = get32 s (phdr + of_nat 4)"
    by (rule load_le_cong) (rule byte [of 4 4], simp_all)
  from get [of 16] get [of 32] get [of 40] get [of 8] w
  show "p_vaddr s' phdr = p_vaddr s phdr" "p_filesz s' phdr = p_filesz s phdr" "p_memsz s' phdr = p_memsz s phdr"
    "p_offset s' phdr = p_offset s phdr" "p_flags s' phdr = p_flags s phdr" by simp_all
qed

lemma seg_kept:
  assumes ev: "evolves s s'" "free_frames s - free_frames s' \<subseteq> {..<512}" and seg: "seg_image img phdr s"
  shows "seg_image img phdr s'" "seg_byte img phdr s' = seg_byte img phdr s"
proof -
  note K = image_byte_kept [OF ev]
  have hdr: "image_byte s (phdr + of_nat i)" if "i < 56" for i using seg that by (simp add: seg_image_def)
  have P: "p_vaddr s' phdr = p_vaddr s phdr" "p_filesz s' phdr = p_filesz s phdr" "p_memsz s' phdr = p_memsz s phdr"
    "p_offset s' phdr = p_offset s phdr" by (rule phdr_same; erule K(2) [OF hdr])+
  have data: "image_byte s (img + (p_offset s phdr + of_nat i))" if "i < unat (p_filesz s phdr)" for i
    using seg that by (simp add: seg_image_def)
  show "seg_image img phdr s'" unfolding seg_image_def seg_pages_def P using seg K(1) by (simp add: seg_image_def seg_pages_def)
  show "seg_byte img phdr s' = seg_byte img phdr s"
    unfolding seg_byte_def P by (intro ext if_cong refl K(2) data) linarith
qed

lemma seg_view:
  assumes "mem s' = mem s" shows "seg_byte img phdr s' = seg_byte img phdr s"
  using assms by (intro ext) (simp add: seg_byte_def)

lemma fresh_run_invlpgs:
  assumes "fresh_run v fs fl s s'"
  shows "fresh_run v fs fl (s\<lparr>invlpgs := l\<rparr>) (s'\<lparr>invlpgs := l\<rparr>)"
proof -
  have "same_but_tables s s'" by (rule evolves_same [OF fresh_run_evolves [OF assms]])
  then have "same_but_tables (s\<lparr>invlpgs := l\<rparr>) (s'\<lparr>invlpgs := l\<rparr>)"
    unfolding same_but_tables_def by (cases s; cases s') simp
  then show ?thesis using assms unfolding fresh_run_def evolves_def by simp
qed


text \<open>One round of the loop over the pages.\<close>

lemma load_page_step:
  fixes s :: "'a vmm_state_scheme" and flags :: u32
  assumes ok: "vmm_ok s" and room: "4 \<le> card {f \<in> free_frames s. f < 512}" and seg: "seg_image img phdr s"
    and page: "page + 4096 \<le> 2 ^ 48" and a: "pmm_alloc_frame s = (a, s1)"
  defines "s2 \<equiv> vmm_map_page (of_nat page) a flags (fill_page img phdr (of_nat page) a (zero_frame a s1))"
  obtains f where "a \<noteq> 0" "f \<in> free_frames s" "f < 512" "f \<notin> free_frames s2" "f \<notin> table_frames s2"
    "evolves s s2" "card (free_frames s) \<le> card (free_frames s2) + 4"
    "vmm_leaf s2 = (\<lambda>va. if same_page va (of_nat page) then frame_addr f OR ucast flags else vmm_leaf s va)"
    "\<forall>x. unat x div 4096 = f \<longrightarrow> mem s2 x = seg_byte img phdr s (page + unat x mod 4096)"
proof -
  define f where "f = Min (free_frames s)"
  have wf: "pmm_wf s" using ok by (simp add: vmm_ok_def vmm_inv_def pmm_inv_def)
  have "{g \<in> free_frames s. g < 512} \<noteq> {}" using room by (intro notI) simp
  then obtain g where g: "g \<in> free_frames s" "g < 512" by blast
  have f: "f \<in> free_frames s" unfolding f_def by (rule Min_in) (use g in auto)
  have "f \<le> g" unfolding f_def by (rule Min_le [OF finite_free_frames g(1)])
  with f g(2) have f: "f \<in> free_frames s" "f < 512" by simp_all
  have a': "a = frame_addr f" "s1 = take_frame f s" using a g(1) wf by (auto simp: pmm_alloc_frame_eq f_def split: if_splits)
  have mem1: "mem s1 = mem s" by (simp add: a'(2) frame_simps)
  have img: "unat x div 4096 \<noteq> f" if "image_byte s x" for x using that f by (auto simp: image_byte_def)
  define m where "m = (\<lambda>x. if unat x div 4096 = f then seg_byte img phdr s (page + unat x mod 4096) else mem s x)"
  have "fill_page img phdr (of_nat page) a (zero_frame a s1) = s1\<lparr>mem := m\<rparr>"
    unfolding a'(1) m_def mem1 [symmetric] seg_view [OF mem1, symmetric]
    by (rule fill_frame) (use f page seg img in \<open>auto simp: seg_image_def mem1 word_le_nat_alt\<close>)
  then have s2: "s2 = vmm_map_page (of_nat page) a flags (s1\<lparr>mem := m\<rparr>)" by (simp add: s2_def)
  have lt: "f < 32768" using f by simp
  have m: "\<forall>x. unat x div 4096 \<noteq> unat a div 4096 \<longrightarrow> m x = mem s x" by (simp add: m_def a'(1) unat_frame_addr [OF lt])
  have room': "4 \<le> card (free_frames s)"
    using room card_mono [OF finite_free_frames, of "{f \<in> free_frames s. f < 512}" s] by fastforce
  show thesis
  proof (rule map_fresh [OF ok room' a m s2])
    fix f'
    assume F: "a = frame_addr f'" "a \<noteq> 0" "f' \<in> free_frames s" "f' \<notin> free_frames s2" "f' \<notin> table_frames s2"
      "evolves s s2" "card (free_frames s) \<le> card (free_frames s2) + 4"
      "vmm_leaf s2 = (\<lambda>va. if same_page va (of_nat page) then frame_addr f' OR ucast flags else vmm_leaf s va)"
      "\<forall>x. unat x div 4096 = f' \<longrightarrow> mem s2 x = m x"
    have "f' = f" using F(1) a'(1) free_frames_bound [OF F(3)] lt unat_frame_addr by (metis mult_cancel2 zero_neq_numeral)
    note F = F [unfolded this]
    from F(9) have "\<forall>x. unat x div 4096 = f \<longrightarrow> mem s2 x = seg_byte img phdr s (page + unat x mod 4096)" by (simp add: m_def)
    from that [OF F(2,3) f(2) F(4-8) this] show thesis .
  qed
qed

lemma load_pages_fresh:
  fixes s :: "'a vmm_state_scheme"
  assumes "vmm_ok s" "4 * n \<le> card {f \<in> free_frames s. f < 512}" "seg_image img phdr s" "page + 4096 * n \<le> 2 ^ 48"
  shows "\<exists>fs s'. length fs = n \<and> load_pages img phdr flags page (page + 4096 * n) s = s' \<and>
    fresh_run (of_nat page) fs flags s (s'\<lparr>invlpgs := invlpgs s\<rparr>) \<and> set fs \<subseteq> {..<512} \<and>
    (\<forall>k<n. \<forall>x. unat x div 4096 = fs ! k \<longrightarrow> mem s' x = seg_byte img phdr s (page + 4096 * k + unat x mod 4096))"
  using assms
proof (induction n arbitrary: page s)
  case 0
  have "load_pages img phdr flags page (page + 4096 * 0) s = s" by (subst load_pages.simps) simp
  then show ?case using fresh_run_Nil [OF 0(1), of "of_nat page" flags] by simp
next
  case (Suc n)
  obtain a s1 where a: "pmm_alloc_frame s = (a, s1)" by fastforce
  define s2 where "s2 = vmm_map_page (of_nat page) a flags (fill_page img phdr (of_nat page) a (zero_frame a s1))"
  have room: "4 \<le> card {f \<in> free_frames s. f < 512}" "page + 4096 \<le> 2 ^ 48" using Suc.prems(2,4) by simp_all
  obtain f where f: "a \<noteq> 0" "f \<in> free_frames s" "f < 512" "f \<notin> free_frames s2" "f \<notin> table_frames s2"
    "evolves s s2" "card (free_frames s) \<le> card (free_frames s2) + 4"
    "vmm_leaf s2 = (\<lambda>va. if same_page va (of_nat page) then frame_addr f OR ucast flags else vmm_leaf s va)"
    "\<forall>x. unat x div 4096 = f \<longrightarrow> mem s2 x = seg_byte img phdr s (page + unat x mod 4096)"
    unfolding s2_def by (rule load_page_step [OF Suc.prems(1) room(1) Suc.prems(3) room(2) a])
  have low: "free_frames s - free_frames s2 \<subseteq> {..<512}" by (rule taken_low [OF f(6,7) room(1)])
  note K = seg_kept [OF f(6) low Suc.prems(3)]
  define t where "t = s2\<lparr>invlpgs := of_nat page # invlpgs s2\<rparr>"
  have t: "vmm_ok t" "4 * n \<le> card {f \<in> free_frames t. f < 512}" "seg_image img phdr t" "page + 4096 + 4096 * n \<le> 2 ^ 48"
    using evolves_ok [OF f(6)] free_low_card [OF f(6,7), of 512] Suc.prems(2,4) K(1)
    by (simp_all add: t_def seg_image_def image_byte_def seg_pages_def)
  from Suc.IH [OF t] obtain fs s' where fs: "length fs = n" "load_pages img phdr flags (page + 4096) (page + 4096 + 4096 * n) t = s'"
    "fresh_run (of_nat (page + 4096)) fs flags t (s'\<lparr>invlpgs := invlpgs t\<rparr>)" "set fs \<subseteq> {..<512}"
    "\<forall>k<n. \<forall>x. unat x div 4096 = fs ! k \<longrightarrow> mem s' x = seg_byte img phdr t (page + 4096 + 4096 * k + unat x mod 4096)" by blast
  have l: "load_pages img phdr flags page (page + 4096 * Suc n) s = s'"
    using fs(2) f(1) by (subst load_pages.simps) (simp add: a s2_def [symmetric] t_def Let_def add.assoc)
  have inv: "invlpgs s2 = invlpgs s" using evolves_same [OF f(6)] unfolding same_but_tables_def by (cases s; cases s2) simp
  have "s'\<lparr>invlpgs := invlpgs t, invlpgs := invlpgs s\<rparr> = s'\<lparr>invlpgs := invlpgs s\<rparr>" "t\<lparr>invlpgs := invlpgs s\<rparr> = s2"
    by (simp_all add: t_def inv [symmetric])
  with fresh_run_invlpgs [OF fs(3), of "invlpgs s"]
  have r: "fresh_run (of_nat page + 4096) fs flags s2 (s'\<lparr>invlpgs := invlpgs s\<rparr>)" by (simp add: add.commute)
  have run: "fresh_run (of_nat page) (f # fs) flags s (s'\<lparr>invlpgs := invlpgs s\<rparr>)"
    by (rule fresh_run_Cons [OF f(6,7,2,4,5,8) r])
  have "mem s' x = seg_byte img phdr s (page + 4096 * k + unat x mod 4096)" if "k < Suc n" "unat x div 4096 = (f # fs) ! k" for k x
  proof (cases k)
    case 0
    have "mem (s'\<lparr>invlpgs := invlpgs s\<rparr>) x = mem s2 x"
      using evolves_mem [OF fresh_run_evolves [OF r]] f(4,5) that 0 by simp
    then show ?thesis using f(9) that 0 by simp
  next
    case (Suc j)
    have "seg_byte img phdr t = seg_byte img phdr s" using K(2) seg_view [of t s2 img phdr] by (simp add: t_def)
    then show ?thesis using fs(5) that Suc by (simp add: algebra_simps)
  qed
  then show ?case using l run fs(1,4) f(3) by (intro exI [of _ "f # fs"] exI [of _ s']) simp
qed


lemma seg_byte_outs: "seg_byte img phdr (s\<lparr>outs := x\<rparr>) = seg_byte img phdr s"
  by (rule seg_view) simp

lemma seg_image_outs: "seg_image img phdr (s\<lparr>outs := x\<rparr>) = seg_image img phdr s"
  by (simp add: seg_image_def image_byte_def seg_pages_def)

lemma align_pages:
  fixes v n :: u64
  assumes "unat v + unat n + 4096 \<le> 2 ^ 47"
  shows "unat (v AND NOT 0xFFF) = unat v div 4096 * 4096"
    "unat ((v + n + 0xFFF) AND NOT 0xFFF) = (unat v + unat n + 4095) div 4096 * 4096"
proof -
  have "unat (v + n) = unat v + unat n" using assms by (intro unat_add_small) simp
  then have "unat (v + n + 0xFFF) = unat v + unat n + 4095" using assms unat_add_small [of "v + n" "0xFFF"] by simp
  then show "unat (v AND NOT 0xFFF) = unat v div 4096 * 4096"
    "unat ((v + n + 0xFFF) AND NOT 0xFFF) = (unat v + unat n + 4095) div 4096 * 4096"
    using unat_align_down [of v 12] unat_align_down [of "v + n + 0xFFF" 12] by (simp_all add: mask_eq_decr_exp)
qed

lemma load_segment_eq:
  fixes s :: "'a vmm_state_scheme"
  assumes "seg_image img phdr s"
  defines "fl \<equiv> (if p_flags s phdr AND PF_W \<noteq> 0 then 7 else 5)"
  obtains x where "load_segment img phdr s =
    load_pages img phdr fl (unat (p_vaddr s phdr) div 4096 * 4096)
      (unat (p_vaddr s phdr) div 4096 * 4096 + 4096 * card (seg_pages phdr s)) (s\<lparr>outs := x\<rparr>)"
proof -
  define s1 where "s1 = (let s = serial_write ''[elf]   vaddr='' s;
    s = serial_write_hex_u64 (p_vaddr s phdr) s; s = serial_write '' filesz='' s;
    s = serial_write_dec_u64 (p_filesz s phdr) s; s = serial_write '' memsz='' s;
    s = serial_write_dec_u64 (p_memsz s phdr) s; s = serial_write '' flags='' s;
    s = (if p_flags s phdr AND PF_R \<noteq> 0 then serial_write ''R'' s else s);
    s = (if p_flags s phdr AND PF_W \<noteq> 0 then serial_write ''W'' s else s);
    s = (if p_flags s phdr AND PF_X \<noteq> 0 then serial_write ''X'' s else s)
    in serial_write ''\<newline>'' s)"
  have "only_prints s s1" unfolding s1_def Let_def by (intro only_printsI)
  then obtain x where x: "s1 = s\<lparr>outs := x\<rparr>" by (auto simp: only_prints_def)
  have b: "unat (p_vaddr s phdr) + unat (p_memsz s phdr) + 4096 \<le> 2 ^ 47" using assms by (simp add: seg_image_def)
  have "unat (p_vaddr s phdr) div 4096 \<le> (unat (p_vaddr s phdr) + unat (p_memsz s phdr) + 4095) div 4096" by (rule div_le_mono) simp
  moreover have "a \<le> b \<Longrightarrow> a * 4096 + 4096 * (b - a) = b * 4096" for a b :: nat by (simp add: diff_mult_distrib2)
  ultimately have "unat (p_vaddr s phdr) div 4096 * 4096 + 4096 * card (seg_pages phdr s) =
    (unat (p_vaddr s phdr) + unat (p_memsz s phdr) + 4095) div 4096 * 4096"
    unfolding seg_pages_def card_atLeastLessThan by blast
  moreover have "load_segment img phdr s = load_pages img phdr fl (unat (p_vaddr s phdr AND NOT 0xFFF))
    (unat ((p_vaddr s phdr + p_memsz s phdr + 0xFFF) AND NOT 0xFFF)) s1"
  proof -
    have "load_segment img phdr s = (let flags = VMM_FLAG_PRESENT OR VMM_FLAG_USER;
        flags = (if p_flags s phdr AND PF_W \<noteq> 0 then flags OR VMM_FLAG_WRITE else flags)
      in load_pages img phdr flags (unat (p_vaddr s phdr AND NOT 0xFFF))
        (unat ((p_vaddr s phdr + p_memsz s phdr + 0xFFF) AND NOT 0xFFF)) s1)"
      unfolding load_segment_def s1_def Let_def ..
    then show ?thesis by (simp add: fl_def)
  qed
  ultimately show thesis using that x align_pages [OF b] by simp
qed


lemma frame_offset:
  assumes "f < 32768"
  shows "frame_addr f OR (a AND 0xFFF) = frame_addr f + of_nat (unat a mod 4096)"
    "unat (frame_addr f + of_nat (unat a mod 4096)) div 4096 = f"
    "unat (frame_addr f + of_nat (unat a mod 4096)) mod 4096 = unat a mod 4096"
proof -
  let ?x = "frame_addr f + of_nat (unat a mod 4096)"
  have u: "unat ?x = f * 4096 + unat a mod 4096"
    using unat_add_of_nat [of "frame_addr f" "unat a mod 4096"] unat_frame_addr [OF assms] assms
      mod_less_divisor [of 4096 "unat a"] by simp
  then show d: "unat ?x div 4096 = f" and r: "unat ?x mod 4096 = unat a mod 4096" by simp_all
  have "unat (w AND 0xFFF) = unat w mod 4096" for w :: u64 using unat_and_mask [of w 12] by (simp add: mask_eq_exp_minus_1)
  then have "?x AND 0xFFF = a AND 0xFFF" by (simp add: word_unat_eq_iff r)
  then show "frame_addr f OR (a AND 0xFFF) = ?x"
    using page_offset_split [of ?x] frame_addr_page [of ?x] d by simp
qed

lemma mapped_frame:
  assumes f: "f < 32768" and fl: "fl = 5 \<or> fl = 7"
  shows "translation a (frame_addr f OR ucast (fl :: u32)) =
    Some (frame_addr f + of_nat (unat a mod 4096), ucast fl AND 6)"
proof -
  have pm: "frame_addr f AND PAGE_MASK = frame_addr f" using entry_addr_frame [of f] by (simp add: entry_addr_def)
  have "fl AND 1 \<noteq> 0" "ucast fl AND PAGE_MASK = 0" using fl by (auto simp: PAGE_MASK_def)
  from translation_mapped [OF this, of a "frame_addr f"] show ?thesis unfolding pm frame_offset(1) [OF f] .
qed

lemma load_segment_fresh:
  fixes s :: "'a vmm_state_scheme"
  assumes ok: "vmm_ok s" and seg: "seg_image img phdr s"
    and room: "4 * card (seg_pages phdr s) \<le> card {f \<in> free_frames s. f < 512}"
  defines "s' \<equiv> load_segment img phdr s" and "fl \<equiv> (if p_flags s phdr AND PF_W \<noteq> 0 then 7 else 5 :: u32)"
  obtains P n fs where "seg_pages phdr s = {P..<P + n}" "vmm_ok s'" "pml4 s' = pml4 s" "cr3 s' = cr3 s"
    "\<forall>x. image_byte s x \<longrightarrow> mem s' x = mem s x" "length fs = n" "set fs \<subseteq> {..<512}"
    "\<forall>k<n. \<forall>x. unat x div 4096 = fs ! k \<longrightarrow> mem s' x = seg_byte img phdr s (P * 4096 + 4096 * k + unat x mod 4096)"
    "\<forall>a. unat a < 2 ^ 48 \<longrightarrow> vmm_leaf s' a = (if unat a div 4096 \<in> {P..<P + n}
       then frame_addr (fs ! (unat a div 4096 - P)) OR ucast fl else vmm_leaf s a)"
proof -
  define P n where "P = unat (p_vaddr s phdr) div 4096" and "n = card (seg_pages phdr s)"
  let ?e = "unat (p_vaddr s phdr) + unat (p_memsz s phdr) + 4095"
  obtain x where x: "s' = load_pages img phdr fl (P * 4096) (P * 4096 + 4096 * n) (s\<lparr>outs := x\<rparr>)"
    using load_segment_eq [OF seg] unfolding s'_def P_def n_def fl_def by blast
  have le: "P \<le> ?e div 4096" unfolding P_def by (rule div_le_mono) simp
  then have sp: "seg_pages phdr s = {P..<P + n}" and n: "P + n = ?e div 4096" by (simp_all add: n_def seg_pages_def P_def)
  have "(P + n) * 4096 \<le> ?e" unfolding n by (rule div_times_less_eq_dividend)
  moreover have "?e < 2 ^ 48" using seg by (simp add: seg_image_def)
  ultimately have b: "P * 4096 + 4096 * n \<le> 2 ^ 48" by (simp add: algebra_simps)
  let ?s = "s\<lparr>outs := x\<rparr>"
  have "vmm_ok ?s" "4 * n \<le> card {f \<in> free_frames ?s. f < 512}" "seg_image img phdr ?s"
    using ok seg room by (simp_all add: n_def seg_image_outs)
  from load_pages_fresh [OF this b, of fl] obtain fs where fs: "length fs = n"
    "fresh_run (of_nat (P * 4096)) fs fl ?s (s'\<lparr>invlpgs := invlpgs ?s\<rparr>)" "set fs \<subseteq> {..<512}"
    "\<forall>k<n. \<forall>y. unat y div 4096 = fs ! k \<longrightarrow> mem s' y = seg_byte img phdr s (P * 4096 + 4096 * k + unat y mod 4096)"
    unfolding x [symmetric] seg_byte_outs by blast
  note ev = fresh_run_evolves [OF fs(2)]
  have low: "free_frames ?s - free_frames (s'\<lparr>invlpgs := invlpgs ?s\<rparr>) \<subseteq> {..<512}"
    by (rule taken_low [OF ev fresh_run_card [OF fs(2)]]) (use room in \<open>simp add: fs(1) n_def\<close>)
  have v: "unat (of_nat (P * 4096) :: u64) = P * 4096" using b by (intro unat_of_nat_small) simp
  have vp: "page_no (of_nat (P * 4096)) = P" if "0 < n" unfolding page_no_eq v using b that by simp
  have look: "vmm_leaf s' a = (if unat a div 4096 \<in> {P..<P + n}
       then frame_addr (fs ! (unat a div 4096 - P)) OR ucast fl else vmm_leaf s a)" if a: "unat a < 2 ^ 48" for a
  proof -
    have "unat a div 4096 < 2 ^ 36" using a by (simp add: div_less_iff_less_mult)
    then have pa: "page_no a = unat a div 4096" by (simp add: page_no_eq)
    have "vmm_leaf s' a = page_run (of_nat (P * 4096)) fs fl (vmm_leaf s) a" using fresh_run_leaf [OF fs(2)] by simp
    also have "\<dots> = (if page_no (of_nat (P * 4096)) \<le> page_no a \<and> page_no a < page_no (of_nat (P * 4096)) + length fs
      then frame_addr (fs ! (page_no a - page_no (of_nat (P * 4096)))) OR ucast fl else vmm_leaf s a)"
      by (rule page_run_lookup) (use b in \<open>simp_all add: v fs(1) del: of_nat_mult\<close>)
    finally show ?thesis using vp by (cases "n = 0") (auto simp: pa fs(1) simp del: of_nat_mult)
  qed
  show thesis
  proof (rule that [OF sp _ _ _ _ fs(1,3,4)])
    show "vmm_ok s'" using evolves_ok [OF ev] by simp
    show "pml4 s' = pml4 s" "cr3 s' = cr3 s"
      using evolves_same [OF ev] unfolding same_but_tables_def by (cases s; cases s'; simp)+
    show "\<forall>y. image_byte s y \<longrightarrow> mem s' y = mem s y" using image_byte_kept(2) [OF ev low] by (simp add: image_byte_def)
    show "\<forall>a. unat a < 2 ^ 48 \<longrightarrow> vmm_leaf s' a = (if unat a div 4096 \<in> {P..<P + n}
       then frame_addr (fs ! (unat a div 4096 - P)) OR ucast fl else vmm_leaf s a)" using look by blast
  qed
qed

text \<open>
  C6 A loaded segment is in the address space as the file asks for it. On every page of the
  segment the processor finds, for user mode, the file's byte where the file has one and
  zero elsewhere (so no old contents of a frame reach a program), and the page is writable
  exactly when the segment is; every other address is translated as before, and the image
  itself is unchanged.
\<close>

theorem load_segment_maps:
  fixes s :: "'a vmm_state_scheme"
  assumes "vmm_ok s" "cr3 s = pml4 s" "seg_image img phdr s"
    and "4 * card (seg_pages phdr s) \<le> card {f \<in> free_frames s. f < 512}"
    and "s' = load_segment img phdr s"
  shows "vmm_ok s' \<and> (\<forall>x. image_byte s x \<longrightarrow> mem s' x = mem s x) \<and>
    (\<forall>a. unat a < 2 ^ 48 \<longrightarrow>
      (if unat a div 4096 \<in> seg_pages phdr s
       then \<exists>pa. mmu_walk (mem s') (cr3 s') a = Some (pa, if p_flags s phdr AND PF_W \<noteq> 0 then 6 else 4) \<and>
              mem s' pa = seg_byte img phdr s (unat a)
       else mmu_walk (mem s') (cr3 s') a = mmu_walk (mem s) (cr3 s) a))"
proof -
  obtain P n fs where F: "seg_pages phdr s = {P..<P + n}" "vmm_ok s'" "pml4 s' = pml4 s" "cr3 s' = cr3 s"
    "\<forall>x. image_byte s x \<longrightarrow> mem s' x = mem s x" "length fs = n" "set fs \<subseteq> {..<512}"
    "\<forall>k<n. \<forall>x. unat x div 4096 = fs ! k \<longrightarrow> mem s' x = seg_byte img phdr s (P * 4096 + 4096 * k + unat x mod 4096)"
    "\<forall>a. unat a < 2 ^ 48 \<longrightarrow> vmm_leaf s' a = (if unat a div 4096 \<in> {P..<P + n}
       then frame_addr (fs ! (unat a div 4096 - P)) OR ucast (if p_flags s phdr AND PF_W \<noteq> 0 then 7 else 5 :: u32)
       else vmm_leaf s a)"
    unfolding assms(5) by (rule load_segment_fresh [OF assms(1,3,4)])
  have walk: "mmu_walk (mem s') (cr3 s') a = translation a (vmm_leaf s' a)" "mmu_walk (mem s) (cr3 s) a = translation a (vmm_leaf s a)" for a
    using F(2-4) assms(1,2) mmu_exact_walk [of s'] mmu_exact_walk [of s] by (simp_all add: vmm_ok_def)
  have inside: "\<exists>pa. mmu_walk (mem s') (cr3 s') a = Some (pa, if p_flags s phdr AND PF_W \<noteq> 0 then 6 else 4) \<and>
      mem s' pa = seg_byte img phdr s (unat a)" if a: "unat a < 2 ^ 48" "unat a div 4096 \<in> seg_pages phdr s" for a
  proof -
    define k where "k = unat a div 4096 - P"
    have k: "k < n" "P * 4096 + 4096 * k + unat a mod 4096 = unat a" using a(2) by (auto simp: F(1) k_def algebra_simps)
    have f: "fs ! k < 32768" using F(6,7) k(1) nth_mem [of k fs] by fastforce
    have "vmm_leaf s' a = frame_addr (fs ! k) OR ucast (if p_flags s phdr AND PF_W \<noteq> 0 then 7 else 5 :: u32)"
      using F(9) a by (simp add: F(1) k_def)
    then have "mmu_walk (mem s') (cr3 s') a = Some (frame_addr (fs ! k) + of_nat (unat a mod 4096), if p_flags s phdr AND PF_W \<noteq> 0 then 6 else 4)"
      unfolding walk(1) using mapped_frame [OF f, of 7 a] mapped_frame [OF f, of 5 a] by (auto split: if_splits)
    then show ?thesis using F(8) k frame_offset(2,3) [OF f, of a] by simp
  qed
  have outside: "mmu_walk (mem s') (cr3 s') a = mmu_walk (mem s) (cr3 s) a" if "unat a < 2 ^ 48" "unat a div 4096 \<notin> seg_pages phdr s" for a
    unfolding walk using F(9) [rule_format, OF that(1)] that(2) by (simp only: F(1) if_False)
  show ?thesis
  proof (intro conjI allI impI F(2) F(5) [rule_format])
    fix a :: u64 assume "unat a < 2 ^ 48"
    from inside [OF this] outside [OF this] show "if unat a div 4096 \<in> seg_pages phdr s
       then \<exists>pa. mmu_walk (mem s') (cr3 s') a = Some (pa, if p_flags s phdr AND PF_W \<noteq> 0 then 6 else 4) \<and>
              mem s' pa = seg_byte img phdr s (unat a)
       else mmu_walk (mem s') (cr3 s') a = mmu_walk (mem s) (cr3 s) a"
      by (cases "unat a div 4096 \<in> seg_pages phdr s") (simp_all only: if_True if_False simp_thms)
  qed
qed


text \<open>An image with one segment: three bytes of file in ten of memory, readable and executable.\<close>

definition sample_image :: memory where
  "sample_image =
     (store64 (store64 (store64 (store64 (store32 (\<lambda>_. 0) 0x8044 5) 0x8048 0x78) 0x8050 0x400000) 0x8060 3) 0x8068 10)
       (0x8078 := 0xAA, 0x8079 := 0xBB, 0x807A := 0xCC)"

definition elf_vmm :: vmm_state where
  "elf_vmm = boot_vmm\<lparr>mem := (\<lambda>x. if unat x div 4096 = 8 then sample_image x else mem boot_vmm x)\<rparr>"

lemma sample_image_byte: "i < 4096 \<Longrightarrow> mem elf_vmm (0x8000 + of_nat i) = sample_image (0x8000 + of_nat i)"
  "i < 4096 \<Longrightarrow> unat (0x8000 + of_nat i :: u64) div 4096 = 8"
proof -
  assume i: "i < 4096"
  have "unat (0x8000 + of_nat i :: u64) = 0x8000 + i" using i unat_add_of_nat [of "0x8000 :: u64" i] by simp
  then show d: "unat (0x8000 + of_nat i :: u64) div 4096 = 8" using i by simp
  show "mem elf_vmm (0x8000 + of_nat i) = sample_image (0x8000 + of_nat i)" by (simp add: elf_vmm_def d)
qed

lemma sample_image_fields:
  "p_vaddr elf_vmm 0x8040 = 0x400000" "p_filesz elf_vmm 0x8040 = 3" "p_memsz elf_vmm 0x8040 = 10"
  "p_offset elf_vmm 0x8040 = 0x78" "p_flags elf_vmm 0x8040 = 5"
proof -
  have same: "mem elf_vmm (0x8000 + of_nat j + of_nat i) = sample_image (0x8000 + of_nat j + of_nat i)"
    if "j + n \<le> 4096" "i < n" for i j n
    using sample_image_byte(1) [of "j + i"] that by (simp add: add.assoc)
  have L: "load64 (mem elf_vmm) (0x8000 + of_nat j) = load64 sample_image (0x8000 + of_nat j)" if "j + 8 \<le> 4096" for j
    by (rule load_le_cong) (rule same [OF that])
  have W: "load32 (mem elf_vmm) (0x8000 + of_nat 0x44) = load32 sample_image (0x8000 + of_nat 0x44)"
    by (rule load_le_cong) (rule same [where n = 4], simp_all)
  have up: "load64 (m(0x8078 := a, 0x8079 := b, 0x807A := c)) x = load64 m x" if "x \<in> {0x8048, 0x8050, 0x8060, 0x8068}" for m a b c x
    using that by (auto simp: load_le_numeral)
  have up32: "load32 (m(0x8078 := a, 0x8079 := b, 0x807A := c)) 0x8044 = load32 m 0x8044" for m a b c
    by (simp add: load_le_numeral)
  note S = sample_image_def up up32 load_store_apart apart_def
  have I: "load64 sample_image 0x8050 = 0x400000" "load64 sample_image 0x8060 = 3" "load64 sample_image 0x8068 = 10"
    "load64 sample_image 0x8048 = 0x78" "load32 sample_image 0x8044 = 5"
    by (simp_all add: S)
  have "load64 (mem elf_vmm) 0x8050 = 0x400000" using L [where j = "0x50"] I(1) by simp
  moreover have "load64 (mem elf_vmm) 0x8060 = 3" using L [where j = "0x60"] I(2) by simp
  moreover have "load64 (mem elf_vmm) 0x8068 = 10" using L [where j = "0x68"] I(3) by simp
  moreover have "load64 (mem elf_vmm) 0x8048 = 0x78" using L [where j = "0x48"] I(4) by simp
  moreover have "load32 (mem elf_vmm) 0x8044 = 5" using W I(5) by simp
  ultimately show "p_vaddr elf_vmm 0x8040 = 0x400000" "p_filesz elf_vmm 0x8040 = 3" "p_memsz elf_vmm 0x8040 = 10"
    "p_offset elf_vmm 0x8040 = 0x78" "p_flags elf_vmm 0x8040 = 5" by simp_all
qed

lemma elf_vmm_facts:
  "vmm_ok elf_vmm" "cr3 elf_vmm = pml4 elf_vmm" "203 \<le> card {f \<in> free_frames elf_vmm. f < 512}"
  "table_frames elf_vmm \<union> free_frames elf_vmm \<subseteq> {304..<32768}"
proof -
  have st: "vmm_started (boot_pmm cold_vmm) boot_vmm"
    unfolding boot_vmm_def by (rule boot_vmm_started [OF pmm_wf_cold_vmm])
  have F: "table_frames boot_vmm \<union> free_frames boot_vmm \<subseteq> {304..<32768}"
    using st boot_pmm_facts(2) [OF pmm_wf_cold_vmm] unfolding vmm_started_def by blast
  then have "8 \<notin> table_frames boot_vmm" by (auto simp: subset_iff)
  then have "\<forall>x. unat x div 4096 \<in> table_frames boot_vmm \<longrightarrow>
      (if unat x div 4096 = 8 then sample_image x else mem boot_vmm x) = mem boot_vmm x" by auto
  note W = vmm_write [OF boot_vmm_facts(1) this, folded elf_vmm_def]
  show "vmm_ok elf_vmm" by (rule W(1))
  show "cr3 elf_vmm = pml4 elf_vmm" using st by (simp add: elf_vmm_def vmm_started_def)
  show "203 \<le> card {f \<in> free_frames elf_vmm. f < 512}"
    using boot_vmm_low(3) [OF pmm_wf_cold_vmm] by (simp add: elf_vmm_def boot_vmm_def)
  show "table_frames elf_vmm \<union> free_frames elf_vmm \<subseteq> {304..<32768}" using F W(3) by (simp add: elf_vmm_def)
qed

theorem load_segment_maps_witness:
  "\<exists>pa. mmu_walk (mem (load_segment 0x8000 0x8040 elf_vmm)) (cr3 (load_segment 0x8000 0x8040 elf_vmm)) 0x400001 = Some (pa, 4) \<and>
     mem (load_segment 0x8000 0x8040 elf_vmm) pa = 0xBB"
proof -
  have pages: "seg_pages 0x8040 elf_vmm = {1024}" unfolding seg_pages_def sample_image_fields by auto
  have img: "image_byte elf_vmm (0x8000 + of_nat i) \<and> unat (0x8000 + of_nat i :: u64) div 4096 \<notin> {1024}" if "i < 4096" for i
    using elf_vmm_facts(4) by (auto simp: image_byte_def sample_image_byte(2) [OF that] subset_iff)
  have hdr: "image_byte elf_vmm (0x8040 + of_nat i) \<and> unat (0x8040 + of_nat i :: u64) div 4096 \<notin> {1024}" if "i < 56" for i
    using img [of "0x40 + i"] that by (simp add: add.assoc [symmetric])
  have data: "image_byte elf_vmm (0x8000 + (0x78 + of_nat i)) \<and> unat (0x8000 + (0x78 + of_nat i) :: u64) div 4096 \<notin> {1024}" if "i < 3" for i
    using img [of "0x78 + i"] that by simp
  have "seg_image 0x8000 0x8040 elf_vmm"
    unfolding seg_image_def pages sample_image_fields using hdr data by simp
  from load_segment_maps [OF elf_vmm_facts(1,2) this _ refl] elf_vmm_facts(3)
  have "\<forall>a. unat a < 2 ^ 48 \<longrightarrow> unat a div 4096 = 1024 \<longrightarrow>
      (\<exists>pa. mmu_walk (mem (load_segment 0x8000 0x8040 elf_vmm)) (cr3 (load_segment 0x8000 0x8040 elf_vmm)) a = Some (pa, 4) \<and>
        mem (load_segment 0x8000 0x8040 elf_vmm) pa = seg_byte 0x8000 0x8040 elf_vmm (unat a))"
    unfolding pages sample_image_fields by (auto split: if_splits)
  moreover have "seg_byte 0x8000 0x8040 elf_vmm 0x400001 = 0xBB"
    using sample_image_byte(1) [of "0x79"] unfolding seg_byte_def sample_image_fields by (simp add: sample_image_def)
  ultimately show ?thesis by (auto dest: spec [of _ "0x400001 :: u64"])
qed


section \<open>Rejecting an image\<close>


lemma elf_validate_prints: "only_prints s (snd (elf_validate img sz s))"
  unfolding elf_validate_def by (auto split: if_splits)


text \<open>The lines printed for an accepted header, and \<open>elf_load\<close> around them.\<close>

definition elf_banner :: "u64 \<Rightarrow> 'a machine_scheme \<Rightarrow> 'a machine_scheme" where
  "elf_banner img s = (let s = serial_write ''[elf] valid ELF64 x86_64 binary\<newline>'' s;
      s = serial_write ''[elf] entry='' s; s = serial_write_hex_u64 (e_entry s img) s;
      s = serial_write '' phnum='' s; s = serial_write_dec_u64 (ucast (e_phnum s img)) s
      in serial_write ''\<newline>'' s)"

lemma elf_banner_prints: "\<exists>x. elf_banner img s = s\<lparr>outs := x\<rparr>"
  unfolding only_prints_def [symmetric] elf_banner_def Let_def by (intro only_printsI)

lemma elf_load_eq:
  assumes "elf_validate img sz s = (b, t)"
  shows "elf_load img sz s = (if \<not> b then (0, t)
    else if e_phoff t img + ucast (e_phnum t img) * ucast (e_phentsize t img) > sz
    then (0, serial_write ''[elf] program headers exceed image size\<newline>'' (elf_banner img t))
    else let (loaded, s) = word_for 0 (e_phnum t img) (load_phdr img) (0, elf_banner img t);
             s = serial_write '' segments\<newline>'' (serial_write_dec_u64 (ucast loaded) (serial_write ''[elf] loaded '' s))
         in (e_entry s img, s))"
proof -
  obtain x where x: "elf_banner img t = t\<lparr>outs := x\<rparr>" using elf_banner_prints by blast
  show ?thesis
    unfolding elf_load_def assms Let_def prod.case elf_banner_def [unfolded Let_def, symmetric] by (simp add: x)
qed





section \<open>What the loader leaves alone\<close>

text \<open>Steps that change memory, frames, the serial line and cached translations only.\<close>

definition loader_frame :: "'a vmm_state_scheme \<Rightarrow> 'a vmm_state_scheme \<Rightarrow> bool" where
  "loader_frame s t \<longleftrightarrow>
     t = s\<lparr>mem := mem t, outs := outs t, bitmap := bitmap t, used_frames := used_frames t, invlpgs := invlpgs t\<rparr>"

lemma loader_frame_refl [simp]: "loader_frame s s"
  by (simp add: loader_frame_def)

lemma loader_frame_trans: "loader_frame s t \<Longrightarrow> loader_frame t u \<Longrightarrow> loader_frame s u"
  unfolding loader_frame_def by (cases s; cases t; cases u) simp

lemma loader_frame_upd [simp]:
  "loader_frame s (t\<lparr>mem := m\<rparr>) = loader_frame s t" "loader_frame s (t\<lparr>outs := x\<rparr>) = loader_frame s t"
  "loader_frame s (t\<lparr>invlpgs := l\<rparr>) = loader_frame s t" "loader_frame s (t\<lparr>used_frames := u\<rparr>) = loader_frame s t"
  "loader_frame s (t\<lparr>bitmap := b\<rparr>) = loader_frame s t"
  unfolding loader_frame_def by (cases s; cases t; simp)+

lemma loader_frame_put [simp]: "loader_frame s (put64 a w t) = loader_frame s t" "loader_frame s (put8 a b t) = loader_frame s t"
  by (simp_all add: put64_def put8_def)

lemma loader_frame_print [simp]:
  "loader_frame s (serial_write str t) = loader_frame s t" "loader_frame s (serial_write_dec_u64 v t) = loader_frame s t"
  "loader_frame s (serial_write_hex_u64 v t) = loader_frame s t"
  by (simp_all add: print_eqs)

lemma pmm_scan_bits_frame: "pmm_scan_bits i b t = Some (a, t') \<Longrightarrow> loader_frame s t \<Longrightarrow> loader_frame s t'"
proof (induction i b t arbitrary: t' rule: pmm_scan_bits.induct)
  case (1 i b t)
  from "1.prems"(1) show ?case
    unfolding pmm_scan_bits.simps [of i b t] using "1.IH" "1.prems"(2)
    by (auto simp: Let_def bitmap_set_def split: if_splits)
qed

lemma pmm_scan_frame: "pmm_scan i t = (a, t') \<Longrightarrow> loader_frame s t \<Longrightarrow> loader_frame s t'"
proof (induction i t arbitrary: t' rule: pmm_scan.induct)
  case (1 i t)
  from "1.prems"(1) show ?case
    unfolding pmm_scan.simps [of i t] using "1.IH" "1.prems"(2) pmm_scan_bits_frame [of i 0 t a t' s]
    by (auto split: if_splits option.splits)
qed

lemma pmm_alloc_frame_frame: "pmm_alloc_frame t = (a, t') \<Longrightarrow> loader_frame s t \<Longrightarrow> loader_frame s t'"
  unfolding pmm_alloc_frame_def by (rule pmm_scan_frame)

lemma vmm_descend_frame:
  assumes "vmm_descend table idx fl t = (p, t')" "loader_frame s t"
  shows "loader_frame s t'"
proof -
  have "loader_frame s u'" if a: "alloc_table u = (q, u')" and f: "loader_frame s u" for u q u'
  proof -
    obtain a v where v: "pmm_alloc_frame u = (a, v)" by fastforce
    have "loader_frame s (word_for (0 :: u32) 512 (\<lambda>i. put64 (a + 8 * ucast i) 0) v)"
      by (rule word_for_keeps) (simp_all add: pmm_alloc_frame_frame [OF v f])
    then show ?thesis using a pmm_alloc_frame_frame [OF v f] by (auto simp: alloc_table_def v split: if_splits)
  qed
  then show ?thesis using assms by (auto simp: vmm_descend_def Let_def split: if_splits prod.splits)
qed

lemma vmm_map_page_loader: "loader_frame s t \<Longrightarrow> loader_frame s (vmm_map_page virt phys flags t)"
  unfolding vmm_map_page_def Let_def
  by (auto split: prod.split option.split dest!: vmm_descend_frame [where s = s])

lemma load_pages_loader: "loader_frame s t \<Longrightarrow> loader_frame s (load_pages img phdr flags page vaddr_end t)"
proof (induction img phdr flags page vaddr_end t rule: load_pages.induct)
  case (1 img phdr flags page vaddr_end t)
  obtain a u where u: "pmm_alloc_frame t = (a, u)" by fastforce
  have fu: "loader_frame s u" by (rule pmm_alloc_frame_frame [OF u "1.prems"])
  have z: "loader_frame s (zero_frame a u)" unfolding zero_frame_def by (rule word_for_keeps) (simp_all add: fu)
  have "loader_frame s (copy_segment_bytes d r n v)" if "loader_frame s v" for d r n v
    unfolding copy_segment_bytes_def by (rule word_for_keeps) (simp_all add: that)
  then have f: "loader_frame s (fill_page img phdr (of_nat page) a (zero_frame a u))" using z by (simp add: fill_page_def Let_def)
  let ?v = "(vmm_map_page (of_nat page) a flags (fill_page img phdr (of_nat page) a (zero_frame a u)))"
  have "loader_frame s (?v\<lparr>invlpgs := of_nat page # invlpgs ?v\<rparr>)" using vmm_map_page_loader [OF f] by simp
  from "1.IH" [OF _ u [symmetric] refl _ refl refl refl refl this] fu "1.prems" show ?case
    by (subst load_pages.simps) (auto simp: u Let_def)
qed

lemma load_segment_loader: "loader_frame s t \<Longrightarrow> loader_frame s (load_segment img phdr t)"
  unfolding load_segment_def Let_def by (rule load_pages_loader) simp

lemma elf_load_loader: "loader_frame s (snd (elf_load img sz s))"
proof -
  obtain b v where v: "elf_validate img sz s = (b, v)" by fastforce
  have fv: "loader_frame s v" using elf_validate_prints [of s img sz] by (auto simp: v only_prints_def)
  obtain x where x: "elf_banner img v = v\<lparr>outs := x\<rparr>" using elf_banner_prints by blast
  obtain l w where w: "word_for 0 (e_phnum v img) (load_phdr img) (0, elf_banner img v) = (l, w)" by fastforce
  have "case load_phdr img i r of (_, t) \<Rightarrow> loader_frame s t" if "case r of (_, t) \<Rightarrow> loader_frame s t" for i r
    using that by (auto simp: load_phdr_def Let_def intro!: load_segment_loader split: prod.splits)
  then have "case word_for 0 (e_phnum v img) (load_phdr img) (0, elf_banner img v) of (_, t) \<Rightarrow> loader_frame s t"
    by (intro word_for_keeps [where P = "\<lambda>r. case r of (_, t) \<Rightarrow> loader_frame s t"]) (simp_all only: x prod.case loader_frame_upd fv)
  then have "loader_frame s w" by (simp add: w)
  then show ?thesis using fv unfolding elf_load_eq [OF v] w by (simp add: x Let_def)
qed


end
