(* ===== verification/Syscall.thy ===== *)
theory Syscall
  imports Descriptors Elf_Loader
begin
text \<open>
  System calls and programs: \<open>syscall.c\<close> and \<open>usermode.c\<close>, with the interrupt frame of
  \<open>idt.h\<close>.
\<close>

section \<open>Data\<close>

text \<open>\<open>struct interrupt_frame\<close>; \<open>fr_\<close> stands before the register's name.\<close>

record interrupt_frame =
  fr_r15 :: u64
  fr_r14 :: u64
  fr_r13 :: u64
  fr_r12 :: u64
  fr_r11 :: u64
  fr_r10 :: u64
  fr_r9 :: u64
  fr_r8 :: u64
  fr_rbp :: u64
  fr_rdi :: u64
  fr_rsi :: u64
  fr_rdx :: u64
  fr_rcx :: u64
  fr_rbx :: u64
  fr_rax :: u64
  fr_vector :: u64
  fr_error_code :: u64
  fr_rip :: u64
  fr_cs :: u64
  fr_rflags :: u64
  fr_rsp :: u64
  fr_ss :: u64

text \<open>The functions \<open>syscall_init\<close> puts into the table of handlers.\<close>

datatype syscall_fn = Sys_read | Sys_write | Sys_listfiles

record sys_state = desc_state +
  syscall_table :: "syscall_fn option list"
  saved_frame :: interrupt_frame
  child_running :: bool
  shell_elf_image :: u64
  shell_elf_size :: u64

abbreviation (input) MAX_SYSCALLS :: u64 where "MAX_SYSCALLS \<equiv> 16"
abbreviation (input) SYS_READ :: u64 where "SYS_READ \<equiv> 0"
abbreviation (input) SYS_WRITE :: u64 where "SYS_WRITE \<equiv> 1"
abbreviation (input) SYS_LISTFILES :: u64 where "SYS_LISTFILES \<equiv> 2"
abbreviation (input) SYS_EXEC :: u64 where "SYS_EXEC \<equiv> 3"
abbreviation (input) SYS_EXIT :: u64 where "SYS_EXIT \<equiv> 4"
abbreviation (input) CHILD_STACK_VADDR :: u64 where "CHILD_STACK_VADDR \<equiv> 0x900000"
abbreviation (input) CHILD_STACK_PAGES :: u32 where "CHILD_STACK_PAGES \<equiv> 2"
abbreviation (input) USER_STACK_VADDR :: u64 where "USER_STACK_VADDR \<equiv> 0x800000"
abbreviation (input) USER_STACK_PAGES :: u32 where "USER_STACK_PAGES \<equiv> 2"

text \<open>
  What a handler does: it returns to the interrupted program with a frame, halts the machine
  for good, or leaves the processor to another task, and then the rest of the handler runs
  when this task is switched back to.
\<close>

datatype 's outcome = Halts 's | Resumes interrupt_frame 's | Switches 's

text \<open>
  A byte at an address a program passes. The kernel reads it through the page tables in
  \<open>CR3\<close>; \<open>None\<close> is a page fault.
\<close>

definition user_byte :: "'a vmm_state_scheme \<Rightarrow> u64 \<Rightarrow> u8 option" where
  "user_byte s va = (case mmu_walk (mem s) (cr3 s) va of None \<Rightarrow> None | Some (pa, _) \<Rightarrow> Some (mem s pa))"


section \<open>Handlers\<close>

definition syscall_register :: "u64 \<Rightarrow> syscall_fn \<Rightarrow> 'a sys_state_scheme \<Rightarrow> 'a sys_state_scheme" where
  "syscall_register number handler s =
     (if number < MAX_SYSCALLS then s\<lparr>syscall_table := (syscall_table s)[unat number := Some handler]\<rparr> else s)"

text \<open>The poll of \<open>sys_read\<close>.\<close>

partial_function (option) rx_wait :: "'a machine_scheme \<Rightarrow> 'a machine_scheme option" where
  "rx_wait s =
     (let (v, s) = inb (COM1 + 5) s
      in if v AND 1 = 0 then rx_wait s else Some s)"

definition sys_read :: "'a machine_scheme \<Rightarrow> (u64 \<times> 'a machine_scheme) option" where
  "sys_read s = do {
     s \<leftarrow> rx_wait s;
     let (v, s) = inb COM1 s;
     Some (ucast v, s)
   }"

text \<open>The loop of \<open>sys_write\<close>, over the \<open>n\<close> bytes from \<open>buf\<close>.\<close>

primrec sys_write_loop :: "u64 \<Rightarrow> nat \<Rightarrow> 'a vmm_state_scheme \<Rightarrow> 'a vmm_state_scheme option" where
  "sys_write_loop buf 0 s = Some s"
| "sys_write_loop buf (Suc n) s = do {
     b \<leftarrow> user_byte s buf;
     sys_write_loop (buf + 1) n (serial_write_char (char_of (unat b)) s)
   }"

definition sys_write :: "u64 \<Rightarrow> u64 \<Rightarrow> 'a vmm_state_scheme \<Rightarrow> (u64 \<times> 'a vmm_state_scheme) option" where
  "sys_write buf len s =
     (if buf = 0 \<or> buf + len < buf then Some (-1, s)
      else do {
        s \<leftarrow> sys_write_loop buf (unat len) s;
        Some (len, s)
      })"

definition sys_listfiles :: "'a ramfs_state_scheme \<Rightarrow> (u64 \<times> 'a ramfs_state_scheme) option" where
  "sys_listfiles s = do { s \<leftarrow> ramfs_list s; Some (0, s) }"

definition syscall_set_shell_elf :: "u64 \<Rightarrow> u64 \<Rightarrow> 'a sys_state_scheme \<Rightarrow> 'a sys_state_scheme" where
  "syscall_set_shell_elf img sz s = s\<lparr>shell_elf_image := img, shell_elf_size := sz\<rparr>"

definition syscall_init :: "'a sys_state_scheme \<Rightarrow> 'a sys_state_scheme" where
  "syscall_init s =
     (let s = s\<lparr>syscall_table := replicate 16 None\<rparr>;
          s = syscall_register SYS_READ Sys_read s;
          s = syscall_register SYS_WRITE Sys_write s;
          s = syscall_register SYS_LISTFILES Sys_listfiles s;
          s = s\<lparr>child_running := False\<rparr>
      in serial_write ''[syscall] dispatch table initialized\<newline>'' s)"

text \<open>The copy of the name into \<open>namebuf\<close>, and the string it then holds.\<close>

primrec copy_user_name :: "u64 \<Rightarrow> nat \<Rightarrow> 'a vmm_state_scheme \<Rightarrow> u8 list option" where
  "copy_user_name a 0 s = Some []"
| "copy_user_name a (Suc n) s = do {
     b \<leftarrow> user_byte s a;
     bs \<leftarrow> copy_user_name (a + 1) n s;
     Some (b # bs)
   }"

definition namebuf_string :: "u8 list \<Rightarrow> cstring" where
  "namebuf_string bs = takeWhile (\<lambda>b. b \<noteq> 0) bs"

text \<open>The loops that allocate the pages of a user stack; \<open>False\<close> is out of frames.\<close>

primrec map_stack :: "u64 \<Rightarrow> nat \<Rightarrow> 'a vmm_state_scheme \<Rightarrow> bool \<times> 'a vmm_state_scheme" where
  "map_stack vaddr 0 s = (True, s)"
| "map_stack vaddr (Suc n) s =
     (let (frame, s) = pmm_alloc_frame s
      in if frame = 0 then (False, s)
         else map_stack (vaddr + VMM_PAGE_SIZE) n
                (vmm_map_page vaddr frame (VMM_FLAG_PRESENT OR VMM_FLAG_WRITE OR VMM_FLAG_USER) s))"

definition handle_exec ::
  "interrupt_frame \<Rightarrow> 'a sys_state_scheme \<Rightarrow> (interrupt_frame \<times> 'a sys_state_scheme) option" where
  "handle_exec frame s =
     (let name = fr_rdi frame; name_len = fr_rsi frame
      in if name = 0 \<or> name_len = 0 \<or> name_len > 127 then Some (frame\<lparr>fr_rax := -1\<rparr>, s)
         else do {
           bs \<leftarrow> copy_user_name name (unat name_len) s;
           let namebuf = namebuf_string bs;
           f \<leftarrow> ramfs_find namebuf s;
           if f = 0
           then do {
             let s = serial_write ''[exec] not found: '' s;
             let s = serial_write_cstr namebuf s;
             let s = serial_write ''\<newline>'' s;
             Some (frame\<lparr>fr_rax := -1\<rparr>, s)
           }
           else do {
             let (entry, s) = elf_load (file_data s f) (file_size s f) s;
             if entry = 0
             then Some (frame\<lparr>fr_rax := -1\<rparr>, serial_write ''[exec] ELF load failed\<newline>'' s)
             else do {
               let (mapped, s) = map_stack CHILD_STACK_VADDR (unat CHILD_STACK_PAGES) s;
               if \<not> mapped
               then Some (frame\<lparr>fr_rax := -1\<rparr>, serial_write ''[exec] stack alloc failed\<newline>'' s)
               else do {
                 let s = s\<lparr>saved_frame := frame, child_running := True\<rparr>;
                 let s = serial_write ''[exec] running: '' s;
                 let s = serial_write_cstr namebuf s;
                 let s = serial_write ''\<newline>'' s;
                 Some (frame\<lparr>fr_rip := entry,
                        fr_rsp := CHILD_STACK_VADDR + ucast CHILD_STACK_PAGES * VMM_PAGE_SIZE,
                        fr_cs := GDT_USER_CODE_RPL3, fr_ss := GDT_USER_DATA_RPL3, fr_rflags := 0x202\<rparr>, s)
               }
             }
           }
         })"

definition handle_exit :: "interrupt_frame \<Rightarrow> 'a sys_state_scheme \<Rightarrow> 'a sys_state_scheme outcome" where
  "handle_exit frame s =
     (if \<not> child_running s then Halts (serial_write ''[exit] shell exited, halting\<newline>'' s)
      else let s = serial_write ''[exit] child finished\<newline>'' s;
               s = s\<lparr>child_running := False\<rparr>;
               s = (if shell_elf_image s \<noteq> 0
                    then snd (elf_load (shell_elf_image s) (shell_elf_size s) s) else s)
           in Resumes ((saved_frame s)\<lparr>fr_rax := 0\<rparr>) s)"

definition run_syscall :: "syscall_fn \<Rightarrow> u64 \<Rightarrow> u64 \<Rightarrow> 'a sys_state_scheme \<Rightarrow> (u64 \<times> 'a sys_state_scheme) option" where
  "run_syscall f a1 a2 s =
     (case f of Sys_read \<Rightarrow> sys_read s | Sys_write \<Rightarrow> sys_write a1 a2 s | Sys_listfiles \<Rightarrow> sys_listfiles s)"

definition syscall_dispatch :: "interrupt_frame \<Rightarrow> 'a sys_state_scheme \<Rightarrow> 'a sys_state_scheme outcome option" where
  "syscall_dispatch frame s =
     (let number = fr_rax frame
      in if number = SYS_EXEC then do { (frame, s) \<leftarrow> handle_exec frame s; Some (Resumes frame s) }
         else if number = SYS_EXIT then Some (handle_exit frame s)
         else case (if number \<ge> MAX_SYSCALLS then None else syscall_table s ! unat number) of
           None \<Rightarrow>
             (let s = serial_write ''[syscall] invalid number='' s;
                  s = serial_write_dec_u64 number s;
                  s = serial_write ''\<newline>'' s
              in Some (Resumes (frame\<lparr>fr_rax := -1\<rparr>) s))
         | Some f \<Rightarrow> do {
             (result, s) \<leftarrow> run_syscall f (fr_rdi frame) (fr_rsi frame) s;
             Some (Resumes (frame\<lparr>fr_rax := result\<rparr>) s)
           })"


section \<open>Entering user mode\<close>

text \<open>The frame that \<open>iretq\<close> pops.\<close>

record user_context =
  user_ss :: u64
  user_rsp :: u64
  user_rflags :: u64
  user_cs :: u64
  user_rip :: u64

text \<open>\<open>None\<close> for the context when the function returns to its caller.\<close>

definition usermode_exec_elf :: "u64 \<Rightarrow> u64 \<Rightarrow> 'a vmm_state_scheme \<Rightarrow> user_context option \<times> 'a vmm_state_scheme" where
  "usermode_exec_elf elf_image elf_size s =
     (let s = serial_write ''[usermode] loading ELF binary\<newline>'' s;
          (entry, s) = elf_load elf_image elf_size s
      in if entry = 0 then (None, serial_write ''[usermode] ELF load failed\<newline>'' s)
         else let (mapped, s) = map_stack USER_STACK_VADDR (unat USER_STACK_PAGES) s
              in if \<not> mapped then (None, serial_write ''[usermode] failed to allocate stack frame\<newline>'' s)
                 else let user_stack_top = USER_STACK_VADDR + ucast USER_STACK_PAGES * VMM_PAGE_SIZE;
                          s = serial_write ''[usermode] entry='' s;
                          s = serial_write_hex_u64 entry s;
                          s = serial_write '' stack='' s;
                          s = serial_write_hex_u64 user_stack_top s;
                          s = serial_write ''\<newline>'' s;
                          s = serial_write ''[usermode] jumping to ring 3 via iretq\<newline>'' s
                      in (Some \<lparr>user_ss = GDT_USER_DATA_RPL3, user_rsp = user_stack_top, user_rflags = 0x202,
                                user_cs = GDT_USER_CODE_RPL3, user_rip = entry\<rparr>, s))"


end
