(* ===== verification/Interrupts.thy ===== *)
theory Interrupts
  imports Syscall
begin
text \<open>
  Interrupts and the timer: \<open>idt.c\<close> and \<open>pit.c\<close>.
\<close>

section \<open>Data\<close>

record idt_entry =
  offset_low :: u16
  selector :: u16
  ist :: u8
  type_attr :: u8
  offset_mid :: u16
  offset_high :: u32
  idt_zero :: u32

definition null_idt_entry :: idt_entry where
  "null_idt_entry = \<lparr>offset_low = 0, selector = 0, ist = 0, type_attr = 0, offset_mid = 0, offset_high = 0, idt_zero = 0\<rparr>"

text \<open>The one function that is registered as a handler.\<close>

datatype irq_handler = Pit_irq_handler

record intr_state = sys_state +
  idt :: "idt_entry list"
  idtr :: "u16 \<times> u64"
  irq_handlers :: "irq_handler option list"
  tick_count :: u64
  configured_frequency :: u32

abbreviation (input) KERNEL_CODE_SELECTOR :: u16 where "KERNEL_CODE_SELECTOR \<equiv> 0x08"
abbreviation (input) IDT_GATE_INTERRUPT :: u8 where "IDT_GATE_INTERRUPT \<equiv> 0x8E"
abbreviation (input) IDT_GATE_TRAP_USER :: u8 where "IDT_GATE_TRAP_USER \<equiv> 0xEF"
abbreviation (input) SYSCALL_VECTOR :: u64 where "SYSCALL_VECTOR \<equiv> 128"
abbreviation (input) IRQ_BASE :: u64 where "IRQ_BASE \<equiv> 32"
abbreviation (input) EXCEPTION_COUNT :: u64 where "EXCEPTION_COUNT \<equiv> 32"

definition exception_names :: "string list" where
  "exception_names =
     [''Divide Error'', ''Debug'', ''NMI'', ''Breakpoint'', ''Overflow'', ''BOUND Range Exceeded'',
      ''Invalid Opcode'', ''Device Not Available'', ''Double Fault'', ''Coprocessor Segment Overrun'',
      ''Invalid TSS'', ''Segment Not Present'', ''Stack-Segment Fault'', ''General Protection Fault'',
      ''Page Fault'', ''Reserved'', ''x87 Floating-Point Exception'', ''Alignment Check'',
      ''Machine Check'', ''SIMD Floating-Point Exception'', ''Virtualization Exception'',
      ''Control Protection Exception'', ''Reserved'', ''Reserved'', ''Reserved'', ''Reserved'',
      ''Reserved'', ''Reserved'', ''Hypervisor Injection Exception'', ''VMM Communication Exception'',
      ''Security Exception'', ''Reserved'']"


section \<open>The interrupt table\<close>

definition idt_set_gate :: "u8 \<Rightarrow> u64 \<Rightarrow> u8 \<Rightarrow> 'a intr_state_scheme \<Rightarrow> 'a intr_state_scheme" where
  "idt_set_gate vector addr attr s =
     s\<lparr>idt := (idt s)[unat vector :=
        \<lparr>offset_low = ucast (addr AND 0xFFFF), selector = KERNEL_CODE_SELECTOR, ist = 0, type_attr = attr,
         offset_mid = ucast (drop_bit 16 addr AND 0xFFFF),
         offset_high = ucast (drop_bit 32 addr AND 0xFFFFFFFF), idt_zero = 0\<rparr>]\<rparr>"

text \<open>
  \<open>idt_addr\<close> is the address of the table, \<open>isr_stub_table\<close> the addresses of the stubs in
  \<open>interrupts.S\<close> and \<open>isr_stub_128\<close> that of the system-call stub.
\<close>

definition idt_init :: "u64 \<Rightarrow> u64 list \<Rightarrow> u64 \<Rightarrow> 'a intr_state_scheme \<Rightarrow> 'a intr_state_scheme" where
  "idt_init idt_addr isr_stub_table isr_stub_128 s =
     (let s = word_for (0 :: u64) 256 (\<lambda>i s. s\<lparr>idt := (idt s)[unat i := null_idt_entry]\<rparr>) s;
          s = word_for (0 :: u64) 48 (\<lambda>i. idt_set_gate (ucast i) (isr_stub_table ! unat i) IDT_GATE_INTERRUPT) s;
          s = idt_set_gate 128 isr_stub_128 IDT_GATE_TRAP_USER s
      in s\<lparr>idtr := (256 * 16 - 1, idt_addr)\<rparr>)"

definition irq_register_handler :: "u8 \<Rightarrow> irq_handler \<Rightarrow> 'a intr_state_scheme \<Rightarrow> 'a intr_state_scheme" where
  "irq_register_handler irq handler s =
     (if irq < 16 then s\<lparr>irq_handlers := (irq_handlers s)[unat irq := Some handler]\<rparr> else s)"


section \<open>The timer\<close>

abbreviation (input) PIT_CHANNEL0_DATA :: u16 where "PIT_CHANNEL0_DATA \<equiv> 0x40"
abbreviation (input) PIT_COMMAND :: u16 where "PIT_COMMAND \<equiv> 0x43"
abbreviation (input) PIT_BASE_FREQ :: u32 where "PIT_BASE_FREQ \<equiv> 1193182"
abbreviation (input) SCHEDULE_INTERVAL :: u64 where "SCHEDULE_INTERVAL \<equiv> 10"

text \<open>
  Both functions divide by the frequency. When it is 0 the divide error halts the machine,
  and they do not return.
\<close>

definition pit_irq_handler :: "'a intr_state_scheme \<Rightarrow> 'a intr_state_scheme option" where
  "pit_irq_handler s =
     (if configured_frequency s = 0 then None
      else let s = s\<lparr>tick_count := tick_count s + 1\<rparr>;
          s = (if tick_count s mod ucast (configured_frequency s) = 0
               then let s = serial_write ''[pit] tick='' s;
                        s = serial_write_dec_u64 (tick_count s) s
                    in serial_write ''\<newline>'' s
               else s)
      in if tick_count s mod SCHEDULE_INTERVAL = 0 then schedule (pic_eoi 0 s) else Some s)"

definition pit_init :: "u32 \<Rightarrow> 'a intr_state_scheme \<Rightarrow> 'a intr_state_scheme option" where
  "pit_init frequency s =
     (if frequency = 0 then None
      else let s = s\<lparr>configured_frequency := frequency\<rparr>;
          divisor = ucast (PIT_BASE_FREQ div frequency) :: u16;
          s = outb PIT_COMMAND 0x34 s;
          s = outb PIT_CHANNEL0_DATA (ucast (divisor AND 0xFF)) s;
          s = outb PIT_CHANNEL0_DATA (ucast (drop_bit 8 divisor AND 0xFF)) s;
          s = irq_register_handler 0 Pit_irq_handler s;
          s = irq_unmask 0 s;
          s = serial_write ''[pit] initialized at '' s;
          s = serial_write_dec_u64 (ucast frequency) s
      in Some (serial_write '' Hz\<newline>'' s))"

definition pit_get_ticks :: "'a intr_state_scheme \<Rightarrow> u64" where
  "pit_get_ticks s = tick_count s"


section \<open>Dispatch\<close>

definition isr_dispatch :: "interrupt_frame \<Rightarrow> 'a intr_state_scheme \<Rightarrow> 'a intr_state_scheme outcome option" where
  "isr_dispatch frame s =
     (if fr_vector frame = SYSCALL_VECTOR then syscall_dispatch frame s
      else if fr_vector frame \<ge> IRQ_BASE \<and> fr_vector frame < IRQ_BASE + 16
      then do {
        let irq = (ucast (fr_vector frame - IRQ_BASE) :: u8);
        t \<leftarrow> (case irq_handlers s ! unat irq of
                Some Pit_irq_handler \<Rightarrow> pit_irq_handler s
              | None \<Rightarrow>
                  (let s = serial_write ''[irq] irq='' s;
                       s = serial_write_dec_u64 (ucast irq) s
                   in Some (serial_write ''\<newline>'' s)));
        if current_task t \<noteq> current_task s then Some (Switches t)
        else Some (Resumes frame (pic_eoi irq t))
      }
      else
        let s = serial_write ''\<newline>[exception] vector='' s;
            s = serial_write_dec_u64 (fr_vector frame) s;
            s = (if fr_vector frame < EXCEPTION_COUNT
                 then let s = serial_write '' ('' s;
                          s = serial_write (exception_names ! unat (fr_vector frame)) s
                      in serial_write '')'' s
                 else s);
            s = serial_write '' error='' s;
            s = serial_write_hex_u64 (fr_error_code frame) s;
            s = serial_write '' rip='' s;
            s = serial_write_hex_u64 (fr_rip frame) s;
            s = serial_write ''\<newline>'' s
        in if fr_vector frame = 3
           then Some (Resumes frame (serial_write ''[exception] breakpoint handled, resuming.\<newline>'' s))
           else if fr_vector frame = 13 \<and> fr_cs frame AND 3 = 3
           then let s = serial_write ''[exception] GPF from ring 3 at rip='' s;
                    s = serial_write_hex_u64 (fr_rip frame) s;
                    s = serial_write ('' '' @ [CHR 0xE2, CHR 0x80, CHR 0x94] @ '' privilege enforcement confirmed\<newline>'') s
                in Some (Halts (serial_write ''[exception] halting.\<newline>'' s))
           else Some (Halts (serial_write ''[exception] fatal exception, halting.\<newline>'' s)))"


end
