(* ===== verification/Boot.thy ===== *)
theory Boot
  imports Interrupts
begin
text \<open>
  The boot sequence, \<open>kernel_main\<close> of \<open>kernel.c\<close>.
\<close>

text \<open>
  What the linker and the assembly files define: the bounds of the kernel image, the
  addresses of the tables, of the stubs and of the embedded programs. \<open>int3_frame\<close> is the
  frame the processor and the stub push for the breakpoint of the self-test.
\<close>

record link_map =
  kernel_start :: u64
  kernel_end :: u64
  gdt_addr :: u64
  tss_addr :: u64
  idt_addr :: u64
  isr_stub_table :: "u64 list"
  isr_stub_128 :: u64
  hello_elf_start :: u64
  hello_elf_end :: u64
  shell_elf_start :: u64
  shell_elf_end :: u64
  int3_frame :: interrupt_frame

definition kmalloc_self_test :: "'a kheap_state_scheme \<Rightarrow> 'a kheap_state_scheme option" where
  "kmalloc_self_test s = do {
     let s = serial_write ''kernel: kmalloc self-test...\<newline>'' s;
     (a, s) \<leftarrow> kmalloc 64 s;
     (b, s) \<leftarrow> kmalloc 128 s;
     if a \<noteq> 0 \<and> b \<noteq> 0
     then do {
       let s = put64 a 0xDEADBEEF s;
       let s = put64 b 0xCAFEBABE s;
       let s = serial_write ''  alloc a='' s;
       let s = serial_write_hex_u64 a s;
       let s = serial_write '' alloc b='' s;
       let s = serial_write_hex_u64 b s;
       let s = serial_write ''\<newline>'' s;
       s \<leftarrow> kfree a s;
       (c, s) \<leftarrow> kmalloc 32 s;
       let s = serial_write ''  freed a, alloc c='' s;
       let s = serial_write_hex_u64 c s;
       let s = serial_write ''\<newline>'' s;
       s \<leftarrow> kfree b s;
       s \<leftarrow> kfree c s;
       Some (serial_write ''  self-test passed\<newline>'' s)
     }
     else Some (serial_write ''  self-test FAILED: kmalloc returned NULL\<newline>'' s)
   }"

text \<open>From the first line to the heap: serial line, memory map, frames, page tables, heap.\<close>

definition kernel_boot_memory :: "link_map \<Rightarrow> u64 \<Rightarrow> 'a intr_state_scheme \<Rightarrow> 'a intr_state_scheme option" where
  "kernel_boot_memory lm multiboot2_addr s = do {
     let s = serial_init s;
     let s = serial_write ''kernel: hello from tuna os!\<newline>'' s;
     let s = serial_write ''kernel: parsing multiboot2 memory map...\<newline>'' s;
     s \<leftarrow> multiboot2_parse_mmap multiboot2_addr s;
     let s = multiboot2_print_mmap s;
     let s = serial_write ''kernel: initializing pmm...\<newline>'' s;
     let (mmap_regions, mmap_count) = multiboot2_get_mmap s;
     let s = pmm_init (kernel_start lm) (kernel_end lm) mmap_regions mmap_count s;
     let s = serial_write ''kernel: pmm ready\<newline>'' s;
     let s = serial_write ''kernel: initializing vmm...\<newline>'' s;
     let s = vmm_init s;
     let s = serial_write ''kernel: vmm ready\<newline>'' s;
     let s = serial_write ''kernel: initializing kheap...\<newline>'' s;
     Some (kheap_init s)
   }"

definition kernel_boot_cpu :: "link_map \<Rightarrow> 'a intr_state_scheme \<Rightarrow> 'a intr_state_scheme outcome option" where
  "kernel_boot_cpu lm s = do {
     let s = serial_write ''kernel: initializing gdt...\<newline>'' s;
     let s = gdt_init (gdt_addr lm) s;
     let s = serial_write ''kernel: gdt ready\<newline>'' s;
     let s = serial_write ''kernel: initializing tss...\<newline>'' s;
     let kernel_stack_top = (kernel_end lm + 0x4000) AND NOT 0xF;
     let s = tss_init kernel_stack_top s;
     let s = gdt_load_tss (tss_addr lm) (ucast sizeof_tss - 1) s;
     let s = serial_write ''kernel: tss ready\<newline>'' s;
     let s = serial_write ''kernel: initializing idt...\<newline>'' s;
     let s = idt_init (idt_addr lm) (isr_stub_table lm) (isr_stub_128 lm) s;
     let s = serial_write ''kernel: idt ready\<newline>'' s;
     let s = serial_write ''kernel: triggering int3 self-test\<newline>'' s;
     isr_dispatch (int3_frame lm) s
   }"

definition kernel_boot_programs :: "link_map \<Rightarrow> 'a intr_state_scheme \<Rightarrow> (user_context option \<times> 'a intr_state_scheme) option" where
  "kernel_boot_programs lm s = do {
     let s = serial_write ''kernel: initializing pic...\<newline>'' s;
     let s = pic_init s;
     let s = serial_write ''kernel: pic ready\<newline>'' s;
     let s = serial_write ''kernel: initializing syscalls...\<newline>'' s;
     let s = syscall_init s;
     let s = serial_write ''kernel: initializing ramfs...\<newline>'' s;
     let s = ramfs_init s;
     (_, s) \<leftarrow> ramfs_create (cstr ''hello.elf'') (hello_elf_start lm) (hello_elf_end lm - hello_elf_start lm) s;
     (_, s) \<leftarrow> ramfs_create (cstr ''shell.elf'') (shell_elf_start lm) (shell_elf_end lm - shell_elf_start lm) s;
     s \<leftarrow> ramfs_list s;
     shell_file \<leftarrow> ramfs_find (cstr ''shell.elf'') s;
     let s = (if shell_file \<noteq> 0
              then syscall_set_shell_elf (file_data s shell_file) (file_size s shell_file) s else s);
     let s = serial_write ''kernel: launching shell...\<newline>'' s;
     Some (usermode_exec_elf (file_data s shell_file) (file_size s shell_file) s)
   }"

text \<open>The whole of \<open>kernel_main\<close>; \<open>Inl\<close> when the breakpoint does not resume.\<close>

definition kernel_main ::
  "link_map \<Rightarrow> u64 \<Rightarrow> 'a intr_state_scheme \<Rightarrow> ('a intr_state_scheme + user_context option \<times> 'a intr_state_scheme) option"
where
  "kernel_main lm multiboot2_addr s = do {
     s \<leftarrow> kernel_boot_memory lm multiboot2_addr s;
     s \<leftarrow> kmalloc_self_test s;
     r \<leftarrow> kernel_boot_cpu lm s;
     case r of
       Halts s \<Rightarrow> Some (Inl s)
     | Switches s \<Rightarrow> Some (Inl s)
     | Resumes _ s \<Rightarrow> do {
         r \<leftarrow> kernel_boot_programs lm s;
         Some (Inr r)
       }
   }"


end
