(* ===== verification/Memory_Map.thy ===== *)
theory Memory_Map
  imports Multiboot2
begin

text \<open>
  What the parser of the memory map promises: it returns the entries of the boot loader's
  memory-map tags, at most 32 of them, exactly when the list of tags ends.
\<close>


section \<open>The entries of a map tag\<close>

definition add_region :: "mmap_region \<Rightarrow> 'a mb2_state_scheme \<Rightarrow> 'a mb2_state_scheme" where
  "add_region r s =
     (if region_count s < MMAP_MAX_REGIONS
      then s\<lparr>regions := (regions s)[unat (region_count s) := r], region_count := region_count s + 1\<rparr> else s)"

text \<open>The tag at \<open>p\<close> has its size at 4 and, when it is a memory map, the size of its entries at 8.\<close>

definition entry_count :: "memory \<Rightarrow> u64 \<Rightarrow> nat" where
  "entry_count m p = (unat (load32 m (p + 4)) - 16 + (unat (load32 m (p + 8)) - 1)) div unat (load32 m (p + 8))"

definition nth_entry :: "memory \<Rightarrow> u64 \<Rightarrow> nat \<Rightarrow> mmap_region" where
  "nth_entry m p k = mmap_entry m (p + 16 + of_nat (k * unat (load32 m (p + 8))))"

definition tag_entries :: "memory \<Rightarrow> u64 \<Rightarrow> mmap_region list" where
  "tag_entries m p =
     (if load32 m p = MULTIBOOT2_TAG_TYPE_MMAP then map (nth_entry m p) [0..<entry_count m p] else [])"

lemma add_region_full: "\<not> region_count s < MMAP_MAX_REGIONS \<Longrightarrow> fold add_region rs s = s"
  by (induction rs) (simp_all add: add_region_def)

lemma add_region_fields: "\<exists>xs n. add_region r s = s\<lparr>regions := xs, region_count := n\<rparr>"
proof (cases "region_count s < MMAP_MAX_REGIONS")
  case False
  then show ?thesis by (intro exI [of _ "regions s"] exI [of _ "region_count s"]) (simp add: add_region_def)
qed (auto simp: add_region_def)

lemma fold_add_region:
  "\<exists>xs n. fold add_region rs s = s\<lparr>regions := xs, region_count := n\<rparr>"
proof (induction rs arbitrary: s)
  case Nil
  show ?case by (intro exI [of _ "regions s"] exI [of _ "region_count s"]) simp
next
  case (Cons r rs)
  obtain xs n where "fold add_region rs (add_region r s) = (add_region r s)\<lparr>regions := xs, region_count := n\<rparr>"
    using Cons.IH by blast
  moreover obtain ys k where "add_region r s = s\<lparr>regions := ys, region_count := k\<rparr>"
    using add_region_fields [of r s] by blast
  ultimately show ?case by auto
qed

lemma fold_add_region_mem [simp]: "mem (fold add_region rs s) = mem s"
  using fold_add_region [of rs s] by auto

lemma ceil_less: "k < (n + (e - 1)) div e \<longleftrightarrow> k * e < n" if "0 < e" for k n e :: nat
proof -
  have "k < (n + (e - 1)) div e \<longleftrightarrow> Suc k \<le> (n + (e - 1)) div e" by (rule Suc_le_eq [symmetric])
  also have "\<dots> \<longleftrightarrow> Suc k * e \<le> n + (e - 1)" using that by (simp add: less_eq_div_iff_mult_less_eq)
  also have "\<dots> \<longleftrightarrow> k * e < n" using that by auto
  finally show ?thesis .
qed

lemma entry_bound:
  assumes es: "load32 m (p + 8) \<noteq> 0" and p: "unat p < 2 ^ 63" and k: "k \<le> entry_count m p"
  shows "p + 16 + of_nat (k * unat (load32 m (p + 8))) < p + ucast (load32 m (p + 4)) \<longleftrightarrow> k < entry_count m p"
proof -
  let ?e = "unat (load32 m (p + 8))" and ?z = "unat (load32 m (p + 4))"
  have e: "0 < ?e" using es by (simp add: unat_gt_0)
  have z: "?z < 4294967296" "?e < 4294967296"
    using unat_lt2p [of "load32 m (p + 4) :: u32"] unat_lt2p [of "load32 m (p + 8) :: u32"] by simp_all
  have "entry_count m p * ?e \<le> ?z - 16 + (?e - 1)" unfolding entry_count_def by (rule div_times_less_eq_dividend)
  moreover have "k * ?e \<le> entry_count m p * ?e" using k by (rule mult_le_mono1)
  ultimately have ke: "k * ?e < 8589934592" using z by linarith
  have "unat (p + of_nat (16 + k * ?e)) = unat p + (16 + k * ?e)" using ke p by (intro unat_add_of_nat) simp
  then have a: "unat (p + 16 + of_nat (k * ?e)) = unat p + 16 + k * ?e" by (simp add: add.assoc)
  have "unat (p + of_nat ?z) = unat p + ?z" using z p by (intro unat_add_of_nat) simp
  then have b: "unat (p + ucast (load32 m (p + 4))) = unat p + ?z" by simp
  have "p + 16 + of_nat (k * ?e) < p + ucast (load32 m (p + 4)) \<longleftrightarrow> k * ?e < ?z - 16"
    unfolding word_less_nat_alt a b by linarith
  then show ?thesis unfolding entry_count_def ceil_less [OF e] .
qed

lemma mb2_entries_fold:
  assumes es: "load32 m (p + 8) \<noteq> 0" and p: "unat p < 2 ^ 63" and m: "mem s = m" and k: "k \<le> entry_count m p"
  shows "mb2_entries (load32 m (p + 8)) (p + 16 + of_nat (k * unat (load32 m (p + 8)))) (p + ucast (load32 m (p + 4))) s =
    fold add_region (map (nth_entry m p) [k..<entry_count m p]) s"
  using m k
proof (induction "entry_count m p - k" arbitrary: k s)
  case (0 k s)
  then have "k = entry_count m p" by simp
  then show ?case using entry_bound [OF es p 0(3)] by (subst mb2_entries.simps) simp
next
  case (Suc d k s)
  let ?e = "load32 m (p + 8)"
  have k: "k < entry_count m p" using Suc(2) by simp
  have next_k: "p + 16 + of_nat (k * unat ?e) + ucast ?e = p + 16 + of_nat (Suc k * unat ?e)"
    by (simp add: algebra_simps)
  show ?case
  proof (cases "region_count s < MMAP_MAX_REGIONS")
    case True
    have m': "mem (add_region (nth_entry m p k) s) = m" using Suc(3) by (simp add: add_region_def)
    have "mb2_entries ?e (p + 16 + of_nat (k * unat ?e)) (p + ucast (load32 m (p + 4))) s =
        mb2_entries ?e (p + 16 + of_nat (Suc k * unat ?e)) (p + ucast (load32 m (p + 4))) (add_region (nth_entry m p k) s)"
      unfolding next_k [symmetric] using entry_bound [OF es p Suc(4)] k True Suc(3)
      by (subst mb2_entries.simps) (simp add: add_region_def nth_entry_def)
    also have "\<dots> = fold add_region (map (nth_entry m p) [Suc k..<entry_count m p]) (add_region (nth_entry m p k) s)"
      by (rule Suc(1)) (use Suc(2) k m' in simp_all)
    finally show ?thesis using k by (simp add: upt_conv_Cons)
  next
    case False
    then show ?thesis by (subst mb2_entries.simps) (simp add: add_region_full)
  qed
qed


section \<open>The list of tags\<close>

definition next_tag :: "memory \<Rightarrow> u64 \<Rightarrow> u64" where
  "next_tag m p = p + ucast (mb2_align_up (load32 m (p + 4)) 8)"

text \<open>\<open>tag_list m p ts\<close>: \<open>ts\<close> are the addresses of the tags from \<open>p\<close> up to the end tag.\<close>

fun tag_list :: "memory \<Rightarrow> u64 \<Rightarrow> u64 list \<Rightarrow> bool" where
  "tag_list m p [] \<longleftrightarrow> load32 m p = MULTIBOOT2_TAG_TYPE_END"
| "tag_list m p (t # ts) \<longleftrightarrow> t = p \<and> load32 m p \<noteq> MULTIBOOT2_TAG_TYPE_END \<and> unat p < 2 ^ 63 \<and>
     (load32 m p = MULTIBOOT2_TAG_TYPE_MMAP \<longrightarrow> load32 m (p + 8) \<noteq> 0) \<and> tag_list m (next_tag m p) ts"

lemma mb2_tags_fold:
  assumes "tag_list (mem s) p ts"
  shows "mb2_tags p s = Some (fold add_region (concat (map (tag_entries (mem s)) ts)) s)"
  using assms
proof (induction ts arbitrary: p s)
  case Nil
  then show ?case by (subst mb2_tags.simps) simp
next
  case (Cons t ts)
  let ?m = "mem s"
  let ?s = "fold add_region (tag_entries ?m p) s"
  have t: "t = p" "load32 ?m p \<noteq> 0" "unat p < 2 ^ 63" "load32 ?m p = 6 \<longrightarrow> load32 ?m (p + 8) \<noteq> 0"
    "tag_list ?m (next_tag ?m p) ts" using Cons.prems by simp_all
  have "(if load32 ?m p = 6 then mb2_entries (load32 ?m (p + 8)) (p + 16) (p + ucast (load32 ?m (p + 4))) s else s) = ?s"
    using mb2_entries_fold [of ?m p s 0] t by (simp add: tag_entries_def)
  then have "mb2_tags p s = mb2_tags (next_tag ?m p) ?s"
    using t(2) by (subst mb2_tags.simps) (simp add: Let_def next_tag_def)
  also have "\<dots> = Some (fold add_region (concat (map (tag_entries ?m) ts)) ?s)" using Cons.IH [of ?s] t(5) by simp
  finally show ?case using t(1) by simp
qed

lemma take_list_update_Suc: "i < length xs \<Longrightarrow> take (Suc i) (xs[i := x]) = take i xs @ [x]"
  by (simp add: take_Suc_conv_app_nth)

text \<open>The array of regions and the number of its elements in use.\<close>

definition mmap_wf :: "'a mb2_state_scheme \<Rightarrow> bool" where
  "mmap_wf s \<longleftrightarrow> length (regions s) = 32 \<and> region_count s \<le> MMAP_MAX_REGIONS"

definition mmap_used :: "'a mb2_state_scheme \<Rightarrow> mmap_region list" where
  "mmap_used s = take (unat (region_count s)) (regions s)"

lemma add_region_used:
  assumes "mmap_wf s"
  shows "mmap_wf (add_region r s)" "mmap_used (add_region r s) = take 32 (mmap_used s @ [r])"
proof -
  have l: "length (regions s) = 32" "unat (region_count s) \<le> 32"
    using assms by (simp_all add: mmap_wf_def word_le_nat_alt)
  have "mmap_wf (add_region r s) \<and> mmap_used (add_region r s) = take 32 (mmap_used s @ [r])"
  proof (cases "region_count s < MMAP_MAX_REGIONS")
    case True
    then have c: "unat (region_count s) < 32" by (simp add: word_less_nat_alt)
    then have "unat (region_count s + 1) = Suc (unat (region_count s))" by (intro unat_inc) simp
    then show ?thesis
      using True c l take_list_update_Suc [of "unat (region_count s)" "regions s" r]
      by (simp add: add_region_def mmap_wf_def mmap_used_def word_le_nat_alt)
  next
    case False
    then have "unat (region_count s) = 32" using l by (simp add: word_less_nat_alt)
    then show ?thesis using False assms l by (simp add: add_region_def mmap_used_def)
  qed
  then show "mmap_wf (add_region r s)" "mmap_used (add_region r s) = take 32 (mmap_used s @ [r])" by blast+
qed

lemma fold_add_region_used:
  "mmap_wf s \<Longrightarrow> mmap_wf (fold add_region rs s) \<and> mmap_used (fold add_region rs s) = take 32 (mmap_used s @ rs)"
proof (induction rs arbitrary: s)
  case Nil
  then show ?case by (simp add: mmap_wf_def mmap_used_def word_le_nat_alt)
next
  case (Cons r rs)
  have "take 32 (take 32 (mmap_used s @ [r]) @ rs) = take 32 (mmap_used s @ r # rs)"
    by (cases "length (mmap_used s) < 32") simp_all
  then show ?case using Cons.IH [of "add_region r s"] add_region_used [OF Cons.prems, of r] by simp
qed


section \<open>Properties of the parser\<close>

lemma mmap_parse:
  assumes "tag_list (mem s) (multiboot2_addr + 8) ts" "length (regions s) = 32"
  shows "\<exists>s'. multiboot2_parse_mmap multiboot2_addr s = Some s' \<and>
    mmap_used s' = take 32 (concat (map (tag_entries (mem s)) ts)) \<and> mmap_wf s' \<and>
    s' = s\<lparr>regions := regions s', region_count := region_count s'\<rparr>"
proof -
  let ?rs = "concat (map (tag_entries (mem s)) ts)" and ?s = "s\<lparr>region_count := 0\<rparr>"
  have "mmap_wf ?s" "mmap_used ?s = []" using assms(2) by (simp_all add: mmap_wf_def mmap_used_def)
  moreover have "multiboot2_parse_mmap multiboot2_addr s = Some (fold add_region ?rs ?s)"
    using mb2_tags_fold [of ?s] assms(1) by (simp add: multiboot2_parse_mmap_def)
  moreover obtain xs n where "fold add_region ?rs ?s = ?s\<lparr>regions := xs, region_count := n\<rparr>"
    using fold_add_region [of ?rs ?s] by blast
  ultimately show ?thesis using fold_add_region_used [of ?s ?rs] by auto
qed

text \<open>
  C12 The parser returns the memory map: when the boot loader's tags end with an end tag, it
  returns with exactly the entries of all memory-map tags in their order, cut off after 32.
\<close>

theorem multiboot2_parse_refines:
  assumes "tag_list (mem s) (multiboot2_addr + 8) ts" "length (regions s) = 32"
  shows "\<exists>s'. multiboot2_parse_mmap multiboot2_addr s = Some s' \<and>
    mmap_used s' = take 32 (concat (map (tag_entries (mem s)) ts)) \<and> mmap_wf s' \<and>
    s' = s\<lparr>regions := regions s', region_count := region_count s'\<rparr>"
  by (rule mmap_parse [OF assms])

lemma mmap_fields: "\<exists>xs n. s = s\<lparr>regions := xs, region_count := n\<rparr>"
  by (intro exI [of _ "regions s"] exI [of _ "region_count s"]) simp

lemma mb2_entries_wf:
  "mmap_wf s \<Longrightarrow> mmap_wf (mb2_entries es a e s) \<and>
     (\<exists>xs n. mb2_entries es a e s = s\<lparr>regions := xs, region_count := n\<rparr>)"
proof (induction es a e s rule: mb2_entries.induct)
  case (1 es a e s)
  show ?case
  proof (cases "a < e \<and> region_count s < MMAP_MAX_REGIONS")
    case True
    let ?s = "add_region (mmap_entry (mem s) a) s"
    have "mmap_wf ?s" by (rule add_region_used(1) [OF 1(2)])
    then show ?thesis using 1(1) True by (subst (1 2) mb2_entries.simps) (auto simp: add_region_def)
  next
    case False
    then have "mb2_entries es a e s = s" by (subst mb2_entries.simps) auto
    then show ?thesis using 1(2) mmap_fields [of s] by simp
  qed
qed

lemma mb2_entries_mem: "mem (mb2_entries es a e s) = mem s"
proof (induction es a e s rule: mb2_entries.induct)
  case (1 es a e s)
  then show ?case by (subst mb2_entries.simps) simp
qed

lemma mb2_tags_wf:
  fixes s s' :: "'a mb2_state_scheme"
  assumes "mb2_tags p s = Some s'"
  shows "mmap_wf s \<longrightarrow> mmap_wf s' \<and> (\<exists>xs n. s' = s\<lparr>regions := xs, region_count := n\<rparr>)"
proof (rule mb2_tags.raw_induct [where P = "\<lambda>p s s'. mmap_wf s \<longrightarrow> mmap_wf s' \<and> (\<exists>xs n. s' = s\<lparr>regions := xs, region_count := n\<rparr>)",
    OF _ assms])
  fix f p and s s' :: "'a mb2_state_scheme"
  assume IH: "\<And>p s s'. f p s = Some s' \<Longrightarrow> mmap_wf s \<longrightarrow> mmap_wf s' \<and> (\<exists>xs n. s' = s\<lparr>regions := xs, region_count := n\<rparr>)"
    and r: "(let type = get32 s p; size = get32 s (p + 4)
      in if type = 0 then Some s
         else Let (if type = 6 then mb2_entries (get32 s (p + 8)) (p + 16) (p + ucast size) s else s)
           (f (p + ucast (mb2_align_up size 8)))) = Some s'"
  let ?s = "if get32 s p = 6 then mb2_entries (get32 s (p + 8)) (p + 16) (p + ucast (get32 s (p + 4))) s else s"
  show "mmap_wf s \<longrightarrow> mmap_wf s' \<and> (\<exists>xs n. s' = s\<lparr>regions := xs, region_count := n\<rparr>)"
  proof (cases "get32 s p = 0")
    case True
    then show ?thesis using r mmap_fields [of s] by auto
  next
    case False
    then have f: "f (p + ucast (mb2_align_up (get32 s (p + 4)) 8)) ?s = Some s'" using r by (simp add: Let_def)
    show ?thesis
    proof
      assume wf: "mmap_wf s"
      have "mmap_wf ?s \<and> (\<exists>xs n. ?s = s\<lparr>regions := xs, region_count := n\<rparr>)"
        using mb2_entries_wf [OF wf] mmap_fields [of s] wf by auto
      then obtain xs n where u: "mmap_wf ?s" "?s = s\<lparr>regions := xs, region_count := n\<rparr>" by blast
      from IH [OF f] u(1) obtain ys k where v: "mmap_wf s'" "s' = ?s\<lparr>regions := ys, region_count := k\<rparr>" by blast
      have "s' = s\<lparr>regions := ys, region_count := k\<rparr>" unfolding v(2) u(2) by simp
      with v(1) show "mmap_wf s' \<and> (\<exists>xs n. s' = s\<lparr>regions := xs, region_count := n\<rparr>)" by blast
    qed
  qed
qed

text \<open>
  C33 Whatever the boot loader left in memory, the parser never counts past the 32 elements
  of \<open>regions\<close> nor writes outside it: if it returns, the array has its 32 elements, at most
  32 are in use, and no other variable has changed.
\<close>

theorem multiboot2_parse_bounded:
  assumes "multiboot2_parse_mmap multiboot2_addr s = Some s'" "length (regions s) = 32"
  shows "mmap_wf s' \<and> s' = s\<lparr>regions := regions s', region_count := region_count s'\<rparr>"
  using mb2_tags_wf [of "multiboot2_addr + 8" "s\<lparr>region_count := 0\<rparr>" s'] assms
  by (auto simp: multiboot2_parse_mmap_def mmap_wf_def)

text \<open>
  C25 The parser returns exactly when following the sizes of the tags leads to an end tag; it
  runs for ever on a list without one, in particular at a tag of size 0.
\<close>

theorem multiboot2_parse_returns:
  "(\<exists>s'. multiboot2_parse_mmap multiboot2_addr s = Some s') \<longleftrightarrow>
     (\<exists>n. load32 (mem s) ((next_tag (mem s) ^^ n) (multiboot2_addr + 8)) = MULTIBOOT2_TAG_TYPE_END)"
proof -
  have to: "\<exists>n. load32 (mem s) ((next_tag (mem s) ^^ n) p) = 0"
    if "mb2_tags p s = Some s'" for p and s s' :: "'a mb2_state_scheme"
  proof (rule mb2_tags.raw_induct [where P = "\<lambda>p s s'. \<exists>n. load32 (mem s) ((next_tag (mem s) ^^ n) p) = 0", OF _ that])
    fix f p and s s' :: "'a mb2_state_scheme"
    assume IH: "\<And>p s s'. f p s = Some s' \<Longrightarrow> \<exists>n. load32 (mem s) ((next_tag (mem s) ^^ n) p) = 0"
      and r: "(let type = get32 s p; size = get32 s (p + 4)
        in if type = 0 then Some s
           else Let (if type = 6 then mb2_entries (get32 s (p + 8)) (p + 16) (p + ucast size) s else s)
             (f (p + ucast (mb2_align_up size 8)))) = Some s'"
    let ?s = "if get32 s p = 6 then mb2_entries (get32 s (p + 8)) (p + 16) (p + ucast (get32 s (p + 4))) s else s"
    show "\<exists>n. load32 (mem s) ((next_tag (mem s) ^^ n) p) = 0"
    proof (cases "get32 s p = 0")
      case True
      then show ?thesis by (intro exI [of _ 0]) simp
    next
      case False
      then have "f (next_tag (mem s) p) ?s = Some s'" using r by (simp add: Let_def next_tag_def)
      from IH [OF this] obtain n where "load32 (mem ?s) ((next_tag (mem ?s) ^^ n) (next_tag (mem s) p)) = 0" by blast
      moreover have "mem ?s = mem s" by (simp add: mb2_entries_mem)
      ultimately show ?thesis by (intro exI [of _ "Suc n"]) (simp add: funpow_swap1)
    qed
  qed
  have ret: "\<exists>s'. mb2_tags p s = Some s'" if "load32 (mem s) ((next_tag (mem s) ^^ n) p) = 0" for p n and s :: "'a mb2_state_scheme"
    using that
  proof (induction n arbitrary: p s)
    case 0
    then show ?case by (subst mb2_tags.simps) simp
  next
    case (Suc n)
    let ?s = "if get32 s p = 6 then mb2_entries (get32 s (p + 8)) (p + 16) (p + ucast (get32 s (p + 4))) s else s"
    have m: "mem ?s = mem s" by (simp add: mb2_entries_mem)
    have "\<exists>s'. mb2_tags (next_tag (mem s) p) ?s = Some s'"
      by (rule Suc.IH) (use Suc.prems m in \<open>simp add: funpow_swap1\<close>)
    then show ?case by (subst mb2_tags.simps) (simp add: Let_def next_tag_def)
  qed
  show ?thesis
    unfolding multiboot2_parse_mmap_def using to ret [of "s\<lparr>region_count := 0\<rparr>"] by fastforce
qed

text \<open>A memory map with one entry, for the witnesses.\<close>

definition sample_mmap :: memory where
  "sample_mmap =
     store32 (store64 (store64 (store32 (store32 (store32 (\<lambda>_. 0)
       0x9008 6) 0x900C 40) 0x9010 24) 0x9018 0) 0x9020 0x8000000) 0x9028 1"

definition sample_mb2 :: mb2_state where
  "sample_mb2 = \<lparr>mem = sample_mmap, outs = [], dev = (\<lambda>_ _. 0x20), now = 0,
     regions = replicate 32 \<lparr>region_base = 0, region_length = 0, region_type = 0\<rparr>, region_count = 0\<rparr>"

lemma sample_loads:
  "load32 sample_mmap 0x9008 = 6" "load32 sample_mmap 0x900C = 40" "load32 sample_mmap 0x9010 = 24"
  "load64 sample_mmap 0x9018 = 0" "load64 sample_mmap 0x9020 = 0x8000000" "load32 sample_mmap 0x9028 = 1"
  "load32 sample_mmap 0x9030 = 0"
proof -
  have "load32 (\<lambda>_. 0) 0x9030 = 0" by (simp add: load_le_numeral)
  then show "load32 sample_mmap 0x9030 = 0" by (simp add: sample_mmap_def load_store_apart apart_def)
qed (simp_all add: sample_mmap_def load_store_apart apart_def)

lemma sample_tags:
  "tag_list sample_mmap 0x9008 [0x9008]"
  "tag_entries sample_mmap 0x9008 = [\<lparr>region_base = 0, region_length = 0x8000000, region_type = 1\<rparr>]"
  by (simp_all add: sample_loads next_tag_def mb2_align_up_def tag_entries_def entry_count_def nth_entry_def mmap_entry_def)

theorem multiboot2_parse_refines_witness:
  "\<exists>s'. multiboot2_parse_mmap 0x9000 sample_mb2 = Some s' \<and>
     mmap_used s' = [\<lparr>region_base = 0, region_length = 0x8000000, region_type = 1\<rparr>]"
proof -
  have "tag_list (mem sample_mb2) (0x9000 + 8) [0x9008]" "length (regions sample_mb2) = 32"
    using sample_tags(1) by (simp_all add: sample_mb2_def)
  from multiboot2_parse_refines [OF this] sample_tags(2) show ?thesis by (auto simp: sample_mb2_def)
qed

theorem multiboot2_parse_bounded_witness:
  "\<exists>s'. multiboot2_parse_mmap 0x9000 sample_mb2 = Some s' \<and> mmap_wf s'"
proof -
  have "tag_list (mem (sample_mb2\<lparr>region_count := 0\<rparr>)) (0x9000 + 8) [0x9008]"
    using sample_tags(1) by (simp add: sample_mb2_def)
  from mb2_tags_fold [OF this] obtain s' where "multiboot2_parse_mmap 0x9000 sample_mb2 = Some s'"
    by (simp add: multiboot2_parse_mmap_def)
  with multiboot2_parse_bounded [OF this] show ?thesis by (simp add: sample_mb2_def)
qed


end
