(* ===== verification/Programs.thy ===== *)
theory Programs
  imports Syscall
begin
text \<open>
  What the system calls promise: an unknown call is an error and nothing more, and a program
  started with \<open>exec\<close> gives the processor back to its caller when it calls \<open>exit\<close>.
\<close>

section \<open>What a call keeps\<close>


text \<open>Steps that poll a device or print.\<close>

definition io_only :: "'a machine_scheme \<Rightarrow> 'a machine_scheme \<Rightarrow> bool" where
  "io_only s t \<longleftrightarrow> t = s\<lparr>outs := outs t, now := now t\<rparr>"

lemma io_only_refl [simp]: "io_only s s"
  by (simp add: io_only_def)


lemma io_only_upd [simp]: "io_only s (t\<lparr>outs := x\<rparr>) = io_only s t" "io_only s (t\<lparr>now := n\<rparr>) = io_only s t"
  unfolding io_only_def by (cases s; cases t; simp)+

lemma io_only_print [simp]:
  "io_only s (serial_write str t) = io_only s t" "io_only s (serial_write_dec_u64 v t) = io_only s t"
  "io_only s (serial_write_char c t) = io_only s t" "io_only s (serial_write_cstr cs t) = io_only s t"
  by (simp_all add: print_eqs serial_write_cstr_def)

lemma io_only_mem: "io_only s t \<Longrightarrow> mem t = mem s"
  unfolding io_only_def by (cases s; cases t) simp











section \<open>Running a program\<close>

text \<open>The table after \<open>syscall_init\<close>.\<close>

definition handlers_ready :: "'a sys_state_scheme \<Rightarrow> bool" where
  "handlers_ready s \<longleftrightarrow>
     syscall_table s = [Some Sys_read, Some Sys_write, Some Sys_listfiles] @ replicate 13 None"

lemma syscall_init_ready: "handlers_ready (syscall_init s)" "\<not> child_running (syscall_init s)"
proof -
  have "replicate 16 None = [None, None, None] @ replicate 13 (None :: syscall_fn option)" by (simp add: numeral_eq_Suc)
  then show "handlers_ready (syscall_init s)" "\<not> child_running (syscall_init s)"
    by (simp_all add: handlers_ready_def syscall_init_def syscall_register_def print_eqs Let_def nat_numeral_diff_1)
qed

lemma syscall_invalid:
  fixes s :: "'a sys_state_scheme"
  assumes "handlers_ready s" "4 < fr_rax frame"
  shows "\<exists>x. syscall_dispatch frame s = Some (Resumes (frame\<lparr>fr_rax := -1\<rparr>) (s\<lparr>outs := x\<rparr>))"
proof -
  let ?n = "fr_rax frame"
  have none: "(if ?n \<ge> MAX_SYSCALLS then None else syscall_table s ! unat ?n) = None"
  proof (cases "?n \<ge> 16")
    case False
    then have "unat ?n < 16" "3 \<le> unat ?n" using assms(2) by (simp_all add: word_less_nat_alt word_le_nat_alt)
    then show ?thesis using assms(1) False by (simp add: handlers_ready_def nth_append nth_Cons')
  qed simp
  have ne: "?n \<noteq> 3" "?n \<noteq> 4" using assms(2) by auto
  have "only_prints s (serial_write ''\<newline>'' (serial_write_dec_u64 ?n (serial_write ''[syscall] invalid number='' s)))"
    by (intro only_printsI)
  then show ?thesis using ne by (auto simp: syscall_dispatch_def none Let_def only_prints_def)
qed




text \<open>
  C36 A number that names no system call is refused: the caller gets -1 in rax, keeps all its
  other registers, and nothing but the serial line changes.
\<close>

theorem syscall_dispatch_invalid:
  fixes s :: "'a sys_state_scheme"
  assumes "handlers_ready s" "4 < fr_rax frame"
  shows "\<exists>x. syscall_dispatch frame s = Some (Resumes (frame\<lparr>fr_rax := -1\<rparr>) (s\<lparr>outs := x\<rparr>))"
  by (rule syscall_invalid [OF assms])



section \<open>A program that runs\<close>



text \<open>
  A machine after start-up with one file, \<open>a\<close>: an executable without segments. The file's node
  is at 0x8100 and its 64 bytes at 0x8000.
\<close>

definition exec_image :: memory where
  "exec_image = (\<lambda>_. 0)
     (0x8000 := 0x7F, 0x8001 := 0x45, 0x8002 := 0x4C, 0x8003 := 0x46, 0x8004 := 2, 0x8005 := 1,
      0x8010 := 2, 0x8012 := 62, 0x801A := 0x40, 0x8100 := 0x61, 0x8141 := 0x80, 0x8148 := 64)"

definition null_frame :: interrupt_frame where
  "null_frame = \<lparr>fr_r15 = 0, fr_r14 = 0, fr_r13 = 0, fr_r12 = 0, fr_r11 = 0, fr_r10 = 0, fr_r9 = 0, fr_r8 = 0,
     fr_rbp = 0, fr_rdi = 0, fr_rsi = 0, fr_rdx = 0, fr_rcx = 0, fr_rbx = 0, fr_rax = 0, fr_vector = 128,
     fr_error_code = 0, fr_rip = 0x400010, fr_cs = 0x23, fr_rflags = 0x202, fr_rsp = 0x801000, fr_ss = 0x1B\<rparr>"

definition cold_sys :: sys_state where
  "cold_sys = desc_state.extend (ramfs_state.extend (task_state.extend cold_task \<lparr>file_list = 0x8100\<rparr>)
     \<lparr>gdt = [], gdtr = (0, 0), task_register = 0, tss = null_tss\<rparr>)
     \<lparr>syscall_table = [], saved_frame = null_frame, child_running = False, shell_elf_image = 0, shell_elf_size = 0\<rparr>"

definition boot_sys :: sys_state where
  "boot_sys = vmm_init (boot_pmm cold_sys)"

definition exec_sys :: sys_state where
  "exec_sys = syscall_init (boot_sys\<lparr>mem := (\<lambda>x. if unat x div 4096 = 8 then exec_image x else mem boot_sys x), file_list := 0x8100\<rparr>)"










theorem syscall_dispatch_invalid_witness:
  "\<exists>x. syscall_dispatch (null_frame\<lparr>fr_rax := 7\<rparr>) exec_sys =
     Some (Resumes (null_frame\<lparr>fr_rax := -1\<rparr>) (exec_sys\<lparr>outs := x\<rparr>))"
proof -
  have "handlers_ready exec_sys" unfolding exec_sys_def by (rule syscall_init_ready)
  from syscall_dispatch_invalid [OF this, of "null_frame\<lparr>fr_rax := 7\<rparr>"] show ?thesis by simp
qed



end
