(* ===== verification/Startup.thy ===== *)
theory Startup
  imports Boot Memory_Map Programs
begin
text \<open>
  The tables the processor consults, after start-up: the gates of the interrupt table, the
  segments and the task state segment, and the state of memory they are set up in.
\<close>

section \<open>Gates\<close>

text \<open>What the processor reads from an entry of the interrupt table: the handler, its code segment and the lowest ring that may call it.\<close>

definition gate :: "idt_entry \<Rightarrow> (u64 \<times> u16 \<times> u8) option" where
  "gate e = (if bit (type_attr e) 7
     then Some (ucast (offset_low e) OR push_bit 16 (ucast (offset_mid e)) OR push_bit 32 (ucast (offset_high e)),
                selector e, drop_bit 5 (type_attr e) AND 3)
     else None)"

definition make_gate :: "u64 \<Rightarrow> u8 \<Rightarrow> idt_entry" where
  "make_gate addr attr =
     \<lparr>offset_low = ucast (addr AND 0xFFFF), selector = KERNEL_CODE_SELECTOR, ist = 0, type_attr = attr,
      offset_mid = ucast (drop_bit 16 addr AND 0xFFFF), offset_high = ucast (drop_bit 32 addr AND 0xFFFFFFFF), idt_zero = 0\<rparr>"

lemma low_bits: "x AND 0xFFFF = take_bit 16 x" "x AND 0xFFFFFFFF = take_bit 32 x" "x AND 0xFF = take_bit 8 x" for x :: u64
  by (simp_all add: take_bit_eq_mask mask_eq_exp_minus_1)

lemma join_bits:
  fixes x :: u64
  shows "take_bit 16 x OR push_bit 16 (take_bit 16 (drop_bit 16 x)) OR push_bit 32 (take_bit 32 (drop_bit 32 x)) = x"
proof (rule bit_word_eqI)
  fix n assume "n < LENGTH(64)"
  then show "bit (take_bit 16 x OR push_bit 16 (take_bit 16 (drop_bit 16 x)) OR push_bit 32 (take_bit 32 (drop_bit 32 x))) n = bit x n"
    by (cases "n < 16"; cases "n < 32") (auto simp: bit_simps)
qed

lemma gate_make:
  "gate (make_gate addr attr) = (if bit attr 7 then Some (addr, KERNEL_CODE_SELECTOR, drop_bit 5 attr AND 3) else None)"
proof -
  have "ucast (ucast (addr AND 0xFFFF) :: u16) OR push_bit 16 (ucast (ucast (drop_bit 16 addr AND 0xFFFF) :: u16)) OR
      push_bit 32 (ucast (ucast (drop_bit 32 addr AND 0xFFFFFFFF) :: u32)) = addr"
  proof -
    have "ucast (ucast (take_bit 16 x) :: u16) = take_bit 16 x" "ucast (ucast (take_bit 32 x) :: u32) = take_bit 32 x" for x :: u64
      by (rule bit_word_eqI; auto simp: bit_simps)+
    then show ?thesis unfolding low_bits using join_bits [of addr] by simp
  qed
  then show ?thesis by (simp add: gate_def make_gate_def)
qed

lemma gate_null: "gate null_idt_entry = None"
  by (simp add: gate_def null_idt_entry_def)

lemma fold_idt:
  assumes "n \<le> length (idt s)"
  shows "fold (\<lambda>k s. s\<lparr>idt := (idt s)[k := g k]\<rparr>) [0..<n] s = s\<lparr>idt := map g [0..<n] @ drop n (idt s)\<rparr>"
  using assms
proof (induction n)
  case (Suc n)
  have "(map g [0..<n] @ drop n (idt s))[n := g n] = map g [0..<Suc n] @ drop (Suc n) (idt s)"
    using Suc.prems by (simp add: list_update_append Cons_nth_drop_Suc [symmetric])
  then show ?case using Suc by simp
qed simp

lemma idt_init_eq:
  fixes s :: "'a intr_state_scheme"
  assumes "length (idt s) = 256"
  shows "idt_init addr stubs stub128 s =
    s\<lparr>idt := (map (\<lambda>k. make_gate (stubs ! k) 0x8E) [0..<48] @ replicate 208 null_idt_entry)[128 := make_gate stub128 0xEF],
      idtr := (4095, addr)\<rparr>"
proof -
  have z: "word_for (0 :: u64) 256 (\<lambda>i s. s\<lparr>idt := (idt s)[unat i := null_idt_entry]\<rparr>) s =
    s\<lparr>idt := replicate 256 null_idt_entry\<rparr>" (is "?l = ?t")
  proof -
    have "?l = fold (\<lambda>k s. s\<lparr>idt := (idt s)[k := null_idt_entry]\<rparr>) [0..<256] s"
      unfolding word_for_fold by (intro fold_cong) (simp_all add: unat_of_nat_small)
    also have "\<dots> = ?t" using fold_idt [of 256 s "\<lambda>_. null_idt_entry"] assms by (simp add: map_replicate_const)
    finally show ?thesis .
  qed
  have "word_for (0 :: u64) 48 (\<lambda>i. idt_set_gate (ucast i) (stubs ! unat i) 0x8E) ?t =
    fold (\<lambda>k s. s\<lparr>idt := (idt s)[k := make_gate (stubs ! k) 0x8E]\<rparr>) [0..<48] ?t"
    unfolding word_for_fold
    by (intro fold_cong) (simp_all add: fun_eq_iff idt_set_gate_def make_gate_def unat_of_nat_small unat_ucast)
  also have "\<dots> = s\<lparr>idt := map (\<lambda>k. make_gate (stubs ! k) 0x8E) [0..<48] @ replicate 208 null_idt_entry\<rparr>"
    using fold_idt [of 48 ?t "\<lambda>k. make_gate (stubs ! k) 0x8E"] by simp
  finally show ?thesis
    unfolding idt_init_def z by (simp add: idt_set_gate_def make_gate_def)
qed


section \<open>Segments\<close>

text \<open>Base and limit of the task state segment, from its two slots, and the ring of a segment.\<close>

definition tss_segment :: "gdt_descriptor \<Rightarrow> gdt_descriptor \<Rightarrow> u64 \<times> u32" where
  "tss_segment lo hi =
     (ucast (base_low lo) OR push_bit 16 (ucast (base_mid lo)) OR push_bit 24 (ucast (base_high lo)) OR
        push_bit 32 (ucast (limit_low hi)) OR push_bit 48 (ucast (base_low hi)),
      ucast (limit_low lo) OR push_bit 16 (ucast (granularity lo AND 0x0F)))"

definition descriptor_ring :: "gdt_descriptor \<Rightarrow> u8" where
  "descriptor_ring d = drop_bit 5 (access d) AND 3"

lemma byte_pair: "ucast (ucast y :: u8) OR push_bit 8 (ucast (ucast (drop_bit 8 y) :: u8)) = (ucast y :: u16)" for y :: u32
proof (rule bit_word_eqI)
  fix n assume "n < LENGTH(16)"
  then show "bit (ucast (ucast y :: u8) OR push_bit 8 (ucast (ucast (drop_bit 8 y) :: u8)) :: u16) n = bit (ucast y :: u16) n"
    by (cases "n < 8") (auto simp: bit_simps)
qed

lemma tss_base_bits:
  fixes x :: u64 and y :: u32
  assumes "y = ucast (drop_bit 32 x AND 0xFFFFFFFF)"
  shows "ucast (ucast (x AND 0xFFFF) :: u16) OR push_bit 16 (ucast (ucast (drop_bit 16 x AND 0xFF) :: u8)) OR
      push_bit 24 (ucast (ucast (drop_bit 24 x AND 0xFF) :: u8)) OR
      push_bit 32 (ucast (ucast y :: u16)) OR push_bit 48 (ucast (ucast (drop_bit 16 y) :: u16)) = x" (is "?a OR ?b OR ?c OR ?d OR ?e = x")
proof (rule bit_word_eqI)
  fix n assume n: "n < LENGTH(64)"
  have a: "bit ?a n \<longleftrightarrow> n < 16 \<and> bit x n" unfolding low_bits by (auto simp: bit_simps)
  have b: "bit ?b n \<longleftrightarrow> 16 \<le> n \<and> n < 24 \<and> bit x n" unfolding low_bits using n by (cases "16 \<le> n") (auto simp: bit_simps)
  have c: "bit ?c n \<longleftrightarrow> 24 \<le> n \<and> n < 32 \<and> bit x n" unfolding low_bits using n by (cases "24 \<le> n") (auto simp: bit_simps)
  have d: "bit ?d n \<longleftrightarrow> 32 \<le> n \<and> n < 48 \<and> bit x n" unfolding assms low_bits using n by (cases "32 \<le> n") (auto simp: bit_simps)
  have e: "bit ?e n \<longleftrightarrow> 48 \<le> n \<and> bit x n" unfolding assms low_bits using n by (cases "48 \<le> n") (auto simp: bit_simps)
  show "bit (?a OR ?b OR ?c OR ?d OR ?e) n = bit x n" unfolding bit_or_iff a b c d e by auto
qed

lemma tss_limit_bits:
  fixes l :: u32
  assumes "unat l < 2 ^ 20"
  shows "ucast (ucast (l AND 0xFFFF) :: u16) OR push_bit 16 (ucast (ucast (drop_bit 16 l AND 0x0F) AND 0x0F :: u8)) = l"
proof (rule bit_word_eqI)
  fix n assume n: "n < LENGTH(32)"
  have hi: "\<not> bit l k" if "20 \<le> k" for k
  proof -
    have "unat l div 2 ^ k = 0" using assms that power_increasing [of 20 k "2 :: nat"] by (intro div_less) simp
    then have "drop_bit k l = 0" by (simp add: unat_shiftr [symmetric] unat_eq_zero)
    then have "\<not> bit (drop_bit k l) 0" by simp
    then show ?thesis by (simp add: bit_drop_bit_eq)
  qed
  have m: "l AND 0xFFFF = take_bit 16 l" "drop_bit 16 l AND 0x0F = take_bit 4 (drop_bit 16 l)" "b AND 0x0F = take_bit 4 b" for b :: u8
    by (simp_all add: take_bit_eq_mask mask_eq_exp_minus_1)
  show "bit (ucast (ucast (l AND 0xFFFF) :: u16) OR push_bit 16 (ucast (ucast (drop_bit 16 l AND 0x0F) AND 0x0F :: u8)) :: u32) n = bit l n"
    unfolding m using n hi [of n] by (cases "n < 16"; cases "n < 20") (auto simp: bit_simps)
qed

lemma gdt_load_tss_decodes:
  assumes "length (gdt s) = 7" "unat limit < 2 ^ 20"
  shows "tss_segment (gdt (gdt_load_tss base limit s) ! 5) (gdt (gdt_load_tss base limit s) ! 6) = (base, limit)"
  using tss_base_bits [OF refl, of base] tss_limit_bits [OF assms(2)] assms(1)
    byte_pair [of "ucast (drop_bit 32 base AND 0xFFFFFFFF)"] byte_pair [of "drop_bit 16 (ucast (drop_bit 32 base AND 0xFFFFFFFF))"]
  by (simp add: gdt_load_tss_def tss_segment_def Let_def)


section \<open>Start-up of the processor tables\<close>

text \<open>The lines printed for the breakpoint of the self-test.\<close>

lemma breakpoint_resumes:
  fixes s :: "'a intr_state_scheme"
  assumes "fr_vector frame = 3"
  shows "\<exists>x. isr_dispatch frame s = Some (Resumes frame (s\<lparr>outs := x\<rparr>))"
proof -
  define t where "t = (let s = serial_write ''\<newline>[exception] vector='' s; s = serial_write_dec_u64 (fr_vector frame) s;
    s = serial_write '' ('' s; s = serial_write (exception_names ! unat (fr_vector frame)) s; s = serial_write '')'' s;
    s = serial_write '' error='' s; s = serial_write_hex_u64 (fr_error_code frame) s;
    s = serial_write '' rip='' s; s = serial_write_hex_u64 (fr_rip frame) s; s = serial_write ''\<newline>'' s
    in serial_write ''[exception] breakpoint handled, resuming.\<newline>'' s)"
  have "only_prints s t" unfolding t_def Let_def by (intro only_printsI)
  moreover have "isr_dispatch frame s = Some (Resumes frame t)"
    using assms unfolding isr_dispatch_def t_def Let_def by simp
  ultimately show ?thesis by (auto simp: only_prints_def)
qed

lemma tables_outs:
  "gdt_init a (s\<lparr>outs := x\<rparr>) = (gdt_init a s)\<lparr>outs := x\<rparr>"
  "gdt_load_tss b l (s\<lparr>outs := x\<rparr>) = (gdt_load_tss b l s)\<lparr>outs := x\<rparr>"
  by (simp_all add: gdt_init_def gdt_load_tss_def Let_def)

lemma idt_init_outs:
  assumes "length (idt s) = 256"
  shows "idt_init a b c (s\<lparr>outs := x\<rparr>) = (idt_init a b c s)\<lparr>outs := x\<rparr>"
  using idt_init_eq [of s] idt_init_eq [of "s\<lparr>outs := x\<rparr>"] assms by simp

lemma tss_init_prints: "\<exists>x. tss_init k s = s\<lparr>tss := null_tss\<lparr>tss_rsp0 := k, tss_iopb_offset := 104\<rparr>\<rparr>\<lparr>outs := x\<rparr>"
  unfolding tss_init_def Let_def by (simp add: print_eqs) (rule exI, rule refl)

lemma prints_ex: "\<exists>x. serial_write str s = s\<lparr>outs := x\<rparr>"
  by (simp add: serial_write_eq) (rule exI, rule refl)

lemma kernel_boot_cpu_eq:
  fixes s :: "'a intr_state_scheme"
  assumes "length (idt s) = 256" "fr_vector (int3_frame lm) = 3"
  obtains x where "kernel_boot_cpu lm s = Some (Resumes (int3_frame lm)
    ((idt_init (idt_addr lm) (isr_stub_table lm) (isr_stub_128 lm) (gdt_load_tss (tss_addr lm) 103
       ((gdt_init (gdt_addr lm) s)\<lparr>tss := null_tss\<lparr>tss_rsp0 := (kernel_end lm + 0x4000) AND NOT 0xF, tss_iopb_offset := 104\<rparr>\<rparr>)))\<lparr>outs := x\<rparr>))"
proof -
  let ?k = "(kernel_end lm + 0x4000) AND NOT 0xF"
  define s1 where "s1 = serial_write ''kernel: initializing gdt...\<newline>'' s"
  obtain x1 where s1: "s1 = s\<lparr>outs := x1\<rparr>" unfolding s1_def using prints_ex by blast
  define s2 where "s2 = serial_write ''kernel: initializing tss...\<newline>'' (serial_write ''kernel: gdt ready\<newline>'' (gdt_init (gdt_addr lm) s1))"
  have "only_prints (gdt_init (gdt_addr lm) s1) s2" unfolding s2_def by (intro only_printsI)
  then obtain x2 where s2: "s2 = (gdt_init (gdt_addr lm) s)\<lparr>outs := x2\<rparr>" by (auto simp: only_prints_def s1 tables_outs)
  obtain x3 where s3: "tss_init ?k s2 = s2\<lparr>tss := null_tss\<lparr>tss_rsp0 := ?k, tss_iopb_offset := 104\<rparr>\<rparr>\<lparr>outs := x3\<rparr>" using tss_init_prints by blast
  define g where "g = gdt_load_tss (tss_addr lm) 103 ((gdt_init (gdt_addr lm) s)\<lparr>tss := null_tss\<lparr>tss_rsp0 := ?k, tss_iopb_offset := 104\<rparr>\<rparr>)"
  define s4 where "s4 = serial_write ''kernel: initializing idt...\<newline>'' (serial_write ''kernel: tss ready\<newline>''
    (gdt_load_tss (tss_addr lm) 103 (tss_init ?k s2)))"
  have "gdt_load_tss (tss_addr lm) 103 (tss_init ?k s2) = g\<lparr>outs := x3\<rparr>"
    unfolding s3 tables_outs unfolding s2 g_def tables_outs(2) [symmetric] by simp
  then have "only_prints g s4" unfolding s4_def by (intro only_printsI) (auto simp: only_prints_def)
  then obtain x4 where s4: "s4 = g\<lparr>outs := x4\<rparr>" by (auto simp: only_prints_def)
  have lg: "length (idt g) = 256" using assms(1) by (simp add: g_def gdt_load_tss_def gdt_init_def Let_def)
  define i where "i = idt_init (idt_addr lm) (isr_stub_table lm) (isr_stub_128 lm) g"
  define s5 where "s5 = serial_write ''kernel: triggering int3 self-test\<newline>'' (serial_write ''kernel: idt ready\<newline>''
    (idt_init (idt_addr lm) (isr_stub_table lm) (isr_stub_128 lm) s4))"
  have "only_prints i s5" unfolding s5_def s4 idt_init_outs [OF lg] i_def by (intro only_printsI) (auto simp: only_prints_def)
  then obtain x5 where s5: "s5 = i\<lparr>outs := x5\<rparr>" by (auto simp: only_prints_def)
  have "kernel_boot_cpu lm s = isr_dispatch (int3_frame lm) s5"
    unfolding kernel_boot_cpu_def Let_def s5_def s4_def s2_def s1_def by simp
  with breakpoint_resumes [OF assms(2), of s5] show thesis using that by (auto simp: s5 i_def g_def)
qed

text \<open>
  C11 After the processor's tables are set up the self-test breakpoint resumes, and the
  tables say what they should. Each of the first 48 vectors enters its stub and vector 128
  the system-call stub, all in the kernel's code segment; vector 128 is the only one a
  program in ring 3 may raise itself, and every other vector is absent. The task register
  selects a segment that is exactly the task state segment, whose ring-0 stack is the one
  the kernel chose; and the code and data segments are of rings 0 and 3.
\<close>

theorem kernel_boot_cpu_tables:
  fixes s :: "'a intr_state_scheme"
  assumes "length (idt s) = 256" "fr_vector (int3_frame lm) = 3"
  shows "\<exists>s'. kernel_boot_cpu lm s = Some (Resumes (int3_frame lm) s') \<and>
    (\<forall>v<256. gate (idt s' ! v) =
       (if v < 48 then Some (isr_stub_table lm ! v, GDT_KERNEL_CODE, 0)
        else if v = 128 then Some (isr_stub_128 lm, GDT_KERNEL_CODE, 3) else None)) \<and>
    task_register s' = GDT_TSS \<and> tss_segment (gdt s' ! 5) (gdt s' ! 6) = (tss_addr lm, 103) \<and>
    tss_rsp0 (tss s') = (kernel_end lm + 0x4000) AND NOT 0xF \<and>
    map descriptor_ring (take 4 (tl (gdt s'))) = [0, 0, 3, 3]"
proof -
  obtain x where x: "kernel_boot_cpu lm s = Some (Resumes (int3_frame lm)
    ((idt_init (idt_addr lm) (isr_stub_table lm) (isr_stub_128 lm) (gdt_load_tss (tss_addr lm) 103
       ((gdt_init (gdt_addr lm) s)\<lparr>tss := null_tss\<lparr>tss_rsp0 := (kernel_end lm + 0x4000) AND NOT 0xF, tss_iopb_offset := 104\<rparr>\<rparr>)))\<lparr>outs := x\<rparr>))"
    by (rule kernel_boot_cpu_eq [OF assms])
  define g where "g = gdt_load_tss (tss_addr lm) 103
       ((gdt_init (gdt_addr lm) s)\<lparr>tss := null_tss\<lparr>tss_rsp0 := (kernel_end lm + 0x4000) AND NOT 0xF, tss_iopb_offset := 104\<rparr>\<rparr>)"
  have g: "idt g = idt s" "task_register g = GDT_TSS" "tss_rsp0 (tss g) = (kernel_end lm + 0x4000) AND NOT 0xF"
    "map descriptor_ring (take 4 (tl (gdt g))) = [0, 0, 3, 3]"
    by (simp_all add: g_def gdt_load_tss_def gdt_init_def Let_def descriptor_ring_def make_descriptor_def)
  have ts: "tss_segment (gdt g ! 5) (gdt g ! 6) = (tss_addr lm, 103)"
    unfolding g_def by (rule gdt_load_tss_decodes) (simp_all add: gdt_init_def Let_def)
  let ?l = "(map (\<lambda>k. make_gate (isr_stub_table lm ! k) 0x8E) [0..<48] @ replicate 208 null_idt_entry)[128 := make_gate (isr_stub_128 lm) 0xEF]"
  have gates: "gate (?l ! v) = (if v < 48 then Some (isr_stub_table lm ! v, GDT_KERNEL_CODE, 0)
        else if v = 128 then Some (isr_stub_128 lm, GDT_KERNEL_CODE, 3) else None)" if "v < 256" for v
    using that by (auto simp: nth_list_update nth_append gate_make gate_null bit_numeral_word_iff)
  show ?thesis
    unfolding x g_def [symmetric] using idt_init_eq [of g "idt_addr lm" "isr_stub_table lm" "isr_stub_128 lm"] assms(1) g ts gates
    by (intro exI conjI) (rule refl, simp_all)
qed


section \<open>Start-up of memory\<close>

lemma vmm_started_low:
  assumes st: "vmm_started s s'" and room: "6 \<le> card {f \<in> free_frames s. f < 512}"
  shows "table_frames s' \<subseteq> {..<512}" "card {f \<in> free_frames s. f < 512} \<le> card {f \<in> free_frames s'. f < 512} + 5"
proof -
  let ?T = "free_frames s - free_frames s'" and ?L = "{f \<in> free_frames s. f < 512}"
  have "card ?T = card (free_frames s) - card (free_frames s')" using st by (intro card_Diff_subset) (auto simp: vmm_started_def)
  moreover have "card (free_frames s) \<le> card (free_frames s') + 5" using st unfolding vmm_started_def by blast
  ultimately have c: "card ?T \<le> 5" by linarith
  have "?T \<subseteq> {..<512}"
  proof (rule ccontr)
    assume "\<not> ?T \<subseteq> {..<512}"
    then obtain f where f: "f \<in> ?T" "\<not> f < 512" by blast
    have "f < g" if "g \<in> free_frames s'" for g using st f(1) that unfolding vmm_started_def by blast
    then have "?L \<subseteq> ?T" using f(2) by fastforce
    then have "card ?L \<le> card ?T" by (intro card_mono) auto
    then show False using c room by simp
  qed
  then show "table_frames s' \<subseteq> {..<512}" using st unfolding vmm_started_def by blast
  have "card ?L \<le> card ({f \<in> free_frames s'. f < 512} \<union> ?T)" by (rule card_mono) auto
  also have "\<dots> \<le> card {f \<in> free_frames s'. f < 512} + card ?T" by (rule card_Un_le)
  finally show "card ?L \<le> card {f \<in> free_frames s'. f < 512} + 5" using c by simp
qed

lemma print_mmap_prints: "\<exists>x. multiboot2_print_mmap s = s\<lparr>outs := x\<rparr>"
proof -
  have "only_prints s (multiboot2_print_mmap s)"
    unfolding multiboot2_print_mmap_def Let_def
    by (rule word_for_keeps [where P = "only_prints s"]) (intro only_printsI; assumption)+
  then show ?thesis by (simp add: only_prints_def)
qed

text \<open>The frames the map offers, without low memory and the kernel's own.\<close>

definition boot_frames :: "link_map \<Rightarrow> mmap_region list \<Rightarrow> nat set" where
  "boot_frames lm rs = (\<Union>r\<in>set rs. region_frames r) - {..<256} - kernel_frames (kernel_start lm) (kernel_end lm)"

text \<open>A memory map the frame allocator can use: regions in range and apart, with frames below 2 MiB for tables and heap.\<close>

definition boot_map_ok :: "link_map \<Rightarrow> mmap_region list \<Rightarrow> bool" where
  "boot_map_ok lm rs \<longleftrightarrow> (\<forall>r\<in>set rs. region_ok r) \<and>
     (\<forall>j<length rs. \<forall>i<j. region_frames (rs ! i) \<inter> region_frames (rs ! j) = {}) \<and>
     unat (kernel_start lm) \<le> unat (kernel_end lm) \<and> unat (kernel_end lm) + 4096 \<le> 2 ^ 44 \<and>
     69 \<le> card {f \<in> boot_frames lm rs. f < 512}"

lemma boot_pmm_vmm:
  fixes s :: "'a kheap_state_scheme"
  assumes wf: "pmm_wf s" and rs: "take (unat n) regs = rs" "unat n \<le> length regs" and ok: "boot_map_ok lm rs"
  defines "p \<equiv> pmm_init (kernel_start lm) (kernel_end lm) regs n s"
  shows "vmm_started (p\<lparr>outs := x\<rparr>) (vmm_init (p\<lparr>outs := x\<rparr>))" "free_frames p = boot_frames lm rs"
    "heap_inv [(65536, True)] (kheap_init ((vmm_init (p\<lparr>outs := x\<rparr>))\<lparr>outs := y\<rparr>))"
    "cr3 (kheap_init ((vmm_init (p\<lparr>outs := x\<rparr>))\<lparr>outs := y\<rparr>)) = pml4 (kheap_init ((vmm_init (p\<lparr>outs := x\<rparr>))\<lparr>outs := y\<rparr>))"
proof -
  have nth: "regs ! i = rs ! i" if "i < unat n" for i using rs that by auto
  have len: "length rs = unat n" using rs by auto
  have rok: "region_ok (regs ! i)" if "i < unat n" for i using ok nth [OF that] that len by (simp add: boot_map_ok_def)
  have k: "unat (kernel_start lm) \<le> unat (kernel_end lm)" "unat (kernel_end lm) + 4096 \<le> 2 ^ 44"
    using ok by (simp_all add: boot_map_ok_def)
  have "region_frames (regs ! i) \<inter> region_frames (regs ! j) = {}" if "i < j" "j < unat n" for i j
    using ok that nth len by (simp add: boot_map_ok_def)
  from pmm_init_inv_lemma [OF wf rok k this] have inv: "pmm_inv p" by (simp add: p_def)
  have "set rs = (\<lambda>i. regs ! i) ` {..<unat n}" using nth len by (auto simp: set_conv_nth image_def)
  then have "(\<Union>i<unat n. region_frames (regs ! i)) = (\<Union>r\<in>set rs. region_frames r)" by simp
  then show free: "free_frames p = boot_frames lm rs"
    using pmm_init_facts(2) [OF wf rok k] by (simp add: p_def boot_frames_def)
  let ?p = "p\<lparr>outs := x\<rparr>" and ?v = "vmm_init (p\<lparr>outs := x\<rparr>)"
  have low: "69 \<le> card {f \<in> free_frames ?p. f < 512}" using ok by (simp add: free boot_map_ok_def)
  have "card {f \<in> free_frames ?p. f < 512} \<le> card (free_frames ?p)" by (rule card_mono) auto
  then have "5 \<le> card (free_frames ?p)" using low by linarith
  then show st: "vmm_started ?p ?v" using inv by (intro vmm_init_started) simp_all
  have "6 \<le> card {f \<in> free_frames ?p. f < 512}" using low by simp
  note L = vmm_started_low [OF st this]
  have room: "64 \<le> card {f \<in> free_frames (?v\<lparr>outs := y\<rparr>). f < 512}" using L(2) low by simp
  have v: "vmm_ok (?v\<lparr>outs := y\<rparr>)" "table_frames (?v\<lparr>outs := y\<rparr>) \<subseteq> {..<512}"
    using st L(1) by (simp_all add: vmm_started_def)
  note K = kheap_init_ok [OF v room]
  show "heap_inv [(65536, True)] (kheap_init (?v\<lparr>outs := y\<rparr>))" by (rule K(1))
  have "cr3 ?v = pml4 ?v" using st by (simp add: vmm_started_def)
  then show "cr3 (kheap_init (?v\<lparr>outs := y\<rparr>)) = pml4 (kheap_init (?v\<lparr>outs := y\<rparr>))" using K(4) by auto
qed

lemma kernel_boot_memory_ok:
  fixes s :: "'a intr_state_scheme"
  assumes tags: "tag_list (mem s) (addr + 8) ts" and arr: "length (regions s) = 32" and wf: "pmm_wf s"
    and ok: "boot_map_ok lm (take 32 (concat (map (tag_entries (mem s)) ts)))"
  shows "\<exists>s'. kernel_boot_memory lm addr s = Some s' \<and> heap_inv [(65536, True)] s' \<and> cr3 s' = pml4 s'"
proof -
  define s1 where "s1 = serial_write ''kernel: parsing multiboot2 memory map...\<newline>'' (serial_write ''kernel: hello from tuna os!\<newline>'' (serial_init s))"
  have "only_prints s (serial_init s)" by (auto simp: only_prints_def serial_init_def outb_def)
  then have "only_prints s s1" unfolding s1_def by (intro only_printsI)
  then obtain x1 where s1: "s1 = s\<lparr>outs := x1\<rparr>" by (auto simp: only_prints_def)
  have tags1: "tag_list (mem s1) (addr + 8) ts" "length (regions s1) = 32" using tags arr by (simp_all add: s1)
  from mmap_parse [OF tags1] obtain t where t: "multiboot2_parse_mmap addr s1 = Some t"
    "mmap_used t = take 32 (concat (map (tag_entries (mem s)) ts))" "mmap_wf t"
    "t = s1\<lparr>regions := regions t, region_count := region_count t\<rparr>" by (auto simp: s1)
  define t1 where "t1 = serial_write ''kernel: initializing pmm...\<newline>'' (multiboot2_print_mmap t)"
  have "only_prints t (multiboot2_print_mmap t)" using print_mmap_prints by (auto simp: only_prints_def)
  then have "only_prints t t1" unfolding t1_def by (intro only_printsI)
  then obtain x2 where t1: "t1 = t\<lparr>outs := x2\<rparr>" by (auto simp: only_prints_def)
  have bm: "bitmap t1 = bitmap s" unfolding t1 by (subst t(4)) (simp add: s1)
  then have wf1: "pmm_wf t1" using wf by (simp add: pmm_wf_def)
  have rg: "take (unat (region_count t1)) (regions t1) = mmap_used t" "unat (region_count t1) \<le> length (regions t1)"
    using t(3) by (simp_all add: t1 mmap_used_def mmap_wf_def word_le_nat_alt)
  let ?p = "pmm_init (kernel_start lm) (kernel_end lm) (regions t1) (region_count t1) t1"
  define p1 where "p1 = serial_write ''kernel: initializing vmm...\<newline>'' (serial_write ''kernel: pmm ready\<newline>'' ?p)"
  have "only_prints ?p p1" unfolding p1_def by (intro only_printsI)
  then obtain x3 where p1: "p1 = ?p\<lparr>outs := x3\<rparr>" by (auto simp: only_prints_def)
  define v1 where "v1 = serial_write ''kernel: initializing kheap...\<newline>'' (serial_write ''kernel: vmm ready\<newline>'' (vmm_init p1))"
  have "only_prints (vmm_init p1) v1" unfolding v1_def by (intro only_printsI)
  then obtain x4 where v1: "v1 = (vmm_init p1)\<lparr>outs := x4\<rparr>" by (auto simp: only_prints_def)
  note B = boot_pmm_vmm [OF wf1 rg ok [folded t(2)]]
  have e: "kernel_boot_memory lm addr s = Some (kheap_init v1)"
    using t(1) unfolding kernel_boot_memory_def Let_def v1_def p1_def t1_def s1_def by (simp add: multiboot2_get_mmap_def)
  have "heap_inv [(65536, True)] (kheap_init v1)" unfolding v1 p1 by (rule B(3))
  moreover have "cr3 (kheap_init v1) = pml4 (kheap_init v1)" unfolding v1 p1 by (rule B(4))
  ultimately show ?thesis using e by blast
qed


section \<open>The self-test of the heap\<close>

lemma kmalloc_step:
  fixes s :: "'a kheap_state_scheme"
  assumes "heap_inv bs s" "sz \<noteq> 0" "unat sz \<le> 2 ^ 63" "first_fit (need_bytes (unat sz)) 0x200000 bs = Some (b, bs')"
  shows "\<exists>s'. kmalloc sz s = Some (of_nat (b + 16), s') \<and> heap_inv bs' s'"
proof -
  have "heap_room (need_bytes (unat sz)) bs s" using assms(4) by (simp add: heap_room_def)
  from kmalloc_outcome [OF assms(1-3) this] show ?thesis using assms(4) by (auto simp: heap_alloc_def malloc_done_def)
qed

lemma span_prefix:
  assumes "xs @ x # ys = xs' @ x' # ys'" "span xs = span xs'" "\<forall>(n, f)\<in>set (xs @ x # ys). 0 < n"
  shows "xs = xs'"
  using assms
proof (induction xs arbitrary: xs')
  case Nil
  then show ?case by (cases xs') (auto simp: span_def)
next
  case (Cons y xs)
  then show ?case by (cases xs') (auto simp: span_def)
qed

lemma kfree_step:
  fixes s :: "'a kheap_state_scheme"
  assumes inv: "heap_inv (xs @ (n, False) # ys) s" and pos: "\<forall>(n, f)\<in>set (xs @ (n, False) # ys). 0 < n"
  shows "\<exists>m. kfree (of_nat (0x200000 + span xs + 16)) s = Some (s\<lparr>mem := m\<rparr>) \<and>
    heap_inv (coalesce (xs @ (n, True) # ys)) (s\<lparr>mem := m\<rparr>)"
proof -
  have "(0x200000 + span xs + 16, n - 16) \<in> live 0x200000 (xs @ (n, False) # ys)" by (simp add: live_append)
  then show ?thesis
  proof (rule heap_kfree [OF inv])
    fix m xs' n' ys'
    assume m: "kfree (of_nat (0x200000 + span xs + 16)) s = Some (s\<lparr>mem := m\<rparr>)"
      "xs @ (n, False) # ys = xs' @ (n', False) # ys'" "0x200000 + span xs + 16 = 0x200000 + span xs' + 16"
      "heap_inv (coalesce (xs' @ (n', True) # ys')) (s\<lparr>mem := m\<rparr>)"
    have "xs = xs'" by (rule span_prefix [OF m(2) _ pos]) (use m(3) in simp)
    then show ?thesis using m by auto
  qed
qed

lemma payload_put:
  fixes s :: "'a kheap_state_scheme"
  assumes inv: "heap_inv bs s" and p: "(p, l) \<in> live 0x200000 bs" "8 \<le> l"
  shows "heap_inv bs (put64 (of_nat p) v s)"
proof -
  have ok: "heap_ok s" and pl: "(p, l) \<in> payloads s" using heap_inv_ok [OF inv] p(1) by simp_all
  have b: "p + l \<le> 0x1200000" using payload_bounds [OF ok pl] by simp
  have u: "unat (of_nat p :: u64) = p" using b by (intro unat_of_nat_small) simp
  have "\<forall>x. unat x < p \<or> p + l \<le> unat x \<longrightarrow> store64 (mem s) (of_nat p) v x = mem s x"
    by (intro allI impI store_outside_nat) (use b u p(2) in auto)
  note W = payload_write [OF ok pl this]
  have "heap_blocks (put64 (of_nat p) v s) = bs" using W(3) heap_inv_blocks [OF inv] by (simp add: put64_def)
  then show ?thesis using W(1) by (simp add: heap_ok_def put64_def)
qed

lemma merge_eval: "coalesce [(48, True), (65488, True)] = [(65536, True)]"
  "coalesce [(48, False), (32, True), (144, True), (65312, True)] = [(48, False), (65488, True)]"
  "coalesce [(80, True), (144, False), (65312, True)] = [(80, True), (144, False), (65312, True)]"
  by simp_all

lemma self_test_passes:
  fixes s :: "'a kheap_state_scheme"
  assumes "heap_inv [(65536, True)] s"
  shows "\<exists>t. kmalloc_self_test s = Some (serial_write ''  self-test passed\<newline>'' t) \<and> heap_inv [(65536, True)] t"
proof -
  have fit: "first_fit (need_bytes 64) 0x200000 [(65536, True)] = Some (0x200000, [(80, False), (65456, True)])"
    "first_fit (need_bytes 128) 0x200000 [(80, False), (65456, True)] = Some (0x200050, [(80, False), (144, False), (65312, True)])"
    "first_fit (need_bytes 32) 0x200000 [(80, True), (144, False), (65312, True)] =
       Some (0x200000, [(48, False), (32, True), (144, False), (65312, True)])"
    by (simp_all add: need_bytes_def take_block_def)
  define s0 where "s0 = serial_write ''kernel: kmalloc self-test...\<newline>'' s"
  have i0: "heap_inv [(65536, True)] s0" unfolding s0_def serial_write_eq using assms by simp
  obtain s1 where s1: "kmalloc 64 s0 = Some (0x200010, s1)" "heap_inv [(80, False), (65456, True)] s1"
    using kmalloc_step [OF i0, of 64] fit(1) by auto
  obtain s2 where s2: "kmalloc 128 s1 = Some (0x200060, s2)" "heap_inv [(80, False), (144, False), (65312, True)] s2"
    using kmalloc_step [OF s1(2), of 128] fit(2) by auto
  define s3 where "s3 = put64 0x200060 0xCAFEBABE (put64 0x200010 0xDEADBEEF s2)"
  have "heap_inv [(80, False), (144, False), (65312, True)] (put64 0x200010 0xDEADBEEF s2)"
    using payload_put [OF s2(2), of "0x200010" 64] by simp
  then have i3: "heap_inv [(80, False), (144, False), (65312, True)] s3"
    using payload_put [of _ "put64 0x200010 0xDEADBEEF s2" "0x200060" 128] by (simp add: s3_def)
  define s4 where "s4 = serial_write ''\<newline>'' (serial_write_hex_u64 0x200060 (serial_write '' alloc b='' (serial_write_hex_u64 0x200010 (serial_write ''  alloc a='' s3))))"
  have i4: "heap_inv ([] @ (80, False) # [(144, False), (65312, True)]) s4" unfolding s4_def print_eqs using i3 by simp
  obtain m5 where s5: "kfree 0x200010 s4 = Some (s4\<lparr>mem := m5\<rparr>)" "heap_inv [(80, True), (144, False), (65312, True)] (s4\<lparr>mem := m5\<rparr>)"
    using kfree_step [OF i4] merge_eval(3) by (auto simp: span_def)
  obtain s6 where s6: "kmalloc 32 (s4\<lparr>mem := m5\<rparr>) = Some (0x200010, s6)" "heap_inv [(48, False), (32, True), (144, False), (65312, True)] s6"
    using kmalloc_step [OF s5(2), of 32] fit(3) by auto
  define s7 where "s7 = serial_write ''\<newline>'' (serial_write_hex_u64 0x200010 (serial_write ''  freed a, alloc c='' s6))"
  have i7: "heap_inv ([(48, False), (32, True)] @ (144, False) # [(65312, True)]) s7" unfolding s7_def print_eqs using s6(2) by simp
  obtain m8 where s8: "kfree 0x200060 s7 = Some (s7\<lparr>mem := m8\<rparr>)" "heap_inv ([] @ (48, False) # [(65488, True)]) (s7\<lparr>mem := m8\<rparr>)"
    using kfree_step [OF i7] merge_eval(2) by (auto simp: span_def)
  obtain m9 where s9: "kfree 0x200010 (s7\<lparr>mem := m8\<rparr>) = Some (s7\<lparr>mem := m8\<rparr>\<lparr>mem := m9\<rparr>)" "heap_inv [(65536, True)] (s7\<lparr>mem := m8\<rparr>\<lparr>mem := m9\<rparr>)"
    using kfree_step [OF s8(2)] merge_eval(1) by (auto simp: span_def)
  have "kmalloc_self_test s = Some (serial_write ''  self-test passed\<newline>'' (s7\<lparr>mem := m8\<rparr>\<lparr>mem := m9\<rparr>))"
    unfolding kmalloc_self_test_def Let_def s0_def [symmetric]
    by (simp only: s1(1) s2(1) s5(1) s6(1) s8(1) s9(1) bind.bind_lunit prod.case s3_def [symmetric] s4_def [symmetric] s7_def [symmetric]) simp
  then show ?thesis using s9(2) by blast
qed


section \<open>A machine to start\<close>

definition link_sample :: link_map where
  "link_sample = \<lparr>kernel_start = 0x100000, kernel_end = 0x130000, gdt_addr = 0x120000, tss_addr = 0x121000, idt_addr = 0x122000,
     isr_stub_table = replicate 48 0x101000, isr_stub_128 = 0x102000, hello_elf_start = 0x110000, hello_elf_end = 0x112000,
     shell_elf_start = 0x112000, shell_elf_end = 0x115000, int3_frame = null_frame\<lparr>fr_vector := 3\<rparr>\<rparr>"

definition cold_intr :: intr_state where
  "cold_intr = (sys_state.extend cold_sys
     \<lparr>idt = replicate 256 null_idt_entry, idtr = (0, 0), irq_handlers = replicate 16 None, tick_count = 0, configured_frequency = 0\<rparr>)
     \<lparr>mem := sample_mmap, regions := replicate 32 boot_region\<rparr>"

lemma cold_intr_facts:
  "tag_list (mem cold_intr) (0x9000 + 8) [0x9008]" "length (regions cold_intr) = 32" "pmm_wf cold_intr"
  "concat (map (tag_entries (mem cold_intr)) [0x9008]) = [boot_region]" "length (idt cold_intr) = 256"
  using sample_tags
  by (simp_all add: cold_intr_def cold_sys_def cold_task_def cold_kheap_def cold_vmm_def cold_pmm_def pmm_wf_def pmm_state.defs
    vmm_state.defs kheap_state.defs task_state.defs ramfs_state.defs desc_state.defs sys_state.defs intr_state.defs boot_region_def)

lemma link_sample_map: "boot_map_ok link_sample [boot_region]"
proof -
  have "boot_frames link_sample [boot_region] = {304..<32768}"
    by (auto simp: boot_frames_def link_sample_def region_frames_boot kernel_frames_boot)
  then have "{f \<in> boot_frames link_sample [boot_region]. f < 512} = {304..<512}" by auto
  then show ?thesis by (simp add: boot_map_ok_def region_ok_boot) (simp add: link_sample_def)
qed

theorem kernel_boot_cpu_tables_witness:
  "\<exists>s'. kernel_boot_cpu link_sample cold_intr = Some (Resumes (null_frame\<lparr>fr_vector := 3\<rparr>) s') \<and>
     gate (idt s' ! 128) = Some (0x102000, 8, 3) \<and> gate (idt s' ! 14) = Some (0x101000, 8, 0) \<and>
     tss_segment (gdt s' ! 5) (gdt s' ! 6) = (0x121000, 103)"
proof -
  have "fr_vector (int3_frame link_sample) = 3" by (simp add: link_sample_def)
  from kernel_boot_cpu_tables [OF cold_intr_facts(5) this] obtain s' where
    s': "kernel_boot_cpu link_sample cold_intr = Some (Resumes (int3_frame link_sample) s')"
    "\<forall>v<256. gate (idt s' ! v) = (if v < 48 then Some (isr_stub_table link_sample ! v, GDT_KERNEL_CODE, 0)
        else if v = 128 then Some (isr_stub_128 link_sample, GDT_KERNEL_CODE, 3) else None)"
    "tss_segment (gdt s' ! 5) (gdt s' ! 6) = (tss_addr link_sample, 103)" by blast
  show ?thesis using s'(1,3) s'(2) [rule_format, of 128] s'(2) [rule_format, of 14] by (simp add: link_sample_def)
qed


end
