(* ===== verification/Shell.thy ===== *)
theory Shell
  imports Prelude
begin
text \<open>
  The programs of \<open>user/\<close>: the interactive shell, \<open>shell.c\<close>, and the test program
  \<open>hello.c\<close>. A program is what it asks of the kernel; what \<open>read_char\<close> returns is the
  list of characters that arrive on the serial line.
\<close>

section \<open>Data\<close>

datatype user_call = Call_write string | Call_listfiles | Call_exec string | Call_exit

abbreviation (input) LINE_MAX :: u64 where "LINE_MAX \<equiv> 128"

text \<open>The array \<open>line\<close>, the index \<open>pos\<close> and the calls made so far.\<close>

record shell_state =
  line :: "char list"
  pos :: u64
  calls :: "user_call list"

definition write_str :: "string \<Rightarrow> shell_state \<Rightarrow> shell_state" where
  "write_str str s = s\<lparr>calls := calls s @ [Call_write str]\<rparr>"

definition write_char :: "char \<Rightarrow> shell_state \<Rightarrow> shell_state" where
  "write_char c s = s\<lparr>calls := calls s @ [Call_write [c]]\<rparr>"

text \<open>\<open>str_eq\<close> and \<open>str_len\<close> on arrays that hold a terminated string.\<close>

fun shell_str_eq :: "char list \<Rightarrow> char list \<Rightarrow> bool" where
  "shell_str_eq (a # as) (b # bs) =
     (if a \<noteq> CHR 0x00 \<and> b \<noteq> CHR 0x00 then if a \<noteq> b then False else shell_str_eq as bs else a = b)"
| "shell_str_eq _ _ = False"

fun str_len :: "char list \<Rightarrow> nat" where
  "str_len [] = 0"
| "str_len (c # cs) = (if c = CHR 0x00 then 0 else Suc (str_len cs))"


section \<open>The shell\<close>

text \<open>One character of the inner loop of \<open>_start\<close>; \<open>True\<close> when the line is complete.\<close>

definition shell_key :: "char \<Rightarrow> shell_state \<Rightarrow> bool \<times> shell_state" where
  "shell_key c s =
     (if c = CHR 0x0D \<or> c = CHR 0x0A then (True, write_str [CHR 0x0A] s)
      else if c = CHR 0x7F \<or> c = CHR 0x08
      then (False, if pos s > 0 then write_str [CHR 0x08, CHR '' '', CHR 0x08] (s\<lparr>pos := pos s - 1\<rparr>) else s)
      else (False, if pos s < LINE_MAX - 1
                   then write_char c (s\<lparr>line := (line s)[unat (pos s) := c], pos := pos s + 1\<rparr>)
                   else s))"

text \<open>The inner loop, with the characters that are left; \<open>None\<close> while it waits for more.\<close>

fun shell_read_line :: "char list \<Rightarrow> shell_state \<Rightarrow> (shell_state \<times> char list) option" where
  "shell_read_line [] s = None"
| "shell_read_line (c # cs) s =
     (let (complete, s) = shell_key c s
      in if complete then Some (s, cs) else shell_read_line cs s)"

text \<open>
  One round of the outer loop. \<open>exec\<close> tells whether the kernel finds and runs the program
  of that name; \<open>sys_exit\<close> does not return when the shell calls it.
\<close>

definition shell_round ::
  "(string \<Rightarrow> bool) \<Rightarrow> char list \<Rightarrow> shell_state \<Rightarrow> (shell_state \<times> char list) option" where
  "shell_round exec input s =
     (let s = (write_str ''tuna> '' s)\<lparr>pos := 0\<rparr>
      in case shell_read_line input s of
           None \<Rightarrow> None
         | Some (s, rest) \<Rightarrow>
             (let s = s\<lparr>line := (line s)[unat (pos s) := CHR 0x00]\<rparr>
              in Some (if pos s = 0 then s
                       else if shell_str_eq (line s) (''ls'' @ [CHR 0x00])
                       then s\<lparr>calls := calls s @ [Call_listfiles]\<rparr>
                       else if shell_str_eq (line s) (''exit'' @ [CHR 0x00])
                       then s\<lparr>calls := calls s @ [Call_exit]\<rparr>
                       else let name = take (str_len (line s)) (line s);
                                s = s\<lparr>calls := calls s @ [Call_exec name]\<rparr>
                            in if exec name then s
                               else write_str [CHR 0x0A] (write_str name (write_str ''unknown command: '' s)),
                       rest)))"


section \<open>The test program\<close>

definition hello_start :: "user_call list" where
  "hello_start = [Call_write (take 16 (''Hello from ELF!'' @ [CHR 0x0A])), Call_exit]"


section \<open>The line editor\<close>

text \<open>The specification: what the user has typed, as a list that grows and shrinks at its end.\<close>

definition edit :: "string \<Rightarrow> char \<Rightarrow> string" where
  "edit typed c =
     (if c = CHR 0x7F \<or> c = CHR 0x08 then butlast typed
      else if length typed < 127 then typed @ [c] else typed)"

definition is_newline :: "char \<Rightarrow> bool" where
  "is_newline c \<longleftrightarrow> c = CHR 0x0D \<or> c = CHR 0x0A"

definition holds_line :: "string \<Rightarrow> shell_state \<Rightarrow> bool" where
  "holds_line typed s \<longleftrightarrow> length (line s) = 128 \<and> unat (pos s) = length typed \<and> length typed \<le> 127 \<and>
     take (length typed) (line s) = typed"

lemma shell_key_newline:
  "is_newline c \<Longrightarrow> shell_key c s = (True, write_str [CHR 0x0A] s)"
  by (auto simp: shell_key_def is_newline_def)

lemma shell_key_other:
  assumes "\<not> is_newline c" "holds_line typed s"
  shows "\<exists>s'. shell_key c s = (False, s') \<and> holds_line (edit typed c) s'"
proof -
  have l: "length (line s) = 128" and p: "unat (pos s) = length typed" and b: "length typed \<le> 127"
    and t: "take (length typed) (line s) = typed"
    using assms(2) by (simp_all add: holds_line_def)
  show ?thesis
  proof (cases "c = CHR 0x7F \<or> c = CHR 0x08")
    case True
    show ?thesis
    proof (cases "pos s > 0")
      case pos: True
      then have "pos s \<noteq> 0" by auto
      then have "typed \<noteq> []" "unat (pos s - 1) = length typed - 1"
        using p unat_minus_one [of "pos s"] by (auto simp: word_unat_eq_iff)
      moreover have "take (length typed - 1) (line s) = butlast typed"
        using t by (metis butlast_take le_less_linear nat_le_linear take_all_iff butlast_conv_take)
      ultimately have "holds_line (butlast typed) (write_str [CHR 0x08, CHR '' '', CHR 0x08] (s\<lparr>pos := pos s - 1\<rparr>))"
        using l b by (simp add: holds_line_def write_str_def)
      then show ?thesis using True pos assms(1) by (auto simp: shell_key_def edit_def is_newline_def)
    next
      case False
      then have "typed = []" using p by (simp add: word_less_nat_alt)
      then show ?thesis using True False assms by (auto simp: shell_key_def edit_def is_newline_def)
    qed
  next
    case False
    have lt: "pos s < LINE_MAX - 1 \<longleftrightarrow> length typed < 127" using p by (simp add: word_less_nat_alt)
    show ?thesis
    proof (cases "length typed < 127")
      case True
      have "unat (pos s + 1) = Suc (length typed)" using p True by (simp add: unat_add_small)
      moreover have "take (Suc (length typed)) ((line s)[length typed := c]) = typed @ [c]"
        using l t True by (simp add: take_Suc_conv_app_nth)
      ultimately have "holds_line (typed @ [c])
          (write_char c (s\<lparr>line := (line s)[unat (pos s) := c], pos := pos s + 1\<rparr>))"
        using l p True by (simp add: holds_line_def write_char_def)
      then show ?thesis using False True lt assms(1) by (auto simp: shell_key_def edit_def is_newline_def)
    next
      case full: False
      then show ?thesis using False lt assms by (auto simp: shell_key_def edit_def is_newline_def)
    qed
  qed
qed

definition request :: "user_call \<Rightarrow> bool" where
  "request c \<longleftrightarrow> (case c of Call_write _ \<Rightarrow> False | _ \<Rightarrow> True)"

lemma shell_key_requests: "filter request (calls (snd (shell_key c s))) = filter request (calls s)"
  by (simp add: shell_key_def write_str_def write_char_def request_def)

lemma shell_read_line_edit:
  assumes "holds_line typed s" "\<forall>c\<in>set keys. \<not> is_newline c" "is_newline nl"
  shows "\<exists>s'. shell_read_line (keys @ nl # rest) s = Some (s', rest) \<and> holds_line (foldl edit typed keys) s' \<and>
    filter request (calls s') = filter request (calls s)"
  using assms(1,2)
proof (induction keys arbitrary: s typed)
  case Nil
  then show ?case using assms(3) by (simp add: shell_key_newline holds_line_def write_str_def request_def)
next
  case (Cons c keys)
  from shell_key_other [of c typed s] Cons.prems obtain s' where
    s': "shell_key c s = (False, s')" "holds_line (edit typed c) s'" by auto
  have "filter request (calls s') = filter request (calls s)" using shell_key_requests [of c s] s'(1) by simp
  then show ?case using Cons.IH [OF s'(2)] Cons.prems(2) by (auto simp: s'(1))
qed

lemma shell_str_eq_cstring:
  "CHR 0x00 \<notin> set ys \<Longrightarrow>
     shell_str_eq (xs @ CHR 0x00 # r) (ys @ [CHR 0x00]) \<longleftrightarrow> takeWhile (\<lambda>c. c \<noteq> CHR 0x00) xs = ys"
proof (induction xs arbitrary: ys)
  case Nil
  then show ?case by (cases ys) auto
next
  case (Cons x xs)
  then show ?case by (cases ys) auto
qed

lemma str_len_cstring: "take (str_len (xs @ CHR 0x00 # r)) (xs @ CHR 0x00 # r) = takeWhile (\<lambda>c. c \<noteq> CHR 0x00) xs"
  by (induction xs) auto

text \<open>What the shell asks the kernel for when \<open>typed\<close> is entered.\<close>

definition command :: "string \<Rightarrow> user_call list" where
  "command typed =
     (let word = takeWhile (\<lambda>c. c \<noteq> CHR 0x00) typed
      in if typed = [] then []
         else if word = ''ls'' then [Call_listfiles]
         else if word = ''exit'' then [Call_exit]
         else [Call_exec word])"

text \<open>
  C21 The shell reads a line of any length into its 128-byte buffer without overrunning it
  and asks the kernel for exactly the command entered: the keys typed, with each backspace
  or delete removing the last character, cut off at 127 characters. \<open>ls\<close> lists the
  files, \<open>exit\<close> exits, any other word is run as a program, an empty line does nothing.
\<close>

theorem shell_round_command:
  assumes "length (line s) = 128" "\<forall>c\<in>set keys. \<not> is_newline c" "is_newline nl"
  shows "\<exists>s'. shell_round exec (keys @ nl # rest) s = Some (s', rest) \<and> length (line s') = 128 \<and>
    unat (pos s') < length (line s') \<and>
    filter request (calls s') = filter request (calls s) @ command (foldl edit [] keys)"
proof -
  let ?typed = "foldl edit [] keys"
  let ?s0 = "(write_str ''tuna> '' s)\<lparr>pos := 0\<rparr>"
  have "holds_line [] ?s0" using assms(1) by (simp add: holds_line_def write_str_def)
  from shell_read_line_edit [OF this assms(2,3), of rest] obtain s1 where
    r: "shell_read_line (keys @ nl # rest) ?s0 = Some (s1, rest)" and h: "holds_line ?typed s1"
    and q: "filter request (calls s1) = filter request (calls ?s0)" by auto
  let ?s2 = "s1\<lparr>line := (line s1)[unat (pos s1) := CHR 0x00]\<rparr>"
  have l: "length (line s1) = 128" "unat (pos s1) = length ?typed" "length ?typed \<le> 127"
    "take (length ?typed) (line s1) = ?typed" using h by (simp_all add: holds_line_def)
  have line: "line ?s2 = ?typed @ CHR 0x00 # drop (Suc (length ?typed)) (line s1)"
    using l by (simp add: upd_conv_take_nth_drop)
  have q0: "filter request (calls s1) = filter request (calls s)" using q by (simp add: write_str_def request_def)
  have p0: "pos s1 = 0 \<longleftrightarrow> ?typed = []" using l(2) by (metis length_0_conv unat_eq_zero)
  have ls: "shell_str_eq (line ?s2) (''ls'' @ [CHR 0x00]) \<longleftrightarrow> takeWhile (\<lambda>c. c \<noteq> CHR 0x00) ?typed = ''ls''"
    "shell_str_eq (line ?s2) (''exit'' @ [CHR 0x00]) \<longleftrightarrow> takeWhile (\<lambda>c. c \<noteq> CHR 0x00) ?typed = ''exit''"
    unfolding line by (rule shell_str_eq_cstring; simp)+
  have name: "take (str_len (line ?s2)) (line ?s2) = takeWhile (\<lambda>c. c \<noteq> CHR 0x00) ?typed"
    unfolding line by (rule str_len_cstring)
  show ?thesis
    unfolding shell_round_def Let_def r option.case prod.case
    using l q0 p0 unfolding ls name
    by (auto simp: command_def Let_def write_str_def request_def)
qed

theorem shell_round_command_witness:
  "\<exists>s'. shell_round (\<lambda>_. True) (''lx'' @ [CHR 0x7F] @ ''s'' @ [CHR 0x0A])
     \<lparr>line = replicate 128 (CHR 0x00), pos = 0, calls = []\<rparr> = Some (s', []) \<and>
     filter request (calls s') = [Call_listfiles]"
proof -
  let ?s = "\<lparr>line = replicate 128 (CHR 0x00), pos = 0, calls = []\<rparr> :: shell_state"
  let ?keys = "''lx'' @ [CHR 0x7F] @ ''s''"
  have "command (foldl edit [] ?keys) = [Call_listfiles]" by (simp add: command_def edit_def)
  moreover have "\<exists>s'. shell_round (\<lambda>_. True) (?keys @ CHR 0x0A # []) ?s = Some (s', []) \<and> length (line s') = 128 \<and>
      unat (pos s') < length (line s') \<and>
      filter request (calls s') = filter request (calls ?s) @ command (foldl edit [] ?keys)"
    by (rule shell_round_command) (auto simp: is_newline_def)
  ultimately show ?thesis by auto
qed


end
