(* ===== verification/Spec2Isabelle.thy ===== *)
theory Spec2Isabelle
  imports Startup Shell
begin

text \<open>
  A verification library for Tuna OS, a monolithic x86-64 kernel that GRUB loads through
  Multiboot2 and that runs an interactive shell in user mode. File names below are those of
  \<open>src/kernel/src\<close> unless a directory is given.

  \<^bold>\<open>The program.\<close> \<open>kernel_main\<close> (\<open>kernel.c\<close>) sets the parts up in this order: the serial line
  (\<open>serial.c\<close>), the boot loader's memory map (\<open>multiboot2.c\<close>), the bitmap of page frames
  (\<open>pmm.c\<close>), the page tables (\<open>vmm.c\<close>), the heap (\<open>kheap.c\<close>), the segments and the task
  state segment (\<open>gdt.c\<close>, \<open>tss.c\<close>), the interrupt table (\<open>idt.c\<close>), the interrupt controller
  (\<open>pic.c\<close>), the system calls (\<open>syscall.c\<close>) and the file system (\<open>ramfs.c\<close>). It then loads
  the shell (\<open>elf.c\<close>) and enters user mode (\<open>usermode.c\<close>). From there on the kernel is entered
  through \<open>isr_dispatch\<close> only, by exceptions, interrupts and \<open>int 0x80\<close>. Tasks (\<open>task.c\<close>,
  \<open>switch.S\<close>) and the timer that drives them (\<open>pit.c\<close>) are complete, but \<open>kernel_main\<close> does
  not start them.

  \<^bold>\<open>The model.\<close> Each C file is a group of definitions in the order of the code, with the
  names of the code. The static variables of a file are a record that extends the record of
  the files below it: \<open>machine\<close>, \<open>mb2_state\<close>, \<open>pmm_state\<close>, \<open>vmm_state\<close>, \<open>kheap_state\<close>,
  \<open>task_state\<close>, \<open>ramfs_state\<close>, \<open>desc_state\<close>, \<open>sys_state\<close>, \<open>intr_state\<close>. An operation takes the
  state and returns it, and is typed for every extension of the record it needs, so what it
  cannot reach it visibly keeps. Integers are words of their width. Everything the kernel
  reaches through a pointer (page tables, block headers, file nodes, control blocks, stacks,
  images) is in one byte-addressed memory \<open>mem\<close>, and structs are read at their offsets.

  \<^item> \<open>Prelude\<close>, \<open>Machine\<close>, \<open>Bytes\<close>: words, loads and stores, the counting loop; the ports of
    \<open>io.h\<close>; copying loops in closed form.
  \<^item> \<open>Serial\<close>: \<open>serial.c\<close>. The driver with its busy wait agrees with the driver without it on
    every transmitter that becomes ready again; printed numbers read back as the value.
  \<^item> \<open>Multiboot2\<close>, \<open>Memory_Map\<close>: \<open>multiboot2.c\<close>. The parser equals a reference reading of the
    tag list, returns exactly when the list ends, and stays within its array.
  \<^item> \<open>Pmm\<close>: \<open>pmm.c\<close>. The bitmap implements a set of free frames; the locale \<open>frame_allocator\<close>
    gives that no frame is handed out twice. \<open>pmm_init\<close> frees exactly the usable frames.
  \<^item> \<open>Vmm\<close>: \<open>vmm.c\<close>. The specification is the processor's walk of the tables, \<open>mmu_walk\<close>;
    mapping and unmapping change it at one page only, and what is written are tables. The
    locale \<open>address_space\<close> is the contract that callers use.
  \<^item> \<open>Kheap\<close>, \<open>Heap_Allocator\<close>: \<open>kheap.c\<close>. The headers in memory stand for a list of sizes
    and flags; \<open>kmalloc\<close> is first fit on it and \<open>kfree\<close> a merge. The locale
    \<open>heap_allocator\<close> is the contract of payloads that the users of the heap rely on, and
    \<open>heap_run\<close> their interleaving with other owners of payloads.
  \<^item> \<open>Task\<close>, \<open>Task_Ring\<close>, \<open>Scheduler\<close>: \<open>task.c\<close>, \<open>switch.S\<close>. The circular list is a ring of
    control blocks on the heap; a switch saves and restores registers; tasks take turns.
  \<^item> \<open>Ramfs\<close>, \<open>File_Store\<close>: \<open>ramfs.c\<close>. The nodes on the heap stand for a list of names with
    contents.
  \<^item> \<open>Elf\<close>, \<open>Elf_Loader\<close>: \<open>elf.c\<close>. A loaded segment is in the address space as the file asks
    for it; a malformed image is refused.
  \<^item> \<open>Descriptors\<close>, \<open>Interrupts\<close>: \<open>gdt.c\<close>, \<open>tss.c\<close>, \<open>pic.c\<close>; \<open>idt.c\<close>, \<open>pit.c\<close>.
  \<^item> \<open>Syscall\<close>, \<open>Programs\<close>: \<open>syscall.c\<close>, \<open>usermode.c\<close>. Unknown calls are errors and nothing
    more; a child that exits gives the processor back to the caller of \<open>exec\<close>, for every
    run of the child, which is the inductive relation \<open>child_run\<close>.
  \<^item> \<open>Boot\<close>, \<open>Startup\<close>: \<open>kernel.c\<close>. The gates and segments after start-up; this theory adds
    that the memory components compose from a cold machine to a working heap.
  \<^item> \<open>Shell\<close>: \<open>src/user/shell.c\<close> and \<open>src/user/hello.c\<close>, as the calls they make. The line
    editor keeps within its buffer and asks for the command that was typed.

  \<^bold>\<open>Loops.\<close> There is no fuel. A loop with a bound in the code is recursion with a termination
  proof; one that follows pointers or polls a device is a partial function whose value is
  \<open>None\<close> when it does not return, and the theorems about it say that it returns. In \<open>sys_write\<close>
  and in \<open>exec\<close>, \<open>None\<close> also stands for a page fault on an address the program passed. A
  handler's \<open>Halts\<close> is the endless \<open>hlt\<close> loop, and its \<open>Switches\<close> a timer tick that gives the
  processor to another task.

  \<^bold>\<open>Parameters and assumptions.\<close> The linker symbols and the addresses of the assembly stubs
  are the record \<open>link_map\<close>; what a port answers is the field \<open>dev\<close>. The kernel's own accesses
  go to \<open>mem\<close> directly: code, static data, tables and frames lie in the first 4 MiB, which
  \<open>vmm_init\<close> maps to itself. The heap window from 2 MiB on is mapped to other frames, and
  \<open>mem\<close> at those addresses is the heap; so theorems that involve both take frames below
  2 MiB (frame numbers below 512), as many as they say they need. An access by a program's
  address goes through \<open>mmu_walk\<close>. Compiler, instruction timing, caches other than the log of
  \<open>invlpg\<close>, and interrupts arriving inside kernel code are outside the model: every line of
  the controller stays masked unless \<open>pit_init\<close> is called.

  \<^bold>\<open>Not modelled.\<close> \<open>boot.S\<close> (mode switch before \<open>kernel_main\<close>), \<open>interrupts.S\<close> (the stubs that
  push and pop the frame, which the model takes as a value), \<open>gdt_flush.S\<close> (reload of the
  segment registers, a field of the state), \<open>user_programs.S\<close> (embedding of binaries): machine
  code whose effect is named above. Of the instructions of a user program only its system
  calls and its stores to its own pages appear.
\<close>

text \<open>
  C1 From a cold machine to a working heap. When the boot loader's map has regions that are
  in range and do not overlap and leaves 69 frames between the kernel and 2 MiB, the first
  half of \<open>kernel_main\<close> returns: the map is parsed, the frames and the page tables are set up
  and active, and the heap is one free block of 64 KiB. The self-test that follows passes and
  leaves the heap as it was.
\<close>

theorem kernel_boot_memory_ready:
  fixes s :: "'a intr_state_scheme"
  assumes "tag_list (mem s) (addr + 8) ts" "length (regions s) = 32" "pmm_wf s"
    and "boot_map_ok lm (take 32 (concat (map (tag_entries (mem s)) ts)))"
  shows "\<exists>s' t. kernel_boot_memory lm addr s = Some s' \<and> heap_inv [(65536, True)] s' \<and> cr3 s' = pml4 s' \<and>
    kmalloc_self_test s' = Some (serial_write ''  self-test passed\<newline>'' t) \<and> heap_inv [(65536, True)] t"
proof -
  obtain s' where s': "kernel_boot_memory lm addr s = Some s'" "heap_inv [(65536, True)] s'" "cr3 s' = pml4 s'"
    using kernel_boot_memory_ok [OF assms] by blast
  with self_test_passes [OF s'(2)] show ?thesis by blast
qed

theorem kernel_boot_memory_ready_witness:
  "\<exists>s' t. kernel_boot_memory link_sample 0x9000 cold_intr = Some s' \<and> heap_inv [(65536, True)] s' \<and>
     kmalloc_self_test s' = Some (serial_write ''  self-test passed\<newline>'' t)"
proof -
  have "boot_map_ok link_sample (take 32 (concat (map (tag_entries (mem cold_intr)) [0x9008])))"
    unfolding cold_intr_facts(4) using link_sample_map by simp
  from kernel_boot_memory_ready [OF cold_intr_facts(1-3) this] show ?thesis by blast
qed

end
